(* ===== verification/Prelude.thy ===== *)
theory Prelude
  imports Main "HOL-Library.Word" "HOL-Library.Monad_Syntax" "HOL-Library.Signed_Division"
begin

text \<open>
  Shared vocabulary of the development: the C types the client uses (bytes, pointers, the
  completion codes of \<^verbatim>\<open>src/src/utils/Socket.h\<close> and \<^verbatim>\<open>src/src/utils/TypeDefine.h\<close>), the
  collections of simplification rules the component theories fill, and generic lemmas on lists.

  Conventions used in every theory:
  \<^item> a pointer is a natural number and \<open>NULL\<close> is 0;
  \<^item> a function of type \<open>\<dots> option\<close> written in \<open>do\<close>-notation returns \<open>None\<close> exactly where
    the C code has no defined result: it reads or writes through a dangling or null pointer or
    outside a buffer, or it loops for ever.  A theorem that it returns \<open>Some\<close> is therefore a
    memory-safety and termination statement;
  \<^item> \<open>malloc\<close> is not under \<^verbatim>\<open>src/\<close>: what it answers is an argument of the definition that
    calls it (a pointer for the list functions, a script of successes and failures elsewhere).
\<close>

section \<open>Collections of facts\<close>

named_theorems codes \<open>the values of the completion codes and message types\<close>
named_theorems list_ops \<open>definitions of the abstract list operations\<close>
named_theorems buf_simps \<open>evaluation rules of the buffer readers and writers\<close>

section \<open>C types and completion codes\<close>

type_synonym byte = "8 word"
type_synonym ptr = nat

abbreviation (input) NULL :: ptr where "NULL \<equiv> 0"

definition TCPSOCKET_COMPLETE :: int where [codes]: "TCPSOCKET_COMPLETE = 0"
definition SOCKET_ERROR :: int where [codes]: "SOCKET_ERROR = -1"
definition TCPSOCKET_INTERRUPTED :: int where [codes]: "TCPSOCKET_INTERRUPTED = -22"
definition SOCKETBUFFER_COMPLETE :: int where [codes]: "SOCKETBUFFER_COMPLETE = 0"
definition SOCKETBUFFER_INTERRUPTED :: int where [codes]: "SOCKETBUFFER_INTERRUPTED = -22"
definition PAHO_MEMORY_ERROR :: int where [codes]: "PAHO_MEMORY_ERROR = -99"

section \<open>Lists with a sentinel at either end\<close>

text \<open>\<open>hd0 n xs\<close> is the first element of \<open>xs\<close>, or \<open>n\<close> when there is none; \<open>last0 p xs\<close>
  is the last one, or \<open>p\<close>.\<close>

definition hd0 :: "'a \<Rightarrow> 'a list \<Rightarrow> 'a" where
  "hd0 n xs = (case xs of [] \<Rightarrow> n | x # _ \<Rightarrow> x)"

definition last0 :: "'a \<Rightarrow> 'a list \<Rightarrow> 'a" where
  "last0 p xs = (if xs = [] then p else last xs)"

lemma hd0_simps [simp]: "hd0 n [] = n" "hd0 n (x # xs) = x"
  by (simp_all add: hd0_def)

lemma last0_simps [simp]: "last0 p [] = p" "last0 p (x # xs) = last0 x xs"
  by (simp_all add: last0_def)

lemma hd0_append [simp]: "hd0 n (xs @ ys) = hd0 (hd0 n ys) xs"
  by (cases xs) simp_all

lemma last0_append [simp]: "last0 p (xs @ ys) = last0 (last0 p xs) ys"
  by (simp add: last0_def)

lemma hd0_in: "hd0 n xs = n \<or> hd0 n xs \<in> set xs"
  by (cases xs) simp_all

lemma last0_in: "last0 p xs = p \<or> last0 p xs \<in> set xs"
  by (simp add: last0_def)

lemma hd0_eq_sentinel [simp]: "n \<notin> set xs \<Longrightarrow> hd0 n xs = n \<longleftrightarrow> xs = []"
  by (cases xs) auto

lemma last0_eq_sentinel [simp]: "p \<notin> set xs \<Longrightarrow> last0 p xs = p \<longleftrightarrow> xs = []"
  by (auto simp: last0_def)

section \<open>The first index that satisfies a predicate\<close>

fun find_index :: "('a \<Rightarrow> bool) \<Rightarrow> 'a list \<Rightarrow> nat option" where
  "find_index P [] = None"
| "find_index P (x # xs) = (if P x then Some 0 else map_option Suc (find_index P xs))"

lemma find_index_None: "find_index P xs = None \<longleftrightarrow> (\<forall>x\<in>set xs. \<not> P x)"
  by (induction xs) auto

lemma find_index_SomeD:
  "find_index P xs = Some i \<Longrightarrow> i < length xs \<and> P (xs ! i) \<and> (\<forall>j<i. \<not> P (xs ! j))"
proof (induction xs arbitrary: i)
  case (Cons x xs)
  then show ?case
    by (auto simp: less_Suc_eq_0_disj split: if_splits)
qed simp

lemma find_index_append_None:
  assumes "find_index P xs = None"
  shows "find_index P (xs @ ys) = map_option (\<lambda>j. length xs + j) (find_index P ys)"
proof (cases "find_index P ys")
  case None
  with assms have "find_index P (xs @ ys) = None" by (auto simp: find_index_None)
  with None show ?thesis by simp
next
  case (Some j)
  have "\<forall>x\<in>set xs. \<not> P x \<Longrightarrow> find_index P (xs @ ys) = Some (length xs + j)"
    using Some by (induction xs) auto
  with assms Some show ?thesis by (simp add: find_index_None)
qed

lemma find_index_append_Some:
  "find_index P xs = Some i \<Longrightarrow> find_index P (xs @ ys) = Some i"
  by (induction xs arbitrary: i) (auto split: if_splits)

lemma find_index_map: "find_index P (map f xs) = find_index (P \<circ> f) xs"
  by (induction xs) auto

lemma find_index_cong:
  "(\<And>x. x \<in> set xs \<Longrightarrow> P x = Q x) \<Longrightarrow> find_index P xs = find_index Q xs"
  by (induction xs) auto

text \<open>\<open>remove_nth i xs\<close> is \<open>xs\<close> without its element number \<open>i\<close>.\<close>

definition remove_nth :: "nat \<Rightarrow> 'a list \<Rightarrow> 'a list" where
  "remove_nth i xs = take i xs @ drop (Suc i) xs"

lemma remove_nth_middle [simp]: "remove_nth (length xs) (xs @ x # ys) = xs @ ys"
  by (simp add: remove_nth_def)

lemma remove_nth_map: "remove_nth i (map f xs) = map f (remove_nth i xs)"
  by (simp add: remove_nth_def take_map drop_map)

lemma set_remove_nth_subset: "set (remove_nth i xs) \<subseteq> set xs"
  by (auto simp: remove_nth_def dest: in_set_takeD in_set_dropD)

lemma distinct_remove_nth: "distinct xs \<Longrightarrow> distinct (remove_nth i xs)"
  using append_take_drop_id [of i xs] by (auto simp: remove_nth_def set_take_disj_set_drop_if_distinct)

lemma set_remove_nth:
  assumes "distinct xs" "i < length xs"
  shows "set (remove_nth i xs) = set xs - {xs ! i}"
proof -
  have "xs = take i xs @ xs ! i # drop (Suc i) xs"
    using assms(2) by (rule id_take_nth_drop)
  moreover from this assms(1) have "distinct (take i xs @ xs ! i # drop (Suc i) xs)"
    by simp
  ultimately show ?thesis
    unfolding remove_nth_def
    by (metis (no_types, lifting) Diff_insert_absorb Un_insert_right disjoint_insert(2)
        distinct_append list.simps(15) set_append distinct.simps(2) Un_iff)
qed

section \<open>Allocation scripts\<close>

text \<open>The answers of \<open>malloc\<close> and \<open>realloc\<close> in the order of the calls; a script that has run out
  answers with success.\<close>

type_synonym mallocs = "bool list"

definition next_malloc :: "mallocs \<Rightarrow> bool \<times> mallocs" where
  "next_malloc ms = (case ms of [] \<Rightarrow> (True, []) | ok # ms' \<Rightarrow> (ok, ms'))"

lemma next_malloc_simps [simp]: "next_malloc [] = (True, [])" "next_malloc (b # ms) = (b, ms)"
  by (simp_all add: next_malloc_def)

section \<open>Memory that may be uninitialised\<close>

text \<open>A buffer is a list of cells; a cell that has not been written holds \<open>None\<close>.  Storing and
  loading outside the buffer, and loading an unwritten cell, have no result.\<close>

type_synonym mem = "byte option list"

definition raw_mem :: "nat \<Rightarrow> mem" where
  "raw_mem n = replicate n None"

definition store_bytes :: "mem \<Rightarrow> nat \<Rightarrow> byte list \<Rightarrow> mem option" where
  "store_bytes m off bs =
     (if off + length bs \<le> length m
      then Some (take off m @ map Some bs @ drop (off + length bs) m) else None)"

definition load_bytes :: "mem \<Rightarrow> nat \<Rightarrow> nat \<Rightarrow> byte list option" where
  "load_bytes m off n =
     (if off + n \<le> length m then those (take n (drop off m)) else None)"

definition resize_mem :: "mem \<Rightarrow> nat \<Rightarrow> mem" where
  "resize_mem m n = take n m @ replicate (n - length m) None"

lemma length_raw_mem [simp]: "length (raw_mem n) = n"
  by (simp add: raw_mem_def)

lemma length_resize_mem [simp]: "length (resize_mem m n) = n"
  by (simp add: resize_mem_def)

lemma store_bytes_length: "store_bytes m off bs = Some m' \<Longrightarrow> length m' = length m"
  by (auto simp: store_bytes_def split: if_splits)

lemma those_map_Some [simp]: "those (map Some xs) = Some xs"
  by (induction xs) simp_all

text \<open>A buffer whose first cells hold \<open>bs\<close>.\<close>

definition holds :: "mem \<Rightarrow> byte list \<Rightarrow> bool" where
  "holds m bs \<longleftrightarrow> length bs \<le> length m \<and> take (length bs) m = map Some bs"

lemma holds_Nil [simp]: "holds m []"
  by (simp add: holds_def)

lemma load_bytes_holds: "holds m bs \<Longrightarrow> load_bytes m 0 (length bs) = Some bs"
  by (simp add: load_bytes_def holds_def)

lemma holds_prefix: "holds m (bs @ cs) \<Longrightarrow> holds m bs"
  by (auto simp: holds_def take_add dest: arg_cong [where f = "take (length bs)"])

lemma store_bytes_holds:
  assumes "holds m bs" "length bs + length cs \<le> length m"
  shows "\<exists>m'. store_bytes m (length bs) cs = Some m' \<and> holds m' (bs @ cs) \<and> length m' = length m"
  using assms by (auto simp: store_bytes_def holds_def)

lemma holds_resize: "holds m bs \<Longrightarrow> length bs \<le> n \<Longrightarrow> holds (resize_mem m n) bs"
  by (auto simp: holds_def resize_mem_def min_def)

end
