(* ===== verification/Base64.thy ===== *)
theory Base64
  imports Prelude
begin

text \<open>
  The base 64 encoder and decoder of \<^verbatim>\<open>src/src/utils/Base64.c\<close>: both write into a buffer of the
  caller, decoding reverses encoding, and the two length functions compute the sizes exactly.
\<close>

unbundle bit_operations_syntax

section \<open>The code\<close>

text \<open>\<open>b64_size_t\<close> is \<open>unsigned int\<close>, \<open>b64_data_t\<close> is \<open>unsigned char\<close>.  A buffer is the list of the bytes
  it has; writing outside has no result.  The input is the list of its \<open>in_len\<close> bytes.\<close>

definition put_at :: "byte list \<Rightarrow> nat \<Rightarrow> byte \<Rightarrow> byte list option" where
  "put_at buf i x = (if i < length buf then Some (buf[i := x]) else None)"

definition NV :: byte where "NV = 64"

definition BASE64_DECODE_TABLE :: "byte list" where
  "BASE64_DECODE_TABLE =
     replicate 32 NV @
     [NV, NV, NV, NV, NV, NV, NV, NV, NV, NV, NV, 62, NV, NV, NV, 63,
      52, 53, 54, 55, 56, 57, 58, 59, 60, 61, NV, NV, NV, NV, NV, NV,
      NV, 0, 1, 2, 3, 4, 5, 6, 7, 8, 9, 10, 11, 12, 13, 14,
      15, 16, 17, 18, 19, 20, 21, 22, 23, 24, 25, NV, NV, NV, NV, NV,
      NV, 26, 27, 28, 29, 30, 31, 32, 33, 34, 35, 36, 37, 38, 39, 40,
      41, 42, 43, 44, 45, 46, 47, 48, 49, 50, 51, NV, NV, NV, NV, NV] @
     replicate 128 NV"

text \<open>The index is a \<open>char\<close>, which is signed: a byte from 128 on reads before the table.\<close>

definition decode_char :: "byte \<Rightarrow> byte option" where
  "decode_char b = (if sint b < 0 then None else Some (BASE64_DECODE_TABLE ! nat (sint b)))"

text \<open>The body of the loop for the four values of one group.  The first component of the result says that
  the rest of the input is dropped (\<open>in_len = 0\<close>).  \<open>out\<close> is the start of the buffer plus \<open>out_count\<close>.\<close>

definition decode_group ::
  "nat \<Rightarrow> byte \<Rightarrow> byte \<Rightarrow> byte \<Rightarrow> byte \<Rightarrow> byte list \<Rightarrow> nat \<Rightarrow> (bool \<times> byte list \<times> nat) option" where
  "decode_group out_len c0 c1 c2 c3 buf n =
     do {
       buf \<leftarrow> put_at buf n (push_bit 2 c0 OR drop_bit 4 (c1 AND NOT 0xF));
       if \<not> n + 1 < out_len then Some (False, buf, n + 1)
       else do {
         buf \<leftarrow> put_at buf (n + 1) (push_bit 4 (c1 AND 0xF));
         if \<not> c2 < NV then Some (True, buf, n + 1)
         else do {
           buf \<leftarrow> put_at buf (n + 1) (buf ! (n + 1) OR drop_bit 2 (c2 AND NOT 0x3));
           if \<not> n + 2 < out_len then Some (False, buf, n + 2)
           else do {
             buf \<leftarrow> put_at buf (n + 2) (push_bit 6 (c2 AND 0x3));
             if \<not> c3 < NV then Some (True, buf, n + 2)
             else do {
               buf \<leftarrow> put_at buf (n + 2) (buf ! (n + 2) OR c3);
               Some (False, buf, n + 3)
             }
           }
         }
       }
     }"

fun decode_loop :: "nat \<Rightarrow> byte list \<Rightarrow> byte list \<Rightarrow> nat \<Rightarrow> (byte list \<times> nat) option" where
  "decode_loop out_len (i0 # i1 # i2 # i3 # inp) buf n =
     (if \<not> n < out_len then Some (buf, n)
      else case (decode_char i0, decode_char i1, decode_char i2, decode_char i3) of
        (Some c0, Some c1, Some c2, Some c3) \<Rightarrow>
          (case decode_group out_len c0 c1 c2 c3 buf n of
             None \<Rightarrow> None
           | Some (stop, buf, n) \<Rightarrow> if stop then Some (buf, n) else decode_loop out_len inp buf n)
      | _ \<Rightarrow> None)"
| "decode_loop out_len inp buf n = Some (buf, n)"

definition Base64_decode :: "byte list \<Rightarrow> nat \<Rightarrow> byte list \<Rightarrow> (nat \<times> byte list) option" where
  "Base64_decode buf out_len inp =
     do {
       (buf, n) \<leftarrow> decode_loop out_len inp buf 0;
       if n \<le> out_len then do {
         buf \<leftarrow> (if n < out_len then put_at buf n 0 else Some buf);
         Some (n, buf)
       }
       else Some (0, buf)
     }"

text \<open>The characters \<open>A\<close> to \<open>Z\<close>, \<open>a\<close> to \<open>z\<close>, \<open>0\<close> to \<open>9\<close>, plus, slash and equals by their codes.\<close>

definition BASE64_ENCODE_TABLE :: "byte list" where
  "BASE64_ENCODE_TABLE = map word_of_nat ([65..<91] @ [97..<123] @ [48..<58] @ [43, 47, 61])"

text \<open>The four table indices for the next input bytes.\<close>

fun encode_group :: "byte list \<Rightarrow> byte list" where
  "encode_group [] = [0, 0, 64, 64]"
| "encode_group [i] = [drop_bit 2 (i AND NOT 0x3), push_bit 4 (i AND 0x3), 64, 64]"
| "encode_group [i, j] =
     [drop_bit 2 (i AND NOT 0x3), push_bit 4 (i AND 0x3) OR drop_bit 4 (j AND NOT 0xF), push_bit 2 (j AND 0xF), 64]"
| "encode_group (i # j # k # _) =
     [drop_bit 2 (i AND NOT 0x3), push_bit 4 (i AND 0x3) OR drop_bit 4 (j AND NOT 0xF),
      push_bit 2 (j AND 0xF) OR drop_bit 6 (k AND NOT 0x3F), k AND 0x3F]"

text \<open>The inner loop writes from \<open>out\<close> on.\<close>

fun put_chars :: "byte list \<Rightarrow> nat \<Rightarrow> byte list \<Rightarrow> byte list option" where
  "put_chars buf out [] = Some buf"
| "put_chars buf out (c # cs) = do { buf \<leftarrow> put_at buf out (BASE64_ENCODE_TABLE ! unat c); put_chars buf (Suc out) cs }"

function encode_loop :: "nat \<Rightarrow> byte list \<Rightarrow> byte list \<Rightarrow> nat \<Rightarrow> nat \<Rightarrow> (byte list \<times> nat \<times> nat) option" where
  "encode_loop out_len inp buf out n =
     (if inp \<noteq> [] \<and> n < out_len then
        let n = (n + 4) mod 2 ^ 32 in
        if n \<le> out_len then
          case put_chars buf out (encode_group inp) of
            None \<Rightarrow> None
          | Some buf \<Rightarrow> encode_loop out_len (drop 3 inp) buf (out + 4) n
        else encode_loop out_len (drop 3 inp) buf out n
      else Some (buf, out, n))"
  by pat_completeness auto
termination encode_loop by (relation "measure (\<lambda>(_, inp, _). length inp)") auto

declare encode_loop.simps [simp del]

definition Base64_encode :: "byte list \<Rightarrow> nat \<Rightarrow> byte list \<Rightarrow> (nat \<times> byte list) option" where
  "Base64_encode buf out_len inp =
     do {
       (buf, out, n) \<leftarrow> encode_loop out_len inp buf 0 0;
       if n \<le> out_len then do {
         buf \<leftarrow> (if n < out_len then put_at buf out 0 else Some buf);
         Some (n, buf)
       }
       else Some (0, buf)
     }"

text \<open>The length functions compute with unsigned 32-bit numbers.  The first takes the null pointer or the
  bytes; reading outside has no result.\<close>

definition Base64_decodeLength :: "byte list option \<Rightarrow> 32 word \<Rightarrow> 32 word option" where
  "Base64_decodeLength inp in_len =
     (case inp of
        None \<Rightarrow> Some (in_len div 4 * 3)
      | Some b \<Rightarrow>
          if length b < unat in_len then None
          else
            let pad1 = (if 1 < in_len \<and> b ! (unat in_len - 2) = 0x3D then 1 else 0);
                pad2 = (if 0 < in_len \<and> b ! (unat in_len - 1) = 0x3D then 1 else 0)
            in Some (in_len div 4 * 3 - (pad1 + pad2)))"

definition Base64_encodeLength :: "32 word \<Rightarrow> 32 word" where
  "Base64_encodeLength in_len = (4 * in_len div 3 + 3) AND NOT 0x3"

lemma decode_encode_char: "i < 65 \<Longrightarrow> decode_char (BASE64_ENCODE_TABLE ! i) = Some (word_of_nat i)"
proof -
  have "\<forall>i\<in>set [0..<65]. decode_char (BASE64_ENCODE_TABLE ! i) = Some (word_of_nat i)" by code_simp
  then show "i < 65 \<Longrightarrow> decode_char (BASE64_ENCODE_TABLE ! i) = Some (word_of_nat i)" by simp
qed

lemma bits8: "(v :: byte) = w \<longleftrightarrow> (\<forall>n<8. bit v n = bit w n)"
  by (auto simp: bit_eq_iff dest: bit_imp_le_length)

lemma less8: "(\<forall>n<(8::nat). P n) \<longleftrightarrow> P 0 \<and> P 1 \<and> P 2 \<and> P 3 \<and> P 4 \<and> P 5 \<and> P 6 \<and> P 7"
  by (simp add: numeral_eq_Suc All_less_Suc conj_ac)


lemma joins:
  "push_bit 2 (drop_bit 2 (i AND NOT 0x3)) OR
     drop_bit 4 ((push_bit 4 (i AND 0x3) OR drop_bit 4 (j AND NOT 0xF)) AND NOT 0xF) = (i :: byte)"
  "push_bit 2 (drop_bit 2 (i AND NOT 0x3)) OR drop_bit 4 (push_bit 4 (i AND 0x3) AND NOT 0xF) = i"
  "push_bit 4 ((push_bit 4 (i AND 0x3) OR drop_bit 4 (j AND NOT 0xF)) AND 0xF) OR
     drop_bit 2 ((push_bit 2 (j AND 0xF) OR drop_bit 6 (k AND NOT 0x3F)) AND NOT 0x3) = j"
  "push_bit 4 ((push_bit 4 (i AND 0x3) OR drop_bit 4 (j AND NOT 0xF)) AND 0xF) OR
     drop_bit 2 (push_bit 2 (j AND 0xF) AND NOT 0x3) = j"
  "push_bit 6 ((push_bit 2 (j AND 0xF) OR drop_bit 6 (k AND NOT 0x3F)) AND 0x3) OR (k AND 0x3F) = k"
  unfolding bits8 less8 by (simp_all add: bit_simps)

lemma less64: "(v :: byte) < 64 \<longleftrightarrow> \<not> bit v 6 \<and> \<not> bit v 7"
proof -
  have "take_bit 6 v = v \<longleftrightarrow> unat v mod 64 = unat v"
    by (simp add: word_unat_eq_iff unsigned_take_bit_eq take_bit_eq_mod unat_mod)
  then have "v < 64 \<longleftrightarrow> take_bit 6 v = v" by (auto simp: word_less_nat_alt)
  also have "\<dots> \<longleftrightarrow> \<not> bit v 6 \<and> \<not> bit v 7" unfolding bits8 less8 by (simp add: bit_simps)
  finally show ?thesis .
qed

lemma indices_less:
  "drop_bit 2 (i AND NOT 0x3) < (64 :: byte)" "push_bit 4 (i AND 0x3) < (64 :: byte)"
  "push_bit 4 (i AND 0x3) OR drop_bit 4 (j AND NOT 0xF) < (64 :: byte)" "push_bit 2 (j AND 0xF) < (64 :: byte)"
  "push_bit 2 (j AND 0xF) OR drop_bit 6 (k AND NOT 0x3F) < (64 :: byte)" "k AND 0x3F < (64 :: byte)"
  unfolding less64 by (simp_all add: bit_simps)

lemma put_chars:
  "out + length cs \<le> length buf \<Longrightarrow> put_chars buf out cs =
     Some (take out buf @ map (\<lambda>c. BASE64_ENCODE_TABLE ! unat c) cs @ drop (out + length cs) buf)"
proof (induction cs arbitrary: buf out)
  case (Cons c cs)
  let ?b = "buf[out := BASE64_ENCODE_TABLE ! unat c]"
  have "take (Suc out) ?b = take out buf @ [BASE64_ENCODE_TABLE ! unat c]"
    using Cons.prems by (simp add: take_Suc_conv_app_nth)
  with Cons show ?case by (simp add: put_at_def)
qed simp

lemma length_encode_group [simp]: "length (encode_group inp) = 4"
  by (cases inp rule: encode_group.cases) simp_all

section \<open>Encoding\<close>

text \<open>The text of the data, group by group.\<close>

fun base64 :: "byte list \<Rightarrow> byte list" where
  "base64 [] = []"
| "base64 (i # inp) = map (\<lambda>c. BASE64_ENCODE_TABLE ! unat c) (encode_group (i # inp)) @ base64 (drop 2 inp)"

lemma length_base64: "length (base64 inp) = 4 * ((length inp + 2) div 3)"
proof (induction inp rule: base64.induct)
  case (2 i inp)
  have "Suc ((length inp - 2 + 2) div 3) = (Suc (length inp) + 2) div 3" by (cases "length inp < 2") auto
  with 2 show ?case by simp
qed simp

lemma encode_loop_base64:
  assumes "length buf \<ge> out_len" "out_len < 2 ^ 32" "out + length (base64 inp) \<le> out_len"
  shows "encode_loop out_len inp buf out out = Some (take out buf @ base64 inp @ drop (out + length (base64 inp)) buf,
     out + length (base64 inp), out + length (base64 inp))"
  using assms
proof (induction inp arbitrary: buf out rule: base64.induct)
  case (2 i inp)
  let ?b = "take out buf @ map (\<lambda>c. BASE64_ENCODE_TABLE ! unat c) (encode_group (i # inp)) @ drop (out + 4) buf"
  have p: "put_chars buf out (encode_group (i # inp)) = Some ?b"
    using 2 by (simp add: put_chars)
  have "encode_loop out_len (drop 2 inp) ?b (out + 4) (out + 4) =
      Some (take (out + 4) ?b @ base64 (drop 2 inp) @ drop (out + 4 + length (base64 (drop 2 inp))) ?b,
        out + 4 + length (base64 (drop 2 inp)), out + 4 + length (base64 (drop 2 inp)))"
    using 2 by simp
  moreover have "take (out + 4) ?b = take out buf @ map (\<lambda>c. BASE64_ENCODE_TABLE ! unat c) (encode_group (i # inp))"
    "drop (out + 4 + length (base64 (drop 2 inp))) ?b = drop (out + length (base64 (i # inp))) buf"
    using 2 by (simp_all add: min_absorb2 ac_simps)
  ultimately show ?case using 2 p by (subst encode_loop.simps) (simp add: Let_def)
qed (subst encode_loop.simps, simp)

lemma encode_loop_stop: "\<not> n < out_len \<Longrightarrow> encode_loop out_len inp buf out n = Some (buf, out, n)"
  by (subst encode_loop.simps) simp

lemma encode_loop_short:
  assumes "length buf \<ge> out_len" "out_len + 4 < 2 ^ 32" "out_len < out + length (base64 inp)" "out \<le> out_len"
  shows "\<exists>buf' out' n. encode_loop out_len inp buf out out = Some (buf', out', n)
     \<and> length buf' = length buf \<and> drop out_len buf' = drop out_len buf
     \<and> (if 4 dvd out_len - out then n = out_len else out_len < n)"
  using assms
proof (induction inp arbitrary: buf out rule: base64.induct)
  case (2 i inp)
  let ?b = "take out buf @ map (\<lambda>c. BASE64_ENCODE_TABLE ! unat c) (encode_group (i # inp)) @ drop (out + 4) buf"
  consider "out + 4 \<le> out_len" | "out < out_len" "out_len < out + 4" | "out = out_len" using 2 by linarith
  then show ?case
  proof cases
    case 1
    then have p: "put_chars buf out (encode_group (i # inp)) = Some ?b" using 2 by (simp add: put_chars)
    have l: "length ?b = length buf" "drop out_len ?b = drop out_len buf" using 2 1 by (simp_all add: min_absorb2 ac_simps)
    have d: "4 dvd out_len - (out + 4) \<longleftrightarrow> 4 dvd out_len - out"
      using 1 dvd_minus_self [of 4 "out_len - out"] by auto
    have "\<exists>buf' out' n. encode_loop out_len (drop 2 inp) ?b (out + 4) (out + 4) = Some (buf', out', n)
        \<and> length buf' = length ?b \<and> drop out_len buf' = drop out_len ?b
        \<and> (if 4 dvd out_len - (out + 4) then n = out_len else out_len < n)"
      by (rule 2(1)) (use 2 l 1 in simp_all)
    with 1 p l d 2 show ?thesis by (subst encode_loop.simps) (auto simp: Let_def)
  next
    case 2
    have "\<not> 4 dvd out_len - out" using 2 by (auto dest!: dvd_imp_le)
    with 2 \<open>out_len + 4 < 2 ^ 32\<close> show ?thesis
      by (subst encode_loop.simps) (simp add: Let_def encode_loop_stop)
  next
    case 3
    then show ?thesis by (simp add: encode_loop_stop)
  qed
qed simp

section \<open>Decoding\<close>

lemma decode_encoded: "c < 64 \<Longrightarrow> decode_char (BASE64_ENCODE_TABLE ! unat c) = Some c"
  "decode_char (BASE64_ENCODE_TABLE ! 64) = Some 64"
  using decode_encode_char [of "unat c"] decode_encode_char [of 64] by (simp_all add: word_less_nat_alt)

lemma take_put2: "n < length buf \<Longrightarrow> take (Suc n) (buf[n := x]) = take n buf @ [x]"
  by (simp add: take_Suc_conv_app_nth)

text \<open>The indices of a group, and what the decoder puts together from them.\<close>

lemma encode_group1:
  obtains c0 c1 where "encode_group [i] = [c0, c1, 64, 64]" "c0 < 64" "c1 < 64"
    "push_bit 2 c0 OR drop_bit 4 (c1 AND NOT 0xF) = i"
  by (rule that [OF encode_group.simps(2)]) (rule indices_less joins)+

lemma encode_group2:
  obtains c0 c1 c2 where "encode_group [i, j] = [c0, c1, c2, 64]" "c0 < 64" "c1 < 64" "c2 < 64"
    "push_bit 2 c0 OR drop_bit 4 (c1 AND NOT 0xF) = i" "push_bit 4 (c1 AND 0xF) OR drop_bit 2 (c2 AND NOT 0x3) = j"
  by (rule that [OF encode_group.simps(3)]) (rule indices_less joins)+

lemma encode_group3:
  obtains c0 c1 c2 c3 where "encode_group (i # j # k # inp) = [c0, c1, c2, c3]" "c0 < 64" "c1 < 64" "c2 < 64" "c3 < 64"
    "push_bit 2 c0 OR drop_bit 4 (c1 AND NOT 0xF) = i" "push_bit 4 (c1 AND 0xF) OR drop_bit 2 (c2 AND NOT 0x3) = j"
    "push_bit 6 (c2 AND 0x3) OR c3 = k"
  by (rule that [OF encode_group.simps(4)]) (rule indices_less joins)+

lemma decode_loop_base64:
  assumes "length buf \<ge> out_len" "n + length inp \<le> out_len"
  shows "\<exists>buf'. decode_loop out_len (base64 inp) buf n = Some (buf', n + length inp)
     \<and> take (n + length inp) buf' = take n buf @ inp \<and> length buf' = length buf"
  using assms
proof (induction inp arbitrary: buf n rule: base64.induct)
  case (2 i inp)
  note prems = 2
  consider "inp = []" | j where "inp = [j]" | j k rest where "inp = j # k # rest"
    by (cases inp rule: encode_group.cases) auto
  then show ?case
  proof cases
    case 1
    obtain c0 c1 where "encode_group [i] = [c0, c1, 64, 64]" "c0 < 64" "c1 < 64"
      "push_bit 2 c0 OR drop_bit 4 (c1 AND NOT 0xF) = i" by (rule encode_group1)
    with 1 show ?thesis using prems take_put2 [of n buf i]
      by (auto simp: decode_encoded decode_group_def put_at_def NV_def take_put2 simp del: encode_group.simps)
  next
    case (2 j)
    obtain c0 c1 c2 where "encode_group [i, j] = [c0, c1, c2, 64]" "c0 < 64" "c1 < 64" "c2 < 64"
      "push_bit 2 c0 OR drop_bit 4 (c1 AND NOT 0xF) = i" "push_bit 4 (c1 AND 0xF) OR drop_bit 2 (c2 AND NOT 0x3) = j"
      by (rule encode_group2)
    with 2 show ?thesis using prems take_put2 [of n buf i] take_put2 [of "Suc n" "buf[n := i]" j]
      by (auto simp: decode_encoded decode_group_def put_at_def NV_def take_put2 simp del: encode_group.simps)
  next
    case (3 j k rest)
    obtain c0 c1 c2 c3 where c: "encode_group (i # j # k # rest) = [c0, c1, c2, c3]" "c0 < 64" "c1 < 64" "c2 < 64" "c3 < 64"
      "push_bit 2 c0 OR drop_bit 4 (c1 AND NOT 0xF) = i" "push_bit 4 (c1 AND 0xF) OR drop_bit 2 (c2 AND NOT 0x3) = j"
      "push_bit 6 (c2 AND 0x3) OR c3 = k" by (rule encode_group3)
    let ?b = "buf[n := i, Suc n := j, Suc (Suc n) := k]"
    have "decode_loop out_len (base64 (i # inp)) buf n = decode_loop out_len (base64 rest) ?b (n + 3)"
      using prems 3 c by (simp add: decode_encoded decode_group_def put_at_def NV_def del: encode_group.simps)
    moreover have "take (n + 3) ?b = take n buf @ [i, j, k]"
      using prems 3 by (simp add: numeral_3_eq_3 take_put2)
    moreover obtain buf' where "decode_loop out_len (base64 rest) ?b (n + 3) = Some (buf', n + 3 + length rest)"
      "take (n + 3 + length rest) buf' = take (n + 3) ?b @ rest" "length buf' = length buf"
      using prems(1) [of ?b "n + 3"] prems 3 by auto
    moreover have "n + 3 + length rest = n + length (i # inp)" using 3 by simp
    ultimately show ?thesis using 3 by (simp del: base64.simps decode_loop.simps)
  qed
qed simp

lemma decode_group_bounded:
  assumes "n < out_len" "out_len \<le> length buf"
  shows "\<exists>stop buf' n'. decode_group out_len c0 c1 c2 c3 buf n = Some (stop, buf', n') \<and> n' \<le> out_len
     \<and> length buf' = length buf \<and> drop out_len buf' = drop out_len buf"
  using assms by (auto simp: decode_group_def put_at_def)

lemma decode_char_ascii: "sint b \<ge> 0 \<Longrightarrow> \<exists>c. decode_char b = Some c"
  by (simp add: decode_char_def)

lemma decode_loop_bounded:
  assumes "n \<le> out_len" "out_len \<le> length buf" "\<forall>b\<in>set inp. 0 \<le> sint b"
  shows "\<exists>buf' n'. decode_loop out_len inp buf n = Some (buf', n') \<and> n' \<le> out_len
     \<and> length buf' = length buf \<and> drop out_len buf' = drop out_len buf"
  using assms
proof (induction out_len inp buf n rule: decode_loop.induct)
  case (1 out_len i0 i1 i2 i3 inp buf n)
  show ?case
  proof (cases "n < out_len")
    case True
    from 1 obtain c0 c1 c2 c3 where c: "decode_char i0 = Some c0" "decode_char i1 = Some c1" "decode_char i2 = Some c2"
      "decode_char i3 = Some c3" using decode_char_ascii by (metis list.set_intros)
    from decode_group_bounded [OF True 1(3)] obtain stop buf' n' where
      g: "decode_group out_len c0 c1 c2 c3 buf n = Some (stop, buf', n')" "n' \<le> out_len"
        "length buf' = length buf" "drop out_len buf' = drop out_len buf" by blast
    show ?thesis
    proof (cases stop)
      case True
      with c g \<open>n < out_len\<close> show ?thesis by simp
    next
      case False
      have "\<exists>buf'' n''. decode_loop out_len inp buf' n' = Some (buf'', n'') \<and> n'' \<le> out_len
          \<and> length buf'' = length buf' \<and> drop out_len buf'' = drop out_len buf'"
        by (rule 1(1)) (use True c g False 1 in auto)
      with c g False \<open>n < out_len\<close> show ?thesis by auto
    qed
  qed (use 1 in simp)
qed simp_all

lemma encodeLength_correct:
  assumes "n < 2 ^ 30"
  shows "Base64_encodeLength (word_of_nat n) = word_of_nat (4 * ((n + 2) div 3))"
proof -
  have u: "unat (4 * word_of_nat n div 3 + 3 :: 32 word) = 4 * n div 3 + 3"
    using assms by (simp add: unat_word_ariths unat_of_nat unat_div_distrib)
  have "(w :: 32 word) AND NOT 0x3 = push_bit 2 (drop_bit 2 w)" for w
  proof -
    have "(3 :: 32 word) = mask 2" by (simp add: mask_eq_exp_minus_1)
    then show ?thesis by (auto simp: bit_eq_iff bit_simps) (metis add_2_eq_Suc le_add_diff_inverse not_less)+
  qed
  then have "Base64_encodeLength (word_of_nat n) = (4 * word_of_nat n div 3 + 3) div 4 * 4"
    unfolding Base64_encodeLength_def by (simp add: push_bit_eq_mult drop_bit_eq_div)
  moreover have "unat (x div 4 * 4) = unat x div 4 * 4 mod 2 ^ 32" for x :: "32 word"
    by (simp add: unat_word_ariths unat_div_distrib mod_mult_left_eq)
  ultimately have "unat (Base64_encodeLength (word_of_nat n)) = (4 * n div 3 + 3) div 4 * 4 mod 2 ^ 32"
    by (simp only: u)
  moreover have "(4 * n div 3 + 3) div 4 = (n + 2) div 3" by presburger
  moreover have "unat (word_of_nat (4 * ((n + 2) div 3)) :: 32 word) = (n + 2) div 3 * 4 mod 2 ^ 32"
    by (simp only: unsigned_of_nat take_bit_eq_mod mult.commute len_num0 len_bit0 len_num1) simp
  ultimately show ?thesis by (simp only: word_unat_eq_iff)
qed

text \<open>The last group of the text.\<close>

lemma base64_last:
  assumes "inp \<noteq> []"
  shows "\<exists>pre g. base64 inp = pre @ map (\<lambda>c. BASE64_ENCODE_TABLE ! unat c) (encode_group g)
     \<and> 0 < length g \<and> length g \<le> 3 \<and> length inp mod 3 = length g mod 3"
  using assms
proof (induction inp rule: base64.induct)
  case (2 i inp)
  show ?case
  proof (cases "drop 2 inp = []")
    case True
    then show ?thesis by (intro exI [of _ "[]"] exI [of _ "i # inp"]) simp
  next
    case False
    with 2 obtain pre g where g: "base64 (drop 2 inp) = pre @ map (\<lambda>c. BASE64_ENCODE_TABLE ! unat c) (encode_group g)"
      "0 < length g" "length g \<le> 3" "length (drop 2 inp) mod 3 = length g mod 3" by blast
    have "length (i # inp) = length (drop 2 inp) + 3" using False by simp
    then have "length (i # inp) mod 3 = length g mod 3" using g(4) by (metis mod_add_self2)
    with g show ?thesis
      by (intro exI [of _ "map (\<lambda>c. BASE64_ENCODE_TABLE ! unat c) (encode_group (i # inp)) @ pre"] exI [of _ g]) simp
  qed
qed simp

lemma encode_char_end: "BASE64_ENCODE_TABLE ! 64 = 0x3D" "c < (64 :: byte) \<Longrightarrow> BASE64_ENCODE_TABLE ! unat c \<noteq> 0x3D"
proof -
  show e: "BASE64_ENCODE_TABLE ! 64 = 0x3D" by code_simp
  show "BASE64_ENCODE_TABLE ! unat c \<noteq> 0x3D" if "c < 64"
    using decode_encoded(1) [OF that] decode_encoded(2) that unfolding e by auto
qed

lemma base64_pads:
  assumes "inp \<noteq> []"
  shows "base64 inp ! (length (base64 inp) - 2) = 0x3D \<longleftrightarrow> length inp mod 3 = 1"
    and "base64 inp ! (length (base64 inp) - 1) = 0x3D \<longleftrightarrow> length inp mod 3 \<noteq> 0"
proof -
  obtain pre g where b: "base64 inp = pre @ map (\<lambda>c. BASE64_ENCODE_TABLE ! unat c) (encode_group g)"
    "0 < length g" "length g \<le> 3" "length inp mod 3 = length g mod 3" using base64_last [OF assms] by blast
  consider i where "g = [i]" | i j where "g = [i, j]" | i j k where "g = [i, j, k]"
    using b(2,3) by (cases g rule: encode_group.cases) auto
  then have "(base64 inp ! (length (base64 inp) - 2) = 0x3D \<longleftrightarrow> length inp mod 3 = 1)
      \<and> (base64 inp ! (length (base64 inp) - 1) = 0x3D \<longleftrightarrow> length inp mod 3 \<noteq> 0)"
  proof cases
    case (1 i)
    obtain c0 c1 where "encode_group [i] = [c0, c1, 64, 64]" by (rule encode_group1)
    with 1 b show ?thesis by (simp add: nth_append encode_char_end del: encode_group.simps)
  next
    case (2 i j)
    obtain c0 c1 c2 where "encode_group [i, j] = [c0, c1, c2, 64]" "c2 < 64" by (rule encode_group2)
    with 2 b show ?thesis by (simp add: nth_append encode_char_end del: encode_group.simps)
  next
    case (3 i j k)
    obtain c0 c1 c2 c3 where "encode_group [i, j, k] = [c0, c1, c2, c3]" "c2 < 64" "c3 < 64" by (rule encode_group3)
    with 3 b show ?thesis by (simp add: nth_append encode_char_end del: encode_group.simps)
  qed
  then show "base64 inp ! (length (base64 inp) - 2) = 0x3D \<longleftrightarrow> length inp mod 3 = 1"
    and "base64 inp ! (length (base64 inp) - 1) = 0x3D \<longleftrightarrow> length inp mod 3 \<noteq> 0" by simp_all
qed

lemma decodeLength_correct:
  assumes "length inp < 2 ^ 30"
  shows "Base64_decodeLength (Some (base64 inp)) (word_of_nat (length (base64 inp))) = Some (word_of_nat (length inp))"
proof (cases "inp = []")
  case False
  let ?q = "(length inp + 2) div 3" and ?n = "length (base64 inp)" and ?w = "word_of_nat (length (base64 inp)) :: 32 word"
  have n: "?n = 4 * ?q" "0 < ?q" "?n < 2 ^ 32" using assms False 
    by (simp add: length_base64, cases inp, simp_all add: length_base64)
  have w: "unat (word_of_nat m :: 32 word) = m" if "m < 2 ^ 32" for m
    using that by (simp add: unsigned_of_nat take_bit_eq_mod)
  have u: "unat ?w = ?n" using n(3) by (rule w)
  have "1 < ?w" "0 < ?w" using u n by (simp_all add: word_less_nat_alt)
  moreover have "?w div 4 * 3 = word_of_nat (3 * ?q)"
  proof -
    have "unat (?w div 4 * 3) = unat ?w div 4 * 3 mod 2 ^ 32"
      by (simp add: unat_word_ariths unat_div_distrib mod_mult_left_eq)
    also have "\<dots> = 3 * ?q" using n unfolding u by simp
    also have "\<dots> = unat (word_of_nat (3 * ?q) :: 32 word)" using n by (intro w [symmetric]) simp
    finally show ?thesis by (simp only: word_unat_eq_iff)
  qed
  moreover have "3 * ?q = length inp + (if length inp mod 3 = 1 then 1 else 0) + (if length inp mod 3 \<noteq> 0 then 1 else 0)"
    by presburger
  moreover have "base64 inp ! (?n - 2) = 0x3D \<longleftrightarrow> length inp mod 3 = 1"
    "base64 inp ! (?n - 1) = 0x3D \<longleftrightarrow> length inp mod 3 \<noteq> 0" by (rule base64_pads [OF False])+
  ultimately have "Base64_decodeLength (Some (base64 inp)) ?w = Some (word_of_nat (length inp +
      (if length inp mod 3 = 1 then 1 else 0) + (if length inp mod 3 \<noteq> 0 then 1 else 0)) -
      ((if length inp mod 3 = 1 then 1 else 0) + (if length inp mod 3 \<noteq> 0 then 1 else 0)))"
    unfolding Base64_decodeLength_def option.case u by (simp only: Let_def if_True simp_thms if_False order_refl not_less [symmetric] less_irrefl)
  then show ?thesis by simp
qed (simp add: Base64_decodeLength_def)

section \<open>The properties\<close>

text \<open>C25: What \<open>Base64_encode\<close> writes, \<open>Base64_decode\<close> turns back into the data, byte for byte, and the two
  length functions give exactly the numbers of bytes the two functions report; so buffers of these lengths
  suffice.\<close>

theorem Base64_roundtrip:
  assumes "length inp < 2 ^ 30" "4 * ((length inp + 2) div 3) \<le> elen" "elen \<le> length ebuf" "elen < 2 ^ 32"
    and "length inp \<le> dlen" "dlen \<le> length dbuf"
  shows "\<exists>n ebuf' dbuf'. Base64_encode ebuf elen inp = Some (n, ebuf')
     \<and> Base64_encodeLength (word_of_nat (length inp)) = word_of_nat n
     \<and> Base64_decodeLength (Some (take n ebuf')) (word_of_nat n) = Some (word_of_nat (length inp))
     \<and> Base64_decode dbuf dlen (take n ebuf') = Some (length inp, dbuf')
     \<and> take (length inp) dbuf' = inp"
proof -
  let ?n = "length (base64 inp)"
  have l: "?n \<le> elen" using assms(2) by (simp add: length_base64)
  have e: "encode_loop elen inp ebuf 0 0 = Some (base64 inp @ drop ?n ebuf, ?n, ?n)"
    using encode_loop_base64 [OF assms(3,4), of 0 inp] l by simp
  obtain ebuf' where E: "Base64_encode ebuf elen inp = Some (?n, ebuf')" "take ?n ebuf' = base64 inp"
    using l assms(3) by (cases "?n < elen") (simp_all add: Base64_encode_def e put_at_def)
  obtain b where d: "decode_loop dlen (base64 inp) dbuf 0 = Some (b, length inp)"
    "take (length inp) b = inp" "length b = length dbuf"
    using decode_loop_base64 [OF assms(6), of 0 inp] assms(5) by auto
  obtain dbuf' where D: "Base64_decode dbuf dlen (base64 inp) = Some (length inp, dbuf')" "take (length inp) dbuf' = inp"
    using d assms(5,6) by (cases "length inp < dlen") (simp_all add: Base64_decode_def put_at_def)
  have "Base64_encodeLength (word_of_nat (length inp)) = word_of_nat ?n"
    unfolding length_base64 by (rule encodeLength_correct [OF assms(1)])
  with E D decodeLength_correct [OF assms(1)] show ?thesis by metis
qed

lemma Base64_roundtrip_witness:
  "\<exists>n ebuf' dbuf'. Base64_encode (replicate 9 0) 9 [104, 101, 108, 108] = Some (n, ebuf')
     \<and> Base64_encodeLength (word_of_nat 4) = word_of_nat n
     \<and> Base64_decodeLength (Some (take n ebuf')) (word_of_nat n) = Some (word_of_nat 4)
     \<and> Base64_decode (replicate 4 0) 4 (take n ebuf') = Some (4, dbuf')
     \<and> take 4 dbuf' = [104, 101, 108, 108]"
proof -
  have p: "length [104 :: byte, 101, 108, 108] < 2 ^ 30" "4 * ((length [104 :: byte, 101, 108, 108] + 2) div 3) \<le> 9"
    "9 \<le> length (replicate 9 (0 :: byte))" "(9 :: nat) < 2 ^ 32"
    "length [104 :: byte, 101, 108, 108] \<le> 4" "4 \<le> length (replicate 4 (0 :: byte))" by simp_all
  show ?thesis using Base64_roundtrip [OF p] by (simp add: eval_nat_numeral)
qed

text \<open>C27: Neither function writes outside the \<open>out_len\<close> bytes of its buffer, whatever the input: the encoder
  always returns, with the length of the text if it fits, with \<open>out_len\<close> and a text cut off after a group if
  it does not fit and \<open>out_len\<close> is a multiple of four, and with 0 otherwise.  The decoder returns on every
  input of bytes below 128, with at most \<open>out_len\<close>.\<close>

theorem Base64_stays_inside:
  assumes "out_len \<le> length buf" "out_len + 4 < 2 ^ 32" "\<forall>b\<in>set txt. 0 \<le> sint b"
  shows "(\<exists>buf'. Base64_encode buf out_len inp =
        Some (let n = 4 * ((length inp + 2) div 3) in if n \<le> out_len then n else if 4 dvd out_len then out_len else 0, buf')
      \<and> length buf' = length buf \<and> drop out_len buf' = drop out_len buf)
    \<and> (\<exists>buf' n. Base64_decode buf out_len txt = Some (n, buf') \<and> n \<le> out_len
      \<and> length buf' = length buf \<and> drop out_len buf' = drop out_len buf)"
    (is "?E \<and> ?D")
proof (intro conjI)
  let ?n = "length (base64 inp)"
  have "\<exists>buf'. Base64_encode buf out_len inp = Some (if ?n \<le> out_len then ?n else if 4 dvd out_len then out_len else 0, buf')
      \<and> length buf' = length buf \<and> drop out_len buf' = drop out_len buf"
  proof (cases "?n \<le> out_len")
    case True
    have "encode_loop out_len inp buf 0 0 = Some (base64 inp @ drop ?n buf, ?n, ?n)"
      using encode_loop_base64 [OF assms(1), of 0 inp] True assms by simp
    with True assms(1) show ?thesis
      by (cases "?n < out_len") (simp_all add: Base64_encode_def put_at_def)
  next
    case False
    then obtain buf' out' n where "encode_loop out_len inp buf 0 0 = Some (buf', out', n)"
      "length buf' = length buf" "drop out_len buf' = drop out_len buf" "if 4 dvd out_len then n = out_len else out_len < n"
      using encode_loop_short [OF assms(1,2), of 0 inp] by auto
    with False show ?thesis by (cases "4 dvd out_len") (simp_all add: Base64_encode_def)
  qed
  then show ?E by (simp only: length_base64 Let_def)
  obtain b n where "decode_loop out_len txt buf 0 = Some (b, n)" "n \<le> out_len" "length b = length buf"
    "drop out_len b = drop out_len buf" using decode_loop_bounded [OF _ assms(1,3), of 0] by blast
  with assms(1) show ?D by (cases "n < out_len") (simp_all add: Base64_decode_def put_at_def)
qed

lemma Base64_stays_inside_witness:
  "(\<exists>buf'. Base64_encode (replicate 5 0) 4 (replicate 4 7) = Some (4, buf') \<and> length buf' = 5 \<and> drop 4 buf' = replicate 1 0)
   \<and> (\<exists>buf' n. Base64_decode (replicate 5 0) 4 (replicate 6 1) = Some (n, buf') \<and> n \<le> 4
      \<and> length buf' = 5 \<and> drop 4 buf' = replicate 1 0)"
  using Base64_stays_inside [of 4 "replicate 5 0" "replicate 6 1" "replicate 4 7"] by simp

end
