(* ===== verification/LinkedList.thy ===== *)
theory LinkedList
  imports Prelude
begin

text \<open>
  \<^verbatim>\<open>src/src/utils/LinkedList.c\<close>: the doubly linked list with a cursor (\<open>current\<close>) that every
  other module of the client stores its state in.  The first part follows the C code pointer by
  pointer over an explicit heap of list elements; every dereference of a null or dangling pointer
  and every endless loop is the value \<open>None\<close>.  The second part is the abstract list the other
  theories work with (the contents in order and the position of the cursor), and the third part
  proves that each operation of the code, on a well-formed list, runs to completion, keeps the
  list well formed and does what the abstract operation says.
\<close>

section \<open>The data structures\<close>

text \<open>\<open>struct ListElementStruct\<close> and \<open>List\<close> of \<^verbatim>\<open>LinkedList.h\<close>.  The heap holds the live list
  elements by address; \<open>freed\<close> records, latest last, the content pointers handed to \<open>free\<close>.\<close>

record ListElement =
  el_prev :: ptr
  el_next :: ptr
  el_content :: ptr

record CList =
  l_first :: ptr
  l_last :: ptr
  l_current :: ptr
  l_count :: int
  l_size :: nat

record lheap =
  elems :: "ptr \<Rightarrow> ListElement option"
  freed :: "ptr list"

definition get_el :: "lheap \<Rightarrow> ptr \<Rightarrow> ListElement option" where
  "get_el h p = (if p = NULL then None else elems h p)"

definition put_el :: "lheap \<Rightarrow> ptr \<Rightarrow> ListElement \<Rightarrow> lheap option" where
  "put_el h p e = (if p = NULL \<or> elems h p = None then None
     else Some (h\<lparr>elems := (elems h)(p := Some e)\<rparr>))"

definition free_el :: "lheap \<Rightarrow> ptr \<Rightarrow> lheap option" where
  "free_el h p = (if p = NULL then Some h else if elems h p = None then None
     else Some (h\<lparr>elems := (elems h)(p := None)\<rparr>))"

definition free_content :: "lheap \<Rightarrow> ptr \<Rightarrow> lheap" where
  "free_content h c = (if c = NULL then h else h\<lparr>freed := freed h @ [c]\<rparr>)"

text \<open>\<open>malloc(sizeof(ListElement))\<close> answered with the address \<open>p\<close>: the new element's fields are all
  assigned before they are read.\<close>

definition malloc_el :: "lheap \<Rightarrow> ptr \<Rightarrow> lheap" where
  "malloc_el h p = h\<lparr>elems := (elems h)(p := Some \<lparr>el_prev = NULL, el_next = NULL, el_content = NULL\<rparr>)\<rparr>"

section \<open>The operations of LinkedList.c\<close>

definition ListZero :: CList where
  "ListZero = \<lparr>l_first = NULL, l_last = NULL, l_current = NULL, l_count = 0, l_size = 0\<rparr>"

definition ListInitialize :: "bool \<Rightarrow> CList option" where
  "ListInitialize malloc_ok = (if malloc_ok then Some ListZero else None)"

definition ListAppendNoMalloc ::
  "lheap \<Rightarrow> CList \<Rightarrow> ptr \<Rightarrow> ptr \<Rightarrow> nat \<Rightarrow> (lheap \<times> CList) option" where
  "ListAppendNoMalloc h L content newel sz = do {
     e \<leftarrow> get_el h newel;
     h \<leftarrow> put_el h newel (e\<lparr>el_content := content, el_next := NULL, el_prev := l_last L\<rparr>);
     (h, L) \<leftarrow>
       (if l_first L = NULL then Some (h, L\<lparr>l_first := newel\<rparr>)
        else do {
          last \<leftarrow> get_el h (l_last L);
          h \<leftarrow> put_el h (l_last L) (last\<lparr>el_next := newel\<rparr>);
          Some (h, L)
        });
     Some (h, L\<lparr>l_last := newel, l_count := l_count L + 1, l_size := l_size L + sz\<rparr>)
   }"

definition ListAppend ::
  "ptr \<Rightarrow> lheap \<Rightarrow> CList \<Rightarrow> ptr \<Rightarrow> nat \<Rightarrow> (ptr \<times> lheap \<times> CList) option" where
  "ListAppend newel h L content sz =
     (if newel = NULL then Some (NULL, h, L)
      else do {
        (h, L) \<leftarrow> ListAppendNoMalloc (malloc_el h newel) L content newel sz;
        Some (newel, h, L)
      })"

definition ListInsert ::
  "ptr \<Rightarrow> lheap \<Rightarrow> CList \<Rightarrow> ptr \<Rightarrow> nat \<Rightarrow> ptr \<Rightarrow> (ptr \<times> lheap \<times> CList) option" where
  "ListInsert newel h L content sz index =
     (if newel = NULL then Some (NULL, h, L)
      else if index = NULL then do {
        (h, L) \<leftarrow> ListAppendNoMalloc (malloc_el h newel) L content newel sz;
        Some (newel, h, L)
      }
      else do {
        let h = malloc_el h newel;
        idx \<leftarrow> get_el h index;
        h \<leftarrow> put_el h newel \<lparr>el_prev = el_prev idx, el_next = index, el_content = content\<rparr>;
        idx \<leftarrow> get_el h index;
        h \<leftarrow> put_el h index (idx\<lparr>el_prev := newel\<rparr>);
        new \<leftarrow> get_el h newel;
        (h, L) \<leftarrow>
          (if el_prev new \<noteq> NULL then do {
             p \<leftarrow> get_el h (el_prev new);
             h \<leftarrow> put_el h (el_prev new) (p\<lparr>el_next := newel\<rparr>);
             Some (h, L)
           }
           else Some (h, L\<lparr>l_first := newel\<rparr>));
        Some (newel, h, L\<lparr>l_count := l_count L + 1, l_size := l_size L + sz\<rparr>)
      })"

text \<open>\<open>ListNextElement\<close> and \<open>ListPrevElement\<close> update \<open>*pos\<close> to the value they return.\<close>

definition ListNextElement :: "lheap \<Rightarrow> CList \<Rightarrow> ptr \<Rightarrow> ptr option" where
  "ListNextElement h L pos =
     (if pos = NULL then Some (l_first L) else do { e \<leftarrow> get_el h pos; Some (el_next e) })"

definition ListPrevElement :: "lheap \<Rightarrow> CList \<Rightarrow> ptr \<Rightarrow> ptr option" where
  "ListPrevElement h L pos =
     (if pos = NULL then Some (l_last L) else do { e \<leftarrow> get_el h pos; Some (el_prev e) })"

text \<open>The comparison of one element: by the content pointer when there is no callback.  A callback
  closes over the memory the content pointers lead to.\<close>

type_synonym callback = "ptr \<Rightarrow> ptr \<Rightarrow> bool"

definition matches :: "callback option \<Rightarrow> ptr \<Rightarrow> ptr \<Rightarrow> bool" where
  "matches cb content c = (case cb of None \<Rightarrow> c = content | Some f \<Rightarrow> f c content)"

text \<open>The \<open>while\<close> loop of \<open>ListFindItem\<close>, from the position \<open>pos\<close>.\<close>

partial_function (option) ListFindItem_loop ::
  "lheap \<Rightarrow> CList \<Rightarrow> ptr \<Rightarrow> callback option \<Rightarrow> ptr \<Rightarrow> ptr option" where
  "ListFindItem_loop h L content cb pos = do {
     current \<leftarrow> ListNextElement h L pos;
     if current = NULL then Some NULL
     else do {
       e \<leftarrow> get_el h current;
       if matches cb content (el_content e) then Some current
       else ListFindItem_loop h L content cb current
     }
   }"

definition ListFindItem ::
  "lheap \<Rightarrow> CList \<Rightarrow> ptr \<Rightarrow> callback option \<Rightarrow> (ptr \<times> CList) option" where
  "ListFindItem h L content cb = do {
     here \<leftarrow> (if l_current L \<noteq> NULL
             then do { e \<leftarrow> get_el h (l_current L); Some (matches cb content (el_content e)) }
             else Some False);
     if here then Some (l_current L, L)
     else do {
       rc \<leftarrow> ListFindItem_loop h L content cb NULL;
       Some (rc, if rc \<noteq> NULL then L\<lparr>l_current := rc\<rparr> else L)
     }
   }"

definition ListFind :: "lheap \<Rightarrow> CList \<Rightarrow> ptr \<Rightarrow> (ptr \<times> CList) option" where
  "ListFind h L content = ListFindItem h L content None"

text \<open>\<open>ListUnlink\<close>: every read of \<open>aList->current\<close> in the C code is a read here.  The element is
  found first, which moves the cursor to it; the cursor is put back unless it was on the element.\<close>

definition ListUnlink ::
  "lheap \<Rightarrow> CList \<Rightarrow> ptr \<Rightarrow> callback option \<Rightarrow> bool \<Rightarrow> (int \<times> lheap \<times> CList) option" where
  "ListUnlink h L content cb freeContent = do {
     let saved = l_current L;
     (found, L) \<leftarrow> ListFindItem h L content cb;
     if found = NULL then Some (0, h, L)
     else do {
       cur \<leftarrow> get_el h (l_current L);
       (h, L) \<leftarrow>
         (if el_prev cur = NULL then Some (h, L\<lparr>l_first := el_next cur\<rparr>)
          else do {
            p \<leftarrow> get_el h (el_prev cur);
            h \<leftarrow> put_el h (el_prev cur) (p\<lparr>el_next := el_next cur\<rparr>);
            Some (h, L)
          });
       cur \<leftarrow> get_el h (l_current L);
       (h, L) \<leftarrow>
         (if el_next cur = NULL then Some (h, L\<lparr>l_last := el_prev cur\<rparr>)
          else do {
            n \<leftarrow> get_el h (el_next cur);
            h \<leftarrow> put_el h (el_next cur) (n\<lparr>el_prev := el_prev cur\<rparr>);
            Some (h, L)
          });
       cur \<leftarrow> get_el h (l_current L);
       let next = el_next cur;
       h \<leftarrow> (if freeContent
            then put_el (free_content h (el_content cur)) (l_current L) (cur\<lparr>el_content := NULL\<rparr>)
            else Some h);
       let saveddeleted = (saved = l_current L);
       h \<leftarrow> free_el h (l_current L);
       Some (1, h, L\<lparr>l_current := (if saveddeleted then next else saved),
                     l_count := l_count L - 1\<rparr>)
     }
   }"

definition ListDetach :: "lheap \<Rightarrow> CList \<Rightarrow> ptr \<Rightarrow> (int \<times> lheap \<times> CList) option" where
  "ListDetach h L content = ListUnlink h L content None False"

definition ListRemove :: "lheap \<Rightarrow> CList \<Rightarrow> ptr \<Rightarrow> (int \<times> lheap \<times> CList) option" where
  "ListRemove h L content = ListUnlink h L content None True"

definition ListDetachItem ::
  "lheap \<Rightarrow> CList \<Rightarrow> ptr \<Rightarrow> callback option \<Rightarrow> (int \<times> lheap \<times> CList) option" where
  "ListDetachItem h L content cb = ListUnlink h L content cb False"

definition ListRemoveItem ::
  "lheap \<Rightarrow> CList \<Rightarrow> ptr \<Rightarrow> callback option \<Rightarrow> (int \<times> lheap \<times> CList) option" where
  "ListRemoveItem h L content cb = ListUnlink h L content cb True"

definition ListDetachHead :: "lheap \<Rightarrow> CList \<Rightarrow> (ptr \<times> lheap \<times> CList) option" where
  "ListDetachHead h L =
     (if l_count L > 0 then do {
        let first = l_first L;
        f \<leftarrow> get_el h first;
        let L = (if l_current L = first then L\<lparr>l_current := el_next f\<rparr> else L);
        let L = (if l_last L = first then L\<lparr>l_last := NULL\<rparr> else L);
        let L = L\<lparr>l_first := el_next f\<rparr>;
        h \<leftarrow> (if l_first L \<noteq> NULL then do {
               n \<leftarrow> get_el h (l_first L);
               put_el h (l_first L) (n\<lparr>el_prev := NULL\<rparr>)
             }
             else Some h);
        h \<leftarrow> free_el h first;
        Some (el_content f, h, L\<lparr>l_count := l_count L - 1\<rparr>)
      }
      else Some (NULL, h, L))"

definition ListRemoveHead :: "lheap \<Rightarrow> CList \<Rightarrow> (int \<times> lheap \<times> CList) option" where
  "ListRemoveHead h L = do {
     (c, h, L) \<leftarrow> ListDetachHead h L;
     Some (0, free_content h c, L)
   }"

definition ListPopTail :: "lheap \<Rightarrow> CList \<Rightarrow> (ptr \<times> lheap \<times> CList) option" where
  "ListPopTail h L =
     (if l_count L > 0 then do {
        let last = l_last L;
        e \<leftarrow> get_el h last;
        let L = (if l_current L = last then L\<lparr>l_current := el_prev e\<rparr> else L);
        let L = (if l_first L = last then L\<lparr>l_first := NULL\<rparr> else L);
        let L = L\<lparr>l_last := el_prev e\<rparr>;
        h \<leftarrow> (if l_last L \<noteq> NULL then do {
               n \<leftarrow> get_el h (l_last L);
               put_el h (l_last L) (n\<lparr>el_next := NULL\<rparr>)
             }
             else Some h);
        h \<leftarrow> free_el h last;
        Some (el_content e, h, L\<lparr>l_count := l_count L - 1\<rparr>)
      }
      else Some (NULL, h, L))"

text \<open>The loops of \<open>ListEmpty\<close> and \<open>ListFreeNoContent\<close>, which differ in whether the contents are
  freed too.\<close>

partial_function (option) ListEmpty_loop :: "bool \<Rightarrow> lheap \<Rightarrow> CList \<Rightarrow> (lheap \<times> CList) option" where
  "ListEmpty_loop freeContent h L =
     (if l_first L = NULL then Some (h, L)
      else do {
        let first = l_first L;
        e \<leftarrow> get_el h first;
        let h = (if freeContent then free_content h (el_content e) else h);
        let L = L\<lparr>l_first := el_next e\<rparr>;
        h \<leftarrow> free_el h first;
        ListEmpty_loop freeContent h L
      })"

definition ListEmpty :: "lheap \<Rightarrow> CList \<Rightarrow> (lheap \<times> CList) option" where
  "ListEmpty h L = do {
     (h, L) \<leftarrow> ListEmpty_loop True h L;
     Some (h, L\<lparr>l_count := 0, l_size := 0, l_current := NULL, l_first := NULL, l_last := NULL\<rparr>)
   }"

text \<open>\<open>ListFree\<close> and \<open>ListFreeNoContent\<close> free the list structure itself at the end: what is left is
  the heap.\<close>

definition ListFree :: "lheap \<Rightarrow> CList \<Rightarrow> lheap option" where
  "ListFree h L = do { (h, L) \<leftarrow> ListEmpty h L; Some h }"

definition ListFreeNoContent :: "lheap \<Rightarrow> CList \<Rightarrow> lheap option" where
  "ListFreeNoContent h L = do { (h, L) \<leftarrow> ListEmpty_loop False h L; Some h }"

text \<open>The two callbacks of the module: the memory they compare is \<open>ints\<close> and \<open>strings\<close>.\<close>

definition intcompare :: "(ptr \<Rightarrow> int) \<Rightarrow> callback" where
  "intcompare ints a b = (ints a = ints b)"

definition stringcompare :: "(ptr \<Rightarrow> string) \<Rightarrow> callback" where
  "stringcompare strings a b = (strings a = strings b)"

section \<open>The abstract list\<close>

text \<open>What the rest of the client relies on: the contents in order and the position of the
  cursor.  A position stands for a pointer to the element there.\<close>

record 'c alist =
  items :: "'c list"
  cursor :: "nat option"

definition empty_alist :: "'c alist" where
  "empty_alist = \<lparr>items = [], cursor = None\<rparr>"

definition alist_ok :: "'c alist \<Rightarrow> bool" where
  "alist_ok l = (case cursor l of None \<Rightarrow> True | Some i \<Rightarrow> i < length (items l))"

definition a_append :: "'c \<Rightarrow> 'c alist \<Rightarrow> 'c alist" where
  [list_ops]: "a_append c l = l\<lparr>items := items l @ [c]\<rparr>"

definition a_insert :: "nat \<Rightarrow> 'c \<Rightarrow> 'c alist \<Rightarrow> 'c alist" where
  "a_insert i c l =
     \<lparr>items = take i (items l) @ c # drop i (items l),
      cursor = map_option (\<lambda>j. if j < i then j else Suc j) (cursor l)\<rparr>"

definition a_find :: "('c \<Rightarrow> bool) \<Rightarrow> 'c alist \<Rightarrow> nat option \<times> 'c alist" where
  "a_find P l =
     (if (case cursor l of None \<Rightarrow> False | Some i \<Rightarrow> P (items l ! i)) then (cursor l, l)
      else (case find_index P (items l) of
              None \<Rightarrow> (None, l)
            | Some j \<Rightarrow> (Some j, l\<lparr>cursor := Some j\<rparr>)))"

text \<open>The cursor after the element at \<open>j\<close> has gone: on its successor if it was on \<open>j\<close>, else on
  the element it was on.\<close>

definition cursor_after_removal :: "nat \<Rightarrow> nat \<Rightarrow> nat option \<Rightarrow> nat option" where
  "cursor_after_removal n j c =
     (case c of None \<Rightarrow> None
      | Some k \<Rightarrow> if k = j then (if Suc j < n then Some j else None)
                else if k < j then Some k else Some (k - 1))"

definition a_unlink :: "('c \<Rightarrow> bool) \<Rightarrow> 'c alist \<Rightarrow> 'c option \<times> 'c alist" where
  "a_unlink P l =
     (case fst (a_find P l) of
        None \<Rightarrow> (None, l)
      | Some j \<Rightarrow>
          (Some (items l ! j),
           \<lparr>items = remove_nth j (items l),
            cursor = cursor_after_removal (length (items l)) j (cursor l)\<rparr>))"

definition a_detach_head :: "'c alist \<Rightarrow> 'c option \<times> 'c alist" where
  "a_detach_head l =
     (case items l of
        [] \<Rightarrow> (None, l)
      | c # cs \<Rightarrow> (Some c, \<lparr>items = cs, cursor = cursor_after_removal (length (items l)) 0 (cursor l)\<rparr>))"

definition a_pop_tail :: "'c alist \<Rightarrow> 'c option \<times> 'c alist" where
  "a_pop_tail l =
     (if items l = [] then (None, l)
      else (Some (last (items l)),
            \<lparr>items = butlast (items l),
             cursor = (if cursor l = Some (length (items l) - 1)
                       then (if length (items l) = 1 then None else Some (length (items l) - 2))
                       else cursor l)\<rparr>))"

section \<open>Well-formed lists and their abstraction\<close>

type_synonym elmap = "ptr \<Rightarrow> ListElement option"

text \<open>\<open>seg m p as n\<close>: the addresses \<open>as\<close> are linked in this order in both directions, the first one's
  predecessor is \<open>p\<close> and the last one's successor is \<open>n\<close>.\<close>

fun seg :: "elmap \<Rightarrow> ptr \<Rightarrow> ptr list \<Rightarrow> ptr \<Rightarrow> bool" where
  "seg m p [] n = True"
| "seg m p (a # as) n =
     (case m a of None \<Rightarrow> False
      | Some e \<Rightarrow> el_prev e = p \<and> el_next e = hd0 n as \<and> seg m a as n)"

definition contents :: "elmap \<Rightarrow> ptr list \<Rightarrow> ptr list" where
  "contents m as = map (\<lambda>a. el_content (the (m a))) as"

definition represents :: "lheap \<Rightarrow> CList \<Rightarrow> ptr list \<Rightarrow> ptr alist \<Rightarrow> bool" where
  "represents h L as l \<longleftrightarrow>
     distinct as \<and> NULL \<notin> set as \<and> seg (elems h) NULL as NULL \<and>
     l_first L = hd0 NULL as \<and> l_last L = last0 NULL as \<and> l_count L = int (length as) \<and>
     items l = contents (elems h) as \<and>
     (case cursor l of None \<Rightarrow> l_current L = NULL
      | Some i \<Rightarrow> i < length as \<and> l_current L = as ! i)"

text \<open>Two heaps agree on every element outside \<open>A\<close>: an operation on one list leaves every other
  list in the heap alone.\<close>

definition agree_outside :: "ptr set \<Rightarrow> lheap \<Rightarrow> lheap \<Rightarrow> bool" where
  "agree_outside A h h' \<longleftrightarrow> (\<forall>a. a \<notin> A \<longrightarrow> elems h' a = elems h a)"

subsection \<open>Segments\<close>

lemma seg_append: "seg m p (xs @ ys) n \<longleftrightarrow> seg m p xs (hd0 n ys) \<and> seg m (last0 p xs) ys n"
  by (induction xs arbitrary: p) (auto split: option.splits)

lemma seg_upd_other [simp]: "a \<notin> set as \<Longrightarrow> seg (m(a := x)) p as n = seg m p as n"
  by (induction as arbitrary: p) (auto split: option.splits)

lemma seg_allocated: "seg m p as n \<Longrightarrow> a \<in> set as \<Longrightarrow> \<exists>e. m a = Some e"
  by (induction as arbitrary: p) (auto split: option.splits)

lemma contents_Nil [simp]: "contents m [] = []"
  and contents_Cons [simp]: "contents m (a # as) = el_content (the (m a)) # contents m as"
  and contents_append [simp]: "contents m (as @ bs) = contents m as @ contents m bs"
  and length_contents [simp]: "length (contents m as) = length as"
  by (simp_all add: contents_def)

lemma contents_upd_other [simp]: "a \<notin> set as \<Longrightarrow> contents (m(a := x)) as = contents m as"
  by (auto simp: contents_def)

definition set_next :: "elmap \<Rightarrow> ptr \<Rightarrow> ptr \<Rightarrow> elmap" where
  "set_next m a n = (if a = NULL then m
     else case m a of None \<Rightarrow> m | Some e \<Rightarrow> m(a := Some (e\<lparr>el_next := n\<rparr>)))"

definition set_prev :: "elmap \<Rightarrow> ptr \<Rightarrow> ptr \<Rightarrow> elmap" where
  "set_prev m a p = (if a = NULL then m
     else case m a of None \<Rightarrow> m | Some e \<Rightarrow> m(a := Some (e\<lparr>el_prev := p\<rparr>)))"

lemma set_next_other [simp]: "b \<noteq> a \<Longrightarrow> set_next m a n b = m b"
  and set_prev_other [simp]: "b \<noteq> a \<Longrightarrow> set_prev m a p b = m b"
  by (auto simp: set_next_def set_prev_def split: option.split)

lemma seg_set_next_other [simp]: "a \<notin> set as \<Longrightarrow> seg (set_next m a q) p as n = seg m p as n"
  and seg_set_prev_other [simp]: "a \<notin> set as \<Longrightarrow> seg (set_prev m a q) p as n = seg m p as n"
  by (auto simp: set_next_def set_prev_def split: option.split)

lemma content_set_next [simp]: "el_content (the (set_next m a n b)) = el_content (the (m b))"
  and content_set_prev [simp]: "el_content (the (set_prev m a n b)) = el_content (the (m b))"
  by (auto simp: set_next_def set_prev_def split: option.split)

lemma contents_set_next [simp]: "contents (set_next m a n) as = contents m as"
  and contents_set_prev [simp]: "contents (set_prev m a n) as = contents m as"
  by (simp_all add: contents_def)

lemma seg_set_next_last:
  assumes "seg m p as n" "distinct as" "NULL \<notin> set as"
  shows "seg (set_next m (last0 q as) n') p as n'"
proof (cases as rule: rev_cases)
  case (snoc xs a)
  with assms show ?thesis
    by (auto simp: seg_append set_next_def split: option.splits)
qed simp

lemma seg_set_prev_first:
  assumes "seg m p as n" "distinct as" "NULL \<notin> set as"
  shows "seg (set_prev m (hd0 q as) p') p' as n"
  using assms by (cases as) (auto simp: set_prev_def split: option.splits)

lemma set_next_domain: "set_next m a n b = None \<longleftrightarrow> m b = None"
  and set_prev_domain: "set_prev m a n b = None \<longleftrightarrow> m b = None"
  by (auto simp: set_next_def set_prev_def split: option.split)

text \<open>The two pointer updates that every operation is made of, run by the code.\<close>

lemma run_set_next:
  assumes "p = NULL \<or> elems h p \<noteq> None"
  shows "(if p = NULL then Some (h, L')
          else do { e \<leftarrow> get_el h p; h \<leftarrow> put_el h p (e\<lparr>el_next := n\<rparr>); Some (h, L) })
         = Some (h\<lparr>elems := set_next (elems h) p n\<rparr>, if p = NULL then L' else L)"
  using assms by (auto simp: get_el_def put_el_def set_next_def)

lemma run_set_prev:
  assumes "p = NULL \<or> elems h p \<noteq> None"
  shows "(if p = NULL then Some (h, L')
          else do { e \<leftarrow> get_el h p; h \<leftarrow> put_el h p (e\<lparr>el_prev := n\<rparr>); Some (h, L) })
         = Some (h\<lparr>elems := set_prev (elems h) p n\<rparr>, if p = NULL then L' else L)"
  using assms by (auto simp: get_el_def put_el_def set_prev_def)

subsection \<open>Consequences of being represented\<close>

lemma representsD:
  assumes "represents h L as l"
  shows "distinct as" "NULL \<notin> set as" "seg (elems h) NULL as NULL"
    "l_first L = hd0 NULL as" "l_last L = last0 NULL as" "l_count L = int (length as)"
    "items l = contents (elems h) as"
    "cursor l = None \<Longrightarrow> l_current L = NULL"
    "cursor l = Some i \<Longrightarrow> i < length as \<and> l_current L = as ! i"
  using assms by (auto simp: represents_def)

lemma represents_alist_ok: "represents h L as l \<Longrightarrow> alist_ok l"
  by (auto simp: represents_def alist_ok_def split: option.splits)

lemma represents_allocated: "represents h L as l \<Longrightarrow> a \<in> set as \<Longrightarrow> \<exists>e. elems h a = Some e"
  by (auto simp: represents_def dest: seg_allocated)

lemma represents_elem:
  assumes "represents h L (xs @ a # ys) l"
  obtains e where "elems h a = Some e" "el_prev e = last0 NULL xs" "el_next e = hd0 NULL ys" "a \<noteq> NULL"
  using assms by (auto simp: represents_def seg_append split: option.splits)

subsection \<open>Append and insert\<close>

lemma ListAppendNoMalloc_refines:
  assumes rep: "represents h L as l" and new: "newel \<notin> set as" "newel \<noteq> NULL" "elems h newel \<noteq> None"
  shows "\<exists>h' L'. ListAppendNoMalloc h L content newel sz = Some (h', L') \<and>
     represents h' L' (as @ [newel]) (a_append content l) \<and> l_size L' = l_size L + sz \<and>
     freed h' = freed h \<and> agree_outside (insert newel (set as)) h h'"
proof -
  note D = representsD [OF rep]
  obtain e where e: "elems h newel = Some e" using new(3) by auto
  define h1 where "h1 = h\<lparr>elems := (elems h)(newel := Some (e\<lparr>el_content := content, el_next := NULL, el_prev := l_last L\<rparr>))\<rparr>"
  define h2 where "h2 = h1\<lparr>elems := set_next (elems h1) (l_last L) newel\<rparr>"
  have last_ok: "l_last L = NULL \<or> elems h1 (l_last L) \<noteq> None"
    using last0_in [of NULL as] represents_allocated [OF rep] D(5) by (auto simp: h1_def)
  have empty: "l_first L = NULL \<longleftrightarrow> l_last L = NULL"
    using D by simp
  have run: "ListAppendNoMalloc h L content newel sz = Some (h2, L\<lparr>l_first := hd0 newel as,
      l_last := newel, l_count := l_count L + 1, l_size := l_size L + sz\<rparr>)"
  proof -
    have "(if l_first L = NULL then Some (h1, L\<lparr>l_first := newel\<rparr>)
        else do { e \<leftarrow> get_el h1 (l_last L); h \<leftarrow> put_el h1 (l_last L) (e\<lparr>el_next := newel\<rparr>); Some (h, L) })
      = Some (h2, L\<lparr>l_first := hd0 newel as\<rparr>)"
      unfolding empty run_set_next [OF last_ok] using D(2,4,5) by (cases "as = []") (auto simp: h2_def hd0_def split: list.split)
    moreover have "put_el h newel (e\<lparr>el_content := content, el_next := NULL, el_prev := l_last L\<rparr>) = Some h1"
      using e new(2) by (simp add: put_el_def h1_def)
    ultimately show ?thesis
      using e new(2) by (simp add: ListAppendNoMalloc_def get_el_def)
  qed
  have ne: "newel \<noteq> last0 NULL as"
    using last0_in [of NULL as] new(1,2) by metis
  have seg: "seg (elems h2) NULL (as @ [newel]) NULL"
    unfolding seg_append using D(1-5) new(1) ne seg_set_next_last [of "elems h1" NULL as NULL NULL newel]
    by (simp add: h2_def h1_def)
  have "contents (elems h2) (as @ [newel]) = contents (elems h) as @ [content]"
    using new(1) by (simp add: h2_def h1_def)
  with seg D new(1,2) have "represents h2 (L\<lparr>l_first := hd0 newel as,
      l_last := newel, l_count := l_count L + 1, l_size := l_size L + sz\<rparr>) (as @ [newel]) (a_append content l)"
    by (auto simp: represents_def a_append_def nth_append split: option.splits)
  moreover have "agree_outside (insert newel (set as)) h h2"
    using last0_in [of NULL as] D(5) by (auto simp: agree_outside_def h2_def h1_def set_next_def split: option.split)
  ultimately show ?thesis
    using run by (auto simp: h2_def h1_def)
qed

text \<open>A freshly allocated element lies outside every list in the heap.\<close>

lemma represents_malloc_el [simp]:
  assumes "newel \<notin> set as"
  shows "represents (malloc_el h newel) L as l = represents h L as l"
  using assms by (simp add: represents_def malloc_el_def)

lemma malloc_el_simps [simp]:
  "elems (malloc_el h p) p \<noteq> None" "freed (malloc_el h p) = freed h"
  "a \<noteq> p \<Longrightarrow> elems (malloc_el h p) a = elems h a"
  by (simp_all add: malloc_el_def)

text \<open>\<open>ListInsert\<close> before an element of the list.\<close>

lemma ListInsert_before_refines:
  assumes rep: "represents h L (xs @ a # ys) l" and new: "newel \<notin> set (xs @ a # ys)" "newel \<noteq> NULL"
  shows "\<exists>h' L'. ListInsert newel h L content sz a = Some (newel, h', L') \<and>
     represents h' L' (xs @ newel # a # ys) (a_insert (length xs) content l) \<and>
     l_size L' = l_size L + sz \<and> freed h' = freed h \<and>
     agree_outside (insert newel (set (xs @ a # ys))) h h'"
proof -
  note D = representsD [OF rep]
  obtain e where e: "elems h a = Some e" "el_prev e = last0 NULL xs" "el_next e = hd0 NULL ys" "a \<noteq> NULL"
    using represents_elem [OF rep] .
  let ?p = "last0 NULL xs"
  define h1 where "h1 = h\<lparr>elems := (elems h)(newel := Some \<lparr>el_prev = ?p, el_next = a, el_content = content\<rparr>)\<rparr>"
  define h2 where "h2 = h1\<lparr>elems := set_prev (elems h1) a newel\<rparr>"
  define h3 where "h3 = h2\<lparr>elems := set_next (elems h2) ?p newel\<rparr>"
  have ne: "newel \<noteq> a" "newel \<noteq> ?p" "?p = NULL \<longleftrightarrow> xs = []" "?p \<noteq> a" "?p \<notin> set ys"
    using last0_in [of NULL xs] new D(1,2) by auto
  have p_ok: "?p = NULL \<or> elems h2 ?p \<noteq> None"
    using last0_in [of NULL xs] represents_allocated [OF rep, of ?p]
    by (auto simp: h2_def h1_def set_prev_domain)
  have run: "ListInsert newel h L content sz a = Some (newel, h3,
      L\<lparr>l_first := hd0 newel xs, l_count := l_count L + 1, l_size := l_size L + sz\<rparr>)"
  proof -
    have "(if ?p \<noteq> NULL then do { e \<leftarrow> get_el h2 ?p; h \<leftarrow> put_el h2 ?p (e\<lparr>el_next := newel\<rparr>); Some (h, L) }
           else Some (h2, L\<lparr>l_first := newel\<rparr>)) = Some (h3, L\<lparr>l_first := hd0 newel xs\<rparr>)"
      using run_set_next [OF p_ok, of "L\<lparr>l_first := newel\<rparr>" newel L] ne(3) D(4)
      by (auto simp: h3_def hd0_def split: list.split_asm list.split)
    moreover have "get_el (malloc_el h newel) a = Some e" "get_el h1 a = Some e"
      "put_el (malloc_el h newel) newel \<lparr>el_prev = el_prev e, el_next = a, el_content = content\<rparr> = Some h1"
      "put_el h1 a (e\<lparr>el_prev := newel\<rparr>) = Some h2"
      "get_el h2 newel = Some \<lparr>el_prev = ?p, el_next = a, el_content = content\<rparr>"
      using e new(2) ne(1) by (simp_all add: get_el_def put_el_def malloc_el_def h1_def h2_def set_prev_def)
    ultimately show ?thesis
      using e(4) new(2) by (auto simp: ListInsert_def Let_def split: if_splits Option.bind_splits)
  qed
  have seg: "seg (elems h3) NULL (xs @ newel # a # ys) NULL"
    using D(1-3) new ne e seg_set_next_last [of "elems h2" NULL xs a NULL newel]
    by (auto simp: seg_append h3_def h2_def h1_def set_prev_def)
  have cont: "contents (elems h3) (xs @ newel # a # ys) = contents (elems h) xs @ content # contents (elems h) (a # ys)"
    using new(1) ne by (simp add: h3_def h2_def h1_def)
  have "represents h3 (L\<lparr>l_first := hd0 newel xs, l_count := l_count L + 1, l_size := l_size L + sz\<rparr>)
      (xs @ newel # a # ys) (a_insert (length xs) content l)"
    using seg cont D new(1) new(2)
    by (auto simp: represents_def a_insert_def nth_append nth_Cons' split: option.splits)
  moreover have "agree_outside (insert newel (set (xs @ a # ys))) h h3"
    using last0_in [of NULL xs]
    by (auto simp: agree_outside_def h3_def h2_def h1_def set_next_def set_prev_def split: option.split)
  ultimately show ?thesis
    using run by (auto simp: h3_def h2_def h1_def)
qed

subsection \<open>Search\<close>

lemma ListFindItem_loop_finds:
  assumes "seg (elems h) NULL (xs @ ys) NULL" "NULL \<notin> set (xs @ ys)" "l_first L = hd0 NULL (xs @ ys)"
  shows "ListFindItem_loop h L content cb (last0 NULL xs) =
     Some (case find_index (matches cb content) (contents (elems h) ys) of None \<Rightarrow> NULL | Some j \<Rightarrow> ys ! j)"
  using assms
proof (induction ys arbitrary: xs)
  case Nil
  then have "ListNextElement h L (last0 NULL xs) = Some NULL"
    by (cases xs rule: rev_cases) (auto simp: ListNextElement_def get_el_def seg_append split: option.splits)
  then show ?case by (simp add: ListFindItem_loop.simps)
next
  case (Cons y ys)
  have nxt: "ListNextElement h L (last0 NULL xs) = Some y"
    using Cons.prems
    by (cases xs rule: rev_cases) (auto simp: ListNextElement_def get_el_def seg_append split: option.splits)
  obtain e where e: "elems h y = Some e"
    using Cons.prems(1) by (auto simp: seg_append split: option.splits)
  have IH: "ListFindItem_loop h L content cb y =
      Some (case find_index (matches cb content) (contents (elems h) ys) of None \<Rightarrow> NULL | Some j \<Rightarrow> ys ! j)"
    using Cons.IH [of "xs @ [y]"] Cons.prems by simp
  show ?case
    using nxt e IH Cons.prems(2)
    by (subst ListFindItem_loop.simps) (auto simp: get_el_def split: option.splits)
qed

text \<open>\<open>ListFindItem\<close> answers with the element the abstract search finds, \<open>NULL\<close> when it finds none,
  and only moves the cursor.\<close>

lemma ListFindItem_refines:
  assumes rep: "represents h L as l"
  shows "\<exists>p. ListFindItem h L content cb =
       Some (case fst (a_find (matches cb content) l) of None \<Rightarrow> NULL | Some j \<Rightarrow> as ! j, L\<lparr>l_current := p\<rparr>) \<and>
     represents h (L\<lparr>l_current := p\<rparr>) as (snd (a_find (matches cb content) l))"
proof -
  note D = representsD [OF rep]
  let ?P = "matches cb content"
  have loop: "ListFindItem_loop h L content cb NULL =
      Some (case find_index ?P (items l) of None \<Rightarrow> NULL | Some j \<Rightarrow> as ! j)"
    using ListFindItem_loop_finds [of h "[]" as L content cb] D(2,3,4,7) by simp
  have nz: "j < length as \<Longrightarrow> as ! j \<noteq> NULL" for j
    using D(2) nth_mem [of j as] by metis
  have here: "(if l_current L \<noteq> NULL then do { e \<leftarrow> get_el h (l_current L); Some (?P (el_content e)) } else Some False)
      = Some (case cursor l of None \<Rightarrow> False | Some i \<Rightarrow> ?P (items l ! i))"
  proof (cases "cursor l")
    case None
    then show ?thesis using D(8) by simp
  next
    case (Some i)
    then have i: "i < length as" "l_current L = as ! i" using D(9) by auto
    then obtain e where "elems h (as ! i) = Some e"
      using represents_allocated [OF rep] nth_mem by blast
    with i Some nz [OF i(1)] show ?thesis
      by (simp add: get_el_def D(7) contents_def)
  qed
  show ?thesis
  proof (cases "case cursor l of None \<Rightarrow> False | Some i \<Rightarrow> ?P (items l ! i)")
    case True
    then obtain i where i: "cursor l = Some i" "?P (items l ! i)" by (auto split: option.splits)
    then have "a_find ?P l = (Some i, l)" by (simp add: a_find_def)
    moreover have "ListFindItem h L content cb = Some (l_current L, L)"
      using here True by (simp add: ListFindItem_def)
    moreover have same: "L\<lparr>l_current := as ! i\<rparr> = L"
      using D(9) [OF i(1)] by (cases L) simp
    ultimately show ?thesis
      using D(9) [OF i(1)] rep by (intro exI [of _ "as ! i"]) (simp only: same fst_conv snd_conv option.case)
  next
    case False
    show ?thesis
    proof (cases "find_index ?P (items l)")
      case None
      with False here loop rep show ?thesis
        by (intro exI [of _ "l_current L"]) (auto simp: ListFindItem_def a_find_def)
    next
      case (Some j)
      then have j: "j < length as" using find_index_SomeD [OF Some] D(7) by simp
      with Some False here loop rep nz [OF j] show ?thesis
        by (intro exI [of _ "as ! j"]) (auto simp: ListFindItem_def a_find_def represents_def)
    qed
  qed
qed

lemma ListFind_refines:
  assumes "represents h L as l"
  shows "\<exists>p. ListFind h L content =
       Some (case fst (a_find (\<lambda>c. c = content) l) of None \<Rightarrow> NULL | Some j \<Rightarrow> as ! j, L\<lparr>l_current := p\<rparr>) \<and>
     represents h (L\<lparr>l_current := p\<rparr>) as (snd (a_find (\<lambda>c. c = content) l))"
  using ListFindItem_refines [OF assms, of content None] by (simp add: ListFind_def matches_def [abs_def])

subsection \<open>Removal\<close>

text \<open>The heap after the element \<open>a\<close> between \<open>xs\<close> and \<open>ys\<close> has been bypassed in both directions.\<close>

definition bypass :: "elmap \<Rightarrow> ptr list \<Rightarrow> ptr list \<Rightarrow> elmap" where
  "bypass m xs ys =
     set_prev (set_next m (last0 NULL xs) (hd0 NULL ys)) (hd0 NULL ys) (last0 NULL xs)"

lemma seg_bypass:
  assumes "seg m NULL (xs @ a # ys) NULL" "distinct (xs @ a # ys)" "NULL \<notin> set (xs @ a # ys)"
  shows "seg ((bypass m xs ys)(a := x)) NULL (xs @ ys) NULL"
proof -
  let ?p = "last0 NULL xs" and ?n = "hd0 NULL ys"
  let ?m1 = "set_next m ?p ?n"
  have mem: "?p \<notin> set (a # ys)" "?n \<notin> set (xs @ [a])"
    using assms(2,3) last0_in [of NULL xs] hd0_in [of NULL ys] by auto
  from assms have segs: "seg m NULL xs a" "seg m a ys NULL"
    by (auto simp: seg_append split: option.splits)
  have xs: "seg ?m1 NULL xs ?n"
    using seg_set_next_last [OF segs(1)] assms(2,3) by simp
  have ys: "seg (set_prev ?m1 ?n ?p) ?p ys NULL"
    using seg_set_prev_first [of ?m1 a ys NULL NULL ?p] segs(2) mem(1) assms(2,3) by simp
  show ?thesis
    using xs ys mem(2) assms(2) by (simp add: bypass_def seg_append)
qed

lemma bypass_other:
  assumes "distinct (xs @ a # ys)" "NULL \<notin> set (xs @ a # ys)"
  shows "bypass m xs ys a = m a"
  using assms last0_in [of NULL xs] hd0_in [of NULL ys] unfolding bypass_def
  by (metis Un_iff distinct.simps(2) distinct_append list.set_intros(1) not_distinct_conv_prefix set_append
      set_next_other set_prev_other disjoint_iff list.set_intros(2))

lemma bypass_outside: "b \<notin> set (xs @ a # ys) \<Longrightarrow> b \<noteq> NULL \<Longrightarrow> bypass m xs ys b = m b"
  using last0_in [of NULL xs] hd0_in [of NULL ys] unfolding bypass_def
  by (metis Un_iff list.set_intros(2) set_append set_next_other set_prev_other)

lemma bypass_NULL [simp]: "bypass m xs ys NULL = m NULL"
  by (auto simp: bypass_def set_next_def set_prev_def split: option.split)

lemma contents_bypass [simp]: "contents (bypass m xs ys) as = contents m as"
  by (simp add: bypass_def)

text \<open>Running the two updates of \<open>ListUnlink\<close>, from the state in which the cursor is on \<open>a\<close>.\<close>

lemma run_bypass:
  assumes rep: "represents h L (xs @ a # ys) l" and cur: "l_current L = a"
    and e: "elems h a = Some e"
  shows "do {
       cur \<leftarrow> get_el h (l_current L);
       (h, L) \<leftarrow>
         (if el_prev cur = NULL then Some (h, L\<lparr>l_first := el_next cur\<rparr>)
          else do {
            p \<leftarrow> get_el h (el_prev cur);
            h \<leftarrow> put_el h (el_prev cur) (p\<lparr>el_next := el_next cur\<rparr>);
            Some (h, L)
          });
       cur \<leftarrow> get_el h (l_current L);
       (h, L) \<leftarrow>
         (if el_next cur = NULL then Some (h, L\<lparr>l_last := el_prev cur\<rparr>)
          else do {
            n \<leftarrow> get_el h (el_next cur);
            h \<leftarrow> put_el h (el_next cur) (n\<lparr>el_prev := el_prev cur\<rparr>);
            Some (h, L)
          });
       f h L
     } = f (h\<lparr>elems := bypass (elems h) xs ys\<rparr>)
           (L\<lparr>l_first := hd0 NULL (xs @ ys), l_last := last0 NULL (xs @ ys)\<rparr>)"
proof -
  note D = representsD [OF rep]
  let ?p = "last0 NULL xs" and ?n = "hd0 NULL ys"
  let ?h1 = "h\<lparr>elems := set_next (elems h) ?p ?n\<rparr>"
  have links: "el_prev e = ?p" "el_next e = ?n" "a \<noteq> NULL"
    using represents_elem [OF rep] e by auto
  have ok: "?p = NULL \<or> elems h ?p \<noteq> None" "?n = NULL \<or> elems ?h1 ?n \<noteq> None"
    using last0_in [of NULL xs] hd0_in [of NULL ys] represents_allocated [OF rep, of ?p]
      represents_allocated [OF rep, of ?n] by (auto simp: set_next_domain)
  have "?p \<noteq> a" using last0_in [of NULL xs] D(1) links(3) by auto
  then have get: "get_el h a = Some e" "get_el ?h1 a = Some e"
    using e links(3) by (simp_all add: get_el_def)
  have pn: "?p = NULL \<longleftrightarrow> xs = []" "?n = NULL \<longleftrightarrow> ys = []"
    using D(2) by simp_all
  have L: "(if ?n = NULL then (if ?p = NULL then L\<lparr>l_first := ?n\<rparr> else L)\<lparr>l_last := ?p\<rparr>
      else (if ?p = NULL then L\<lparr>l_first := ?n\<rparr> else L)) =
      L\<lparr>l_first := hd0 NULL (xs @ ys), l_last := last0 NULL (xs @ ys)\<rparr>"
    unfolding pn using D(4,5) by (cases xs; cases ys rule: rev_cases) auto
  define L1 where "L1 = (if ?p = NULL then L\<lparr>l_first := ?n\<rparr> else L)"
  have cur1: "l_current L1 = a" using cur by (simp add: L1_def)
  note step1 = run_set_next [OF ok(1), of "L\<lparr>l_first := ?n\<rparr>" ?n L, folded L1_def]
  note step2 = run_set_prev [OF ok(2), of "L1\<lparr>l_last := ?p\<rparr>" ?p L1]
  show ?thesis
    by (simp only: cur cur1 get links(1,2) step1 step2 Option.bind_lunit prod.case L [folded L1_def]
        bypass_def) simp
qed

text \<open>The list left when the element at position \<open>length xs\<close> has gone and the cursor has been put on
  \<open>cur\<close>.\<close>

lemma represents_unlinked:
  assumes rep: "represents h L (xs @ a # ys) l" and el: "elems h' = (bypass (elems h) xs ys)(a := x)"
    and L': "L' = L\<lparr>l_first := hd0 NULL (xs @ ys), l_last := last0 NULL (xs @ ys),
              l_current := cur, l_count := l_count L - 1\<rparr>"
    and cur: "cur = (if l_current L = a then hd0 NULL ys else l_current L)"
  shows "represents h' L' (xs @ ys)
    \<lparr>items = remove_nth (length xs) (items l),
     cursor = cursor_after_removal (length (items l)) (length xs) (cursor l)\<rparr>"
proof -
  note D = representsD [OF rep]
  have "items l = contents (elems h) xs @ el_content (the (elems h a)) # contents (elems h) ys"
    using D(7) by simp
  then have items: "remove_nth (length xs) (items l) = contents (elems h') (xs @ ys)"
    using D(1) el remove_nth_middle [of "contents (elems h) xs"] by simp
  have "case cursor_after_removal (length (items l)) (length xs) (cursor l) of None \<Rightarrow> cur = NULL
      | Some i \<Rightarrow> i < length (xs @ ys) \<and> cur = (xs @ ys) ! i"
  proof (cases "cursor l")
    case None
    then show ?thesis
      using D(2,8) cur by (auto simp: cursor_after_removal_def)
  next
    case (Some i)
    note i = D(9) [OF Some]
    have len: "length (items l) = length xs + Suc (length ys)" using D(7) by simp
    have hit: "(xs @ a # ys) ! i = a \<longleftrightarrow> i = length xs"
      using i D(1) nth_eq_iff_index_eq [of "xs @ a # ys" i "length xs"] by simp
    consider "i < length xs" | "i = length xs" | k where "i = length xs + Suc k" "k < length ys"
      using i by (metis add_Suc_right length_append length_Cons less_imp_Suc_add linorder_neqE_nat nat_add_left_cancel_less Suc_less_eq)
    then show ?thesis
    proof cases
      case 1
      with Some i hit cur show ?thesis by (simp add: cursor_after_removal_def nth_append)
    next
      case 2
      with Some i cur len show ?thesis
        by (cases ys) (simp_all add: cursor_after_removal_def nth_append)
    next
      case 3
      with Some i hit cur show ?thesis by (simp add: cursor_after_removal_def nth_append)
    qed
  qed
  moreover have "seg (elems h') NULL (xs @ ys) NULL"
    using seg_bypass [OF D(3,1,2)] el by simp
  ultimately show ?thesis
    using D(1,2,6) items by (auto simp: represents_def L' split: option.splits)
qed

lemma ListUnlink_refines_found:
  assumes rep: "represents h L as l" and hit: "fst (a_find (matches cb content) l) = Some j"
  shows "\<exists>h' L'. ListUnlink h L content cb fc = Some (1, h', L') \<and>
     represents h' L' (remove_nth j as) (snd (a_unlink (matches cb content) l)) \<and>
     elems h' (as ! j) = None \<and>
     freed h' = freed h @ (if fc \<and> items l ! j \<noteq> NULL then [items l ! j] else []) \<and>
     agree_outside (set as) h h'"
proof -
  note D = representsD [OF rep]
  obtain p where find: "ListFindItem h L content cb = Some (as ! j, L\<lparr>l_current := p\<rparr>)"
    and rep1: "represents h (L\<lparr>l_current := p\<rparr>) as (snd (a_find (matches cb content) l))"
    using ListFindItem_refines [OF rep, of content cb] hit by auto
  have cur0: "cursor (snd (a_find (matches cb content) l)) = Some j"
    using hit by (auto simp: a_find_def split: if_splits option.splits)
  from representsD(9) [OF rep1 this] have j: "j < length as" "p = as ! j" by auto
  define xs a ys where "xs = take j as" and "a = as ! j" and "ys = drop (Suc j) as"
  have as: "as = xs @ a # ys" and len: "length xs = j"
    using id_take_nth_drop [OF j(1)] j(1) by (simp_all add: xs_def a_def ys_def)
  obtain e where e: "elems h a = Some e" "el_next e = hd0 NULL ys" "a \<noteq> NULL"
    using represents_elem [OF rep1 [unfolded as]] .
  have item: "items l ! j = el_content e"
    using e(1) D(7) j(1) by (simp add: contents_def a_def)
  have cur1: "l_current (L\<lparr>l_current := p\<rparr>) = a"
    using j(2) by (simp add: a_def)
  have find': "ListFindItem h L content cb = Some (a, L\<lparr>l_current := p\<rparr>)"
    using find by (simp add: a_def)
  let ?m = "bypass (elems h) xs ys"
  have ma: "?m a = Some e"
    using bypass_other [of xs a ys] D(1,2) e(1) by (simp add: as)
  define h2 where "h2 = (if fc then (free_content h (el_content e))\<lparr>elems := ?m(a := Some (e\<lparr>el_content := NULL\<rparr>))\<rparr>
      else h\<lparr>elems := ?m\<rparr>)"
  define h' where "h' = h2\<lparr>elems := (elems h2)(a := None)\<rparr>"
  define L' where "L' = L\<lparr>l_first := hd0 NULL (xs @ ys), l_last := last0 NULL (xs @ ys),
      l_current := (if l_current L = a then hd0 NULL ys else l_current L), l_count := l_count L - 1\<rparr>"
  have getters: "get_el (h\<lparr>elems := ?m\<rparr>) a = Some e"
    "(if fc then put_el (free_content (h\<lparr>elems := ?m\<rparr>) (el_content e)) a (e\<lparr>el_content := NULL\<rparr>)
      else Some (h\<lparr>elems := ?m\<rparr>)) = Some h2" "free_el h2 a = Some h'"
    using ma e(3) by (auto simp: get_el_def put_el_def free_el_def free_content_def h2_def h'_def)
  have run: "ListUnlink h L content cb fc = Some (1, h', L')"
    unfolding ListUnlink_def Let_def find' Option.bind_lunit prod.case if_not_P [OF e(3)]
      run_bypass [OF rep1 [unfolded as] cur1 e(1)]
    using getters e(2) by (cases fc) (simp_all add: L'_def j(2) a_def [symmetric])
  have elems': "elems h' = ?m(a := None)"
    by (auto simp: h'_def h2_def)
  have rep': "represents h' L' (xs @ ys) (snd (a_unlink (matches cb content) l))"
    using represents_unlinked [OF rep [unfolded as] elems' L'_def refl] hit len
    by (simp add: a_unlink_def)
  have "freed h' = freed h @ (if fc \<and> items l ! j \<noteq> NULL then [items l ! j] else [])"
    by (auto simp: h'_def h2_def free_content_def item)
  moreover have "agree_outside (set as) h h'"
    unfolding agree_outside_def elems'
    by (metis as bypass_NULL bypass_outside fun_upd_apply in_set_conv_decomp)
  moreover have "remove_nth j as = xs @ ys"
    using len as by auto
  ultimately show ?thesis
    using run rep' elems' by (auto simp: a_def)
qed

lemma ListUnlink_refines_missing:
  assumes rep: "represents h L as l" and miss: "fst (a_find (matches cb content) l) = None"
  shows "\<exists>p. ListUnlink h L content cb fc = Some (0, h, L\<lparr>l_current := p\<rparr>) \<and>
     represents h (L\<lparr>l_current := p\<rparr>) as l"
proof -
  have "snd (a_find (matches cb content) l) = l"
    using miss by (auto simp: a_find_def split: if_splits option.splits)
  with ListFindItem_refines [OF rep, of content cb] miss show ?thesis
    by (auto simp: ListUnlink_def)
qed

subsection \<open>The two ends\<close>

lemma ListDetachHead_refines:
  assumes rep: "represents h L (a # ys) l"
  shows "\<exists>h' L'. ListDetachHead h L = Some (hd (items l), h', L') \<and>
     represents h' L' ys (snd (a_detach_head l)) \<and> elems h' a = None \<and>
     freed h' = freed h \<and> agree_outside (set (a # ys)) h h'"
proof -
  note D = representsD [OF rep]
  obtain e where e: "elems h a = Some e" "el_next e = hd0 NULL ys" "a \<noteq> NULL"
    using represents_elem [of h L "[]" a ys l] rep by auto
  let ?n = "hd0 NULL ys"
  define h1 where "h1 = h\<lparr>elems := bypass (elems h) [] ys\<rparr>"
  define h' where "h' = h1\<lparr>elems := (elems h1)(a := None)\<rparr>"
  define L' where "L' = L\<lparr>l_first := hd0 NULL ([] @ ys), l_last := last0 NULL ([] @ ys),
      l_current := (if l_current L = a then ?n else l_current L), l_count := l_count L - 1\<rparr>"
  have n: "?n = NULL \<longleftrightarrow> ys = []" "?n \<noteq> a" "?n \<noteq> NULL \<Longrightarrow> \<exists>e'. elems h ?n = Some e'"
    using D(1,2) represents_allocated [OF rep, of ?n] by (cases ys; auto)+
  have m: "bypass (elems h) [] ys = set_prev (elems h) ?n NULL"
    by (simp add: bypass_def set_next_def)
  have el1: "elems h1 a = Some e"
    using e(1) n(2) by (simp add: h1_def m)
  have relink: "(if ?n \<noteq> NULL then do { n \<leftarrow> get_el h ?n; put_el h ?n (n\<lparr>el_prev := NULL\<rparr>) } else Some h) = Some h1"
    using n by (auto simp: h1_def m get_el_def put_el_def set_prev_def)
  have last: "l_last L = a \<longleftrightarrow> ys = []"
    using D(1,5) last_in_set [of ys] by (auto simp: last0_def)
  have items: "items l = el_content e # contents (elems h) ys"
    using D(7) e(1) by simp
  have "free_el h1 a = Some h'"
    using el1 e(3) by (simp add: free_el_def h'_def)
  then have run: "ListDetachHead h L = Some (hd (items l), h', L')"
    using relink last e D(4-6) items n(1)
    by (cases "ys = []") (auto simp: ListDetachHead_def get_el_def Let_def L'_def last0_def split: Option.bind_splits)
  have "represents h' L' ys (snd (a_detach_head l))"
    using represents_unlinked [of h L "[]" a ys l h' None L', OF _ _ L'_def refl] rep items
    by (simp add: h'_def h1_def a_detach_head_def remove_nth_def)
  moreover have "agree_outside (set (a # ys)) h h'"
    using hd0_in [of NULL ys] by (auto simp: agree_outside_def h'_def h1_def m set_prev_def split: option.split)
  ultimately show ?thesis
    using run by (auto simp: h'_def h1_def)
qed

lemma ListDetachHead_empty:
  "represents h L [] l \<Longrightarrow> ListDetachHead h L = Some (NULL, h, L)"
  by (simp add: represents_def ListDetachHead_def)

lemma ListPopTail_refines:
  assumes rep: "represents h L (xs @ [a]) l"
  shows "\<exists>h' L'. ListPopTail h L = Some (last (items l), h', L') \<and>
     represents h' L' xs (snd (a_pop_tail l)) \<and> elems h' a = None \<and>
     freed h' = freed h \<and> agree_outside (set (xs @ [a])) h h'"
proof -
  note D = representsD [OF rep]
  let ?p = "last0 NULL xs"
  obtain e where e: "elems h a = Some e" "el_prev e = ?p" "a \<noteq> NULL"
    using represents_elem [of h L xs a "[]" l] rep by auto
  define h1 where "h1 = h\<lparr>elems := bypass (elems h) xs []\<rparr>"
  define h' where "h' = h1\<lparr>elems := (elems h1)(a := None)\<rparr>"
  define L' where "L' = L\<lparr>l_first := hd0 NULL xs, l_last := ?p,
      l_current := (if l_current L = a then ?p else l_current L), l_count := l_count L - 1\<rparr>"
  have p: "?p = NULL \<longleftrightarrow> xs = []" "?p \<noteq> a" "?p \<noteq> NULL \<Longrightarrow> \<exists>e'. elems h ?p = Some e'"
    using D(1,2) last0_in [of NULL xs] represents_allocated [OF rep, of ?p] by auto
  have m: "bypass (elems h) xs [] = set_next (elems h) ?p NULL"
    by (simp add: bypass_def set_prev_def)
  have el1: "elems h1 a = Some e"
    using e(1) p(2) by (simp add: h1_def m)
  have relink: "(if ?p \<noteq> NULL then do { n \<leftarrow> get_el h ?p; put_el h ?p (n\<lparr>el_next := NULL\<rparr>) } else Some h) = Some h1"
    using p by (auto simp: h1_def m get_el_def put_el_def set_next_def)
  have first: "l_first L = a \<longleftrightarrow> xs = []" "l_first L = hd0 a xs"
    using D(1,4) by (cases xs; auto)+
  have items: "items l = contents (elems h) xs @ [el_content e]"
    using D(7) e(1) by simp
  have "free_el h1 a = Some h'"
    using el1 e(3) by (simp add: free_el_def h'_def)
  then have run: "ListPopTail h L = Some (last (items l), h', L')"
    using relink first e D(5,6) items p(1)
    by (cases "xs = []") (auto simp: ListPopTail_def get_el_def Let_def L'_def hd0_def split: Option.bind_splits list.splits)
  have cur: "case cursor (snd (a_pop_tail l)) of None \<Rightarrow> l_current L' = NULL
      | Some i \<Rightarrow> i < length xs \<and> l_current L' = xs ! i"
  proof (cases "cursor l")
    case None
    then show ?thesis using D(8) e(3) items by (simp add: a_pop_tail_def L'_def)
  next
    case (Some i)
    note i = D(9) [OF Some]
    have hit: "(xs @ [a]) ! i = a \<longleftrightarrow> i = length xs"
      using i D(1) nth_eq_iff_index_eq [of "xs @ [a]" i "length xs"] by simp
    have "xs \<noteq> [] \<Longrightarrow> ?p = xs ! (length xs - Suc 0)"
      by (simp add: last0_def last_conv_nth)
    with Some i hit items show ?thesis
      by (auto simp: a_pop_tail_def L'_def nth_append)
  qed
  have "seg (elems h') NULL xs NULL"
    using seg_bypass [OF D(3,1,2)] by (simp add: h'_def h1_def)
  moreover have "items (snd (a_pop_tail l)) = contents (elems h') xs"
    using items D(1) by (simp add: a_pop_tail_def h'_def h1_def)
  moreover have "l_first L' = hd0 NULL xs" "l_last L' = ?p" "l_count L' = int (length xs)"
    using D(6) by (simp_all add: L'_def)
  ultimately have "represents h' L' xs (snd (a_pop_tail l))"
    using D(1,2) cur by (simp add: represents_def)
  moreover have "agree_outside (set (xs @ [a])) h h'"
    using last0_in [of NULL xs] by (auto simp: agree_outside_def h'_def h1_def m set_next_def split: option.split)
  ultimately show ?thesis
    using run by (auto simp: h'_def h1_def)
qed

subsection \<open>Emptying\<close>

lemma ListEmpty_loop_frees:
  assumes "seg (elems h) p as NULL" "distinct as" "NULL \<notin> set as" "l_first L = hd0 NULL as"
  shows "\<exists>h' L'. ListEmpty_loop fc h L = Some (h', L') \<and> (\<forall>a\<in>set as. elems h' a = None) \<and>
     freed h' = freed h @ (if fc then filter (\<lambda>c. c \<noteq> NULL) (contents (elems h) as) else []) \<and>
     agree_outside (set as) h h'"
  using assms
proof (induction as arbitrary: h L p)
  case Nil
  then show ?case
    by (auto simp: ListEmpty_loop.simps agree_outside_def)
next
  case (Cons a as)
  obtain e where e: "elems h a = Some e" "el_next e = hd0 NULL as"
    using Cons.prems(1) by (auto split: option.splits)
  define h1 where "h1 = (if fc then free_content h (el_content e) else h)"
  define h2 where "h2 = h1\<lparr>elems := (elems h1)(a := None)\<rparr>"
  have el: "elems h1 = elems h" by (simp add: h1_def free_content_def)
  have step: "ListEmpty_loop fc h L = ListEmpty_loop fc h2 (L\<lparr>l_first := hd0 NULL as\<rparr>)"
    using e Cons.prems(3,4) by (subst ListEmpty_loop.simps)
      (simp add: get_el_def Let_def free_el_def h1_def [symmetric] h2_def el)
  have "seg (elems h2) a as NULL"
    using Cons.prems(1,2) by (auto simp: h2_def el split: option.splits)
  with Cons.IH [of h2 a "L\<lparr>l_first := hd0 NULL as\<rparr>"] Cons.prems(2,3)
  obtain h' L' where IH: "ListEmpty_loop fc h2 (L\<lparr>l_first := hd0 NULL as\<rparr>) = Some (h', L')"
      "\<forall>a\<in>set as. elems h' a = None"
      "freed h' = freed h2 @ (if fc then filter (\<lambda>c. c \<noteq> NULL) (contents (elems h2) as) else [])"
      "agree_outside (set as) h2 h'"
    by auto
  have "elems h' a = None"
    using IH(4) Cons.prems(2) by (auto simp: agree_outside_def h2_def)
  moreover have "agree_outside (set (a # as)) h h'"
    using IH(4) by (auto simp: agree_outside_def h2_def el)
  moreover have "freed h' = freed h @ (if fc then filter (\<lambda>c. c \<noteq> NULL) (contents (elems h) (a # as)) else [])"
    using IH(3) e Cons.prems(2) by (auto simp: h2_def h1_def free_content_def)
  ultimately show ?case
    using IH(1,2) step by auto
qed

lemma ListEmpty_refines:
  assumes rep: "represents h L as l"
  shows "\<exists>h'. ListEmpty h L = Some (h', ListZero) \<and> represents h' ListZero [] empty_alist \<and>
     (\<forall>a\<in>set as. elems h' a = None) \<and> freed h' = freed h @ filter (\<lambda>c. c \<noteq> NULL) (items l) \<and>
     agree_outside (set as) h h'"
proof -
  note D = representsD [OF rep]
  obtain h' L' where "ListEmpty_loop True h L = Some (h', L')" "\<forall>a\<in>set as. elems h' a = None"
      "freed h' = freed h @ filter (\<lambda>c. c \<noteq> NULL) (items l)" "agree_outside (set as) h h'"
    using ListEmpty_loop_frees [OF D(3,1,2,4), of True] D(7) by auto
  then show ?thesis
    by (simp add: ListEmpty_def ListZero_def represents_def empty_alist_def)
qed

section \<open>Sequences of operations\<close>

text \<open>Any sequence of calls on one list, as the client's modules issue them.  A flag says whether
  \<open>malloc\<close> succeeds; the answer of a call is the content it delivers (\<open>NULL\<close> for none) or its return
  code.  \<open>InsertAtCursor\<close> is \<open>ListInsert\<close> before \<open>current\<close>, at the end when there is none.\<close>

datatype list_call =
    Append bool ptr nat
  | InsertAtCursor bool ptr nat
  | Find ptr "callback option"
  | Unlink ptr "callback option" bool
  | DetachHead
  | PopTail
  | EmptyAll

fun call :: "(lheap \<Rightarrow> ptr) \<Rightarrow> list_call \<Rightarrow> lheap \<Rightarrow> CList \<Rightarrow> (int \<times> lheap \<times> CList) option" where
  "call alloc (Append ok c sz) h L = do {
     (p, h, L) \<leftarrow> ListAppend (if ok then alloc h else NULL) h L c sz;
     Some (of_bool (p \<noteq> NULL), h, L)
   }"
| "call alloc (InsertAtCursor ok c sz) h L = do {
     (p, h, L) \<leftarrow> ListInsert (if ok then alloc h else NULL) h L c sz (l_current L);
     Some (of_bool (p \<noteq> NULL), h, L)
   }"
| "call alloc (Find c cb) h L = do {
     (p, L) \<leftarrow> ListFindItem h L c cb;
     if p = NULL then Some (int NULL, h, L)
     else do { e \<leftarrow> get_el h p; Some (int (el_content e), h, L) }
   }"
| "call alloc (Unlink c cb fc) h L = ListUnlink h L c cb fc"
| "call alloc DetachHead h L = do { (c, h, L) \<leftarrow> ListDetachHead h L; Some (int c, h, L) }"
| "call alloc PopTail h L = do { (c, h, L) \<leftarrow> ListPopTail h L; Some (int c, h, L) }"
| "call alloc EmptyAll h L = do { (h, L) \<leftarrow> ListEmpty h L; Some (0, h, L) }"

fun a_call :: "list_call \<Rightarrow> ptr alist \<Rightarrow> int \<times> ptr alist" where
  "a_call (Append ok c sz) l = (if ok then (1, a_append c l) else (0, l))"
| "a_call (InsertAtCursor ok c sz) l =
     (if ok then (1, case cursor l of None \<Rightarrow> a_append c l | Some i \<Rightarrow> a_insert i c l) else (0, l))"
| "a_call (Find c cb) l =
     (case a_find (matches cb c) l of (None, l') \<Rightarrow> (int NULL, l') | (Some j, l') \<Rightarrow> (int (items l ! j), l'))"
| "a_call (Unlink c cb fc) l =
     (case a_unlink (matches cb c) l of (None, l') \<Rightarrow> (0, l') | (Some _, l') \<Rightarrow> (1, l'))"
| "a_call DetachHead l =
     (case a_detach_head l of (None, l') \<Rightarrow> (int NULL, l') | (Some c, l') \<Rightarrow> (int c, l'))"
| "a_call PopTail l =
     (case a_pop_tail l of (None, l') \<Rightarrow> (int NULL, l') | (Some c, l') \<Rightarrow> (int c, l'))"
| "a_call EmptyAll l = (0, empty_alist)"

fun calls :: "(lheap \<Rightarrow> ptr) \<Rightarrow> list_call list \<Rightarrow> lheap \<Rightarrow> CList \<Rightarrow> (int list \<times> lheap \<times> CList) option" where
  "calls alloc [] h L = Some ([], h, L)"
| "calls alloc (c # cs) h L = do {
     (r, h, L) \<leftarrow> call alloc c h L;
     (rs, h, L) \<leftarrow> calls alloc cs h L;
     Some (r # rs, h, L)
   }"

fun a_calls :: "list_call list \<Rightarrow> ptr alist \<Rightarrow> int list \<times> ptr alist" where
  "a_calls [] l = ([], l)"
| "a_calls (c # cs) l =
     (let (r, l) = a_call c l; (rs, l) = a_calls cs l in (r # rs, l))"

text \<open>What \<open>malloc\<close> promises: an address that is not in use.\<close>

definition allocator :: "(lheap \<Rightarrow> ptr) \<Rightarrow> bool" where
  "allocator alloc \<longleftrightarrow>
     (\<forall>h. finite (dom (elems h)) \<longrightarrow> alloc h \<noteq> NULL \<and> elems h (alloc h) = None)"

lemma allocatorD:
  assumes "allocator alloc" "finite (dom (elems h))" "represents h L as l"
  shows "alloc h \<noteq> NULL" "alloc h \<notin> set as"
  using assms represents_allocated by (fastforce simp: allocator_def)+

lemma allocatorD_fresh: "allocator alloc \<Longrightarrow> finite (dom (elems h)) \<Longrightarrow> elems h (alloc h) = None"
  by (simp add: allocator_def)

lemma finite_agree:
  assumes "agree_outside A h h'" "finite A" "finite (dom (elems h))"
  shows "finite (dom (elems h'))"
proof (rule finite_subset)
  show "dom (elems h') \<subseteq> A \<union> dom (elems h)"
    using assms(1) by (auto simp: agree_outside_def)
qed (use assms in simp)

text \<open>The simulation of one call, which touches no element outside its own list: what it adds is
  fresh.\<close>

definition frame :: "lheap \<Rightarrow> ptr list \<Rightarrow> lheap \<Rightarrow> ptr list \<Rightarrow> bool" where
  "frame h as h' as' \<longleftrightarrow>
     (\<forall>b e. elems h b = Some e \<longrightarrow> b \<notin> set as \<longrightarrow> elems h' b = Some e \<and> b \<notin> set as')"

definition simulated ::
  "lheap \<Rightarrow> ptr list \<Rightarrow> (int \<times> lheap \<times> CList) option \<Rightarrow> int \<times> ptr alist \<Rightarrow> bool" where
  "simulated h as c a \<longleftrightarrow> (\<exists>h' L' as'. c = Some (fst a, h', L') \<and> represents h' L' as' (snd a) \<and>
     finite (dom (elems h')) \<and> frame h as h' as')"

lemma frame_refl [simp]: "frame h as h as"
  by (simp add: frame_def)

lemma frame_trans: "frame h as h1 as1 \<Longrightarrow> frame h1 as1 h2 as2 \<Longrightarrow> frame h as h2 as2"
  by (simp add: frame_def)

text \<open>So another list in the same heap is left as it is.\<close>

lemma frame_represents:
  assumes fr: "frame h as h' as'" and rep: "represents h M bs m" and disj: "set as \<inter> set bs = {}"
  shows "represents h' M bs m" "set as' \<inter> set bs = {}"
proof -
  have eq: "elems h' b = elems h b \<and> b \<notin> set as'" if "b \<in> set bs" for b
    using that fr disj represents_allocated [OF rep that] unfolding frame_def by force
  then show "set as' \<inter> set bs = {}" by auto
  have "seg (elems h') p xs n = seg (elems h) p xs n" if "set xs \<subseteq> set bs" for p xs n
    using that eq by (induction xs arbitrary: p) (auto split: option.split)
  moreover have "contents (elems h') bs = contents (elems h) bs"
    using eq by (simp add: contents_def)
  ultimately show "represents h' M bs m"
    using rep by (simp add: represents_def)
qed

lemma agree_outside_refl [simp]: "agree_outside A h h"
  by (simp add: agree_outside_def)

lemma ListAppend_refines:
  assumes rep: "represents h L as l" and new: "newel \<notin> set as" "newel \<noteq> NULL"
  shows "\<exists>h' L'. ListAppend newel h L content sz = Some (newel, h', L') \<and>
     represents h' L' (as @ [newel]) (a_append content l) \<and>
     freed h' = freed h \<and> agree_outside (insert newel (set as)) h h'"
  using ListAppendNoMalloc_refines [of "malloc_el h newel" L as l newel content sz] assms
  by (auto simp: ListAppend_def agree_outside_def)

text \<open>A call that reaches a represented list and leaves the rest of the heap alone is simulated.\<close>

lemma simulatedI:
  assumes run: "\<exists>h' L'. c = Some (r, h', L') \<and> represents h' L' as' l' \<and> agree_outside A h h'"
    and sub: "set as' \<subseteq> A"
    and a: "a = (r, l')" and A: "finite A" "finite (dom (elems h))" "A \<inter> dom (elems h) \<subseteq> set as"
  shows "simulated h as c a"
proof -
  from run obtain h' L' where r: "c = Some (r, h', L')" "represents h' L' as' l'"
    "agree_outside A h h'" by blast
  have "elems h' b = Some e \<and> b \<notin> set as'" if "elems h b = Some e" "b \<notin> set as" for b e
  proof -
    have "b \<notin> A" using that A(3) by blast
    then show ?thesis using that(1) r(3) sub by (auto simp: agree_outside_def)
  qed
  then have "frame h as h' as'" by (simp add: frame_def)
  with r a finite_agree [OF r(3) A(1,2)] show ?thesis
    by (auto simp: simulated_def)
qed

lemma call_append_simulated:
  assumes rep: "represents h L as l" and fin: "finite (dom (elems h))" and al: "allocator alloc"
  shows "simulated h as (call alloc (Append True x sz) h L) (1, a_append x l)"
proof (rule simulatedI [where h = h and as' = "as @ [alloc h]" and A = "insert (alloc h) (set as)"])
  note new = allocatorD [OF al fin rep]
  show "\<exists>h' L'. call alloc (Append True x sz) h L = Some (1, h', L') \<and>
      represents h' L' (as @ [alloc h]) (a_append x l) \<and> agree_outside (insert (alloc h) (set as)) h h'"
    using ListAppend_refines [OF rep new(2,1), of x sz] new(1) by auto
qed (use allocatorD_fresh [OF al fin] in \<open>auto simp: fin\<close>)

lemma call_insert_simulated:
  assumes rep: "represents h L as l" and fin: "finite (dom (elems h))" and al: "allocator alloc"
    and i: "cursor l = Some i"
  shows "simulated h as (call alloc (InsertAtCursor True x sz) h L) (1, a_insert i x l)"
proof -
  note new = allocatorD [OF al fin rep]
  have i': "i < length as" "l_current L = as ! i"
    using representsD(9) [OF rep i] by auto
  have as: "as = take i as @ as ! i # drop (Suc i) as" using id_take_nth_drop [OF i'(1)] .
  have len: "length (take i as) = i" using i'(1) by simp
  let ?as' = "take i as @ alloc h # as ! i # drop (Suc i) as"
  have "\<exists>h' L'. call alloc (InsertAtCursor True x sz) h L = Some (1, h', L') \<and>
      represents h' L' ?as' (a_insert i x l) \<and> agree_outside (insert (alloc h) (set as)) h h'"
    using ListInsert_before_refines [of h L "take i as" "as ! i" "drop (Suc i) as" l "alloc h" x sz,
        folded as, OF rep new(2,1)] new(1) i'(2) len by auto
  then show ?thesis
    by (rule simulatedI)
      (use allocatorD_fresh [OF al fin] i'(1) fin in \<open>auto dest: in_set_takeD in_set_dropD\<close>)
qed

lemma call_insert_end:
  assumes "represents h L as l" "cursor l = None"
  shows "call alloc (InsertAtCursor ok x sz) h L = call alloc (Append ok x sz) h L"
  using representsD(8) [OF assms] by (simp add: ListInsert_def ListAppend_def)

lemma call_find_simulated:
  assumes rep: "represents h L as l" and fin: "finite (dom (elems h))"
  shows "simulated h as (call alloc (Find x cb) h L) (a_call (Find x cb) l)"
proof -
  obtain p where find: "ListFindItem h L x cb =
       Some (case fst (a_find (matches cb x) l) of None \<Rightarrow> NULL | Some j \<Rightarrow> as ! j, L\<lparr>l_current := p\<rparr>)"
    and rep': "represents h (L\<lparr>l_current := p\<rparr>) as (snd (a_find (matches cb x) l))"
    using ListFindItem_refines [OF rep] by blast
  show ?thesis
  proof (cases "fst (a_find (matches cb x) l)")
    case None
    with find rep' fin show ?thesis
      by (auto simp: simulated_def split: prod.split option.split)
  next
    case (Some j)
    have "cursor (snd (a_find (matches cb x) l)) = Some j"
      using Some by (auto simp: a_find_def split: if_splits option.splits)
    then have j: "j < length as" using representsD(9) [OF rep'] by auto
    then obtain e where "elems h (as ! j) = Some e" "as ! j \<noteq> NULL"
      using represents_allocated [OF rep] representsD(2) [OF rep] by (metis nth_mem)
    with Some find rep' fin j representsD(7) [OF rep] show ?thesis
      by (auto simp: simulated_def get_el_def contents_def split: prod.split option.split)
  qed
qed

lemma call_unlink_simulated:
  assumes rep: "represents h L as l" and fin: "finite (dom (elems h))"
  shows "simulated h as (call alloc (Unlink x cb fc) h L) (a_call (Unlink x cb fc) l)"
proof (cases "fst (a_find (matches cb x) l)")
  case None
  with ListUnlink_refines_missing [OF rep None, of fc] fin frame_refl [of h as] show ?thesis
    by (auto simp: simulated_def a_unlink_def simp del: frame_refl)
next
  case (Some j)
  show ?thesis
  proof (rule simulatedI [where h = h and as' = "remove_nth j as" and A = "set as"])
    show "a_call (Unlink x cb fc) l = (1, snd (a_unlink (matches cb x) l))"
      using Some by (simp add: a_unlink_def)
    show "\<exists>h' L'. call alloc (Unlink x cb fc) h L = Some (1, h', L') \<and>
        represents h' L' (remove_nth j as) (snd (a_unlink (matches cb x) l)) \<and> agree_outside (set as) h h'"
      using ListUnlink_refines_found [OF rep Some, of fc] by auto
  qed (use fin set_remove_nth_subset [of j as] in auto)
qed

lemma call_detach_simulated:
  assumes rep: "represents h L as l" and fin: "finite (dom (elems h))"
  shows "simulated h as (call alloc DetachHead h L) (a_call DetachHead l)"
proof (cases as)
  case Nil
  with rep ListDetachHead_empty [of h L l] fin representsD(7) [OF rep] show ?thesis
    by (auto simp: simulated_def a_detach_head_def)
next
  case (Cons a ys)
  show ?thesis
  proof (rule simulatedI [where h = h and as' = "ys" and A = "set as"])
    show "a_call DetachHead l = (int (hd (items l)), snd (a_detach_head l))"
      using Cons representsD(7) [OF rep] by (simp add: a_detach_head_def)
    show "\<exists>h' L'. call alloc DetachHead h L = Some (int (hd (items l)), h', L') \<and>
        represents h' L' (ys) (snd (a_detach_head l)) \<and> agree_outside (set as) h h'"
      using ListDetachHead_refines [OF rep [unfolded Cons]] Cons by fastforce
  qed (use fin Cons in auto)
qed

lemma call_pop_simulated:
  assumes rep: "represents h L as l" and fin: "finite (dom (elems h))"
  shows "simulated h as (call alloc PopTail h L) (a_call PopTail l)"
proof (cases as rule: rev_cases)
  case Nil
  with rep fin representsD(6,7) [OF rep] show ?thesis
    by (auto simp: simulated_def a_pop_tail_def ListPopTail_def)
next
  case (snoc xs a)
  show ?thesis
  proof (rule simulatedI [where h = h and as' = "xs" and A = "set as"])
    show "a_call PopTail l = (int (last (items l)), snd (a_pop_tail l))"
      using snoc representsD(7) [OF rep] by (simp add: a_pop_tail_def)
    show "\<exists>h' L'. call alloc PopTail h L = Some (int (last (items l)), h', L') \<and>
        represents h' L' (xs) (snd (a_pop_tail l)) \<and> agree_outside (set as) h h'"
      using ListPopTail_refines [OF rep [unfolded snoc]] snoc by fastforce
  qed (use fin snoc in auto)
qed

lemma call_simulated:
  assumes rep: "represents h L as l" and fin: "finite (dom (elems h))" and al: "allocator alloc"
  shows "simulated h as (call alloc c h L) (a_call c l)"
proof (cases c)
  case (Append ok x sz)
  with call_append_simulated [OF rep fin al] rep fin show ?thesis
    by (cases ok) (auto simp: simulated_def ListAppend_def)
next
  case (InsertAtCursor ok x sz)
  show ?thesis
  proof (cases ok)
    case False
    with InsertAtCursor rep fin show ?thesis by (auto simp: simulated_def ListInsert_def)
  next
    case True
    show ?thesis
    proof (cases "cursor l")
      case None
      with call_append_simulated [OF rep fin al, of x sz] call_insert_end [OF rep None, of alloc True x sz]
        InsertAtCursor True show ?thesis by simp
    next
      case (Some i)
      with call_insert_simulated [OF rep fin al Some, of x sz] InsertAtCursor True show ?thesis
        by (simp del: call.simps)
    qed
  qed
next
  case EmptyAll
  show ?thesis
    unfolding EmptyAll
  proof (rule simulatedI [where h = h and as' = "[]" and A = "set as"])
    show "\<exists>h' L'. call alloc EmptyAll h L = Some (0, h', L') \<and>
        represents h' L' ([]) empty_alist \<and> agree_outside (set as) h h'"
      using ListEmpty_refines [OF rep] by auto
  qed (use fin in auto)
next
  case (Find x cb)
  with call_find_simulated [OF rep fin] show ?thesis by (simp del: call.simps a_call.simps)
next
  case (Unlink x cb fc)
  with call_unlink_simulated [OF rep fin] show ?thesis by (simp del: call.simps a_call.simps)
next
  case DetachHead
  with call_detach_simulated [OF rep fin] show ?thesis by (simp del: call.simps a_call.simps)
next
  case PopTail
  with call_pop_simulated [OF rep fin] show ?thesis by (simp del: call.simps a_call.simps)
qed

lemma calls_simulated:
  assumes "represents h L as l" "finite (dom (elems h))" "allocator alloc"
  shows "\<exists>h' L' as'. calls alloc cs h L = Some (fst (a_calls cs l), h', L') \<and>
     represents h' L' as' (snd (a_calls cs l)) \<and> frame h as h' as'"
  using assms
proof (induction cs arbitrary: h L as l)
  case (Cons c cs)
  from call_simulated [OF Cons.prems, of c] obtain h1 L1 as1
    where step: "call alloc c h L = Some (fst (a_call c l), h1, L1)"
      "represents h1 L1 as1 (snd (a_call c l))" "finite (dom (elems h1))" "frame h as h1 as1"
    unfolding simulated_def by blast
  from Cons.IH [OF step(2,3) Cons.prems(3)] obtain h2 L2 as2
    where "calls alloc cs h1 L1 = Some (fst (a_calls cs (snd (a_call c l))), h2, L2)"
      "represents h2 L2 as2 (snd (a_calls cs (snd (a_call c l))))" "frame h1 as1 h2 as2" by blast
  with step(1) frame_trans [OF step(4)] show ?case
    by (auto simp: Let_def split: prod.split)
qed auto


section \<open>The properties of the module\<close>

text \<open>C1: Take any list the module can build, in a heap that may hold other lists, and any sequence
  of appends, inserts before the cursor, searches, unlinks, head and tail removals and emptyings, with
  malloc failing on any of them.  The pointer code never dereferences a null or dangling pointer and
  never loops for ever; every call returns exactly what the abstract list (contents in order plus a
  cursor) says, the list is well formed again (links in both directions, count, first, last, cursor on
  a live element or null), and every other list of the heap is untouched.\<close>

theorem list_calls_correct:
  assumes "represents h L as l" "finite (dom (elems h))" "allocator alloc"
  shows "\<exists>h' L' as'. calls alloc cs h L = Some (fst (a_calls cs l), h', L') \<and>
     represents h' L' as' (snd (a_calls cs l)) \<and>
     (\<forall>M bs m. represents h M bs m \<and> set as \<inter> set bs = {} \<longrightarrow>
        represents h' M bs m \<and> set as' \<inter> set bs = {})"
proof -
  from calls_simulated [OF assms, of cs] obtain h' L' as'
    where "calls alloc cs h L = Some (fst (a_calls cs l), h', L')"
      "represents h' L' as' (snd (a_calls cs l))" and fr: "frame h as h' as'" by blast
  with frame_represents [OF fr] show ?thesis by blast
qed

text \<open>A heap with a list of three elements, cursor on the second, for the witnesses; and an allocator
  that answers with the address above every address in use.\<close>

definition demo_heap :: lheap where
  "demo_heap = \<lparr>elems = [1 \<mapsto> \<lparr>el_prev = 0, el_next = 2, el_content = 10\<rparr>,
     2 \<mapsto> \<lparr>el_prev = 1, el_next = 3, el_content = 20\<rparr>,
     3 \<mapsto> \<lparr>el_prev = 2, el_next = 0, el_content = 30\<rparr>], freed = []\<rparr>"

definition demo_list :: CList where
  "demo_list = \<lparr>l_first = 1, l_last = 3, l_current = 2, l_count = 3, l_size = 12\<rparr>"

definition demo_alist :: "ptr alist" where
  "demo_alist = \<lparr>items = [10, 20, 30], cursor = Some 1\<rparr>"

definition next_free :: "lheap \<Rightarrow> ptr" where
  "next_free h = Suc (Max (insert 0 (dom (elems h))))"

lemma demo_represents: "represents demo_heap demo_list [1, 2, 3] demo_alist"
  by (simp add: represents_def demo_heap_def demo_list_def demo_alist_def contents_def)

lemma demo_finite: "finite (dom (elems demo_heap))"
  by (simp add: demo_heap_def)

lemma allocator_next_free: "allocator next_free"
proof -
  have "elems h (next_free h) = None" if "finite (dom (elems h))" for h
  proof (rule ccontr)
    assume "elems h (next_free h) \<noteq> None"
    then have "next_free h \<le> Max (insert 0 (dom (elems h)))"
      using that by (intro Max_ge) auto
    then show False by (simp add: next_free_def)
  qed
  then show ?thesis by (simp add: allocator_def next_free_def)
qed

theorem list_calls_correct_witness:
  "\<exists>h' L'. calls next_free
     [Append True 40 4, Find 40 None, InsertAtCursor True 35 4, Append False 50 4,
      Unlink 20 None True, DetachHead, PopTail, Find 99 None] demo_heap demo_list
     = Some ([1, 40, 1, 0, 1, 10, 40, 0], h', L') \<and> l_count L' = 2"
  using list_calls_correct [OF demo_represents demo_finite allocator_next_free, of
      "[Append True 40 4, Find 40 None, InsertAtCursor True 35 4, Append False 50 4,
      Unlink 20 None True, DetachHead, PopTail, Find 99 None]"]
  by (auto simp: demo_alist_def a_append_def a_insert_def a_find_def a_unlink_def a_detach_head_def
      a_pop_tail_def matches_def remove_nth_def cursor_after_removal_def represents_def contents_def
      dest: map_eq_imp_length_eq)

text \<open>C2: Unlinking from a well-formed list, with or without a comparison callback.  When something
  matches, the function returns 1, takes exactly the first match out (the element under the cursor
  counts first), frees its list element, frees its content exactly when asked to and only when it is
  not null, and the cursor stays on the element it was on, moving to the successor only when that
  element itself was removed.  When nothing matches it returns 0 and leaves heap and list alone.\<close>

theorem ListUnlink_correct:
  assumes "represents h L as l"
  shows "case fst (a_find (matches cb content) l) of
       None \<Rightarrow> \<exists>p. ListUnlink h L content cb fc = Some (0, h, L\<lparr>l_current := p\<rparr>) \<and>
                 represents h (L\<lparr>l_current := p\<rparr>) as l
     | Some j \<Rightarrow> \<exists>h' L'. ListUnlink h L content cb fc = Some (1, h', L') \<and>
          represents h' L' (remove_nth j as)
            \<lparr>items = remove_nth j (items l),
             cursor = cursor_after_removal (length (items l)) j (cursor l)\<rparr> \<and>
          elems h' (as ! j) = None \<and>
          freed h' = freed h @ (if fc \<and> items l ! j \<noteq> NULL then [items l ! j] else [])"
proof (cases "fst (a_find (matches cb content) l)")
  case None
  with ListUnlink_refines_missing [OF assms None] show ?thesis by simp
next
  case (Some j)
  from ListUnlink_refines_found [OF assms Some, of fc] Some show ?thesis
    by (auto simp: a_unlink_def)
qed

theorem ListUnlink_correct_witness:
  "(\<exists>h' L'. ListUnlink demo_heap demo_list 30 None True = Some (1, h', L') \<and>
     represents h' L' [1, 2] \<lparr>items = [10, 20], cursor = Some 1\<rparr> \<and> freed h' = [30]) \<and>
   (\<exists>L'. ListUnlink demo_heap demo_list 99 None True = Some (0, demo_heap, L'))"
  using ListUnlink_correct [OF demo_represents, of 30 None True]
    ListUnlink_correct [OF demo_represents, of 99 None True]
  by (auto simp: demo_alist_def a_find_def matches_def remove_nth_def cursor_after_removal_def demo_heap_def)

text \<open>C3: Emptying a well-formed list always terminates, deallocates every list element, frees every
  non-null content exactly once, in list order, and leaves the freshly initialised list, which is
  well formed and empty, so that it can be used again.  Freeing without contents deallocates the
  elements and no content.\<close>

theorem ListEmpty_frees_each_once:
  assumes "represents h L as l"
  shows "(\<exists>h'. ListEmpty h L = Some (h', ListZero) \<and> ListFree h L = Some h' \<and>
     represents h' ListZero [] empty_alist \<and> (\<forall>a\<in>set as. elems h' a = None) \<and>
     freed h' = freed h @ filter (\<lambda>c. c \<noteq> NULL) (items l)) \<and>
     (\<exists>h'. ListFreeNoContent h L = Some h' \<and> (\<forall>a\<in>set as. elems h' a = None) \<and>
     freed h' = freed h)"
  using ListEmpty_refines [OF assms] ListEmpty_loop_frees [of h NULL as L False] representsD [OF assms]
  by (auto simp: ListFree_def ListFreeNoContent_def)

theorem ListEmpty_frees_each_once_witness:
  "\<exists>h'. ListEmpty demo_heap demo_list = Some (h', ListZero) \<and> freed h' = [10, 20, 30] \<and> elems h' 2 = None"
  using ListEmpty_frees_each_once [OF demo_represents] by (auto simp: demo_alist_def demo_heap_def)

end
