(* ===== verification/KeyedTable.thy ===== *)
theory KeyedTable
  imports LinkedList
begin

text \<open>
  Lists used as tables.  The client keeps its read queues and interrupted writes by socket, its
  in-flight messages by message id and its clients by socket, all in linked lists searched with a
  comparison callback.  This theory states what such a table promises as the locale
  \<open>keyed_table\<close>, proves once that an entry survives any traffic on other keys, and shows that a
  list whose keys are distinct keeps the promise.  The component theories interpret the locale on
  their own operations.
\<close>

section \<open>The contract of a table\<close>

datatype ('k, 'v) table_op = Put 'k 'v | Del 'k

fun op_key :: "('k, 'v) table_op \<Rightarrow> 'k" where
  "op_key (Put k v) = k"
| "op_key (Del k) = k"

locale keyed_table =
  fixes ok :: "'t \<Rightarrow> bool"
    and lookup :: "'t \<Rightarrow> 'k \<Rightarrow> 'v option"
    and put :: "'k \<Rightarrow> 'v \<Rightarrow> 't \<Rightarrow> 't"
    and del :: "'k \<Rightarrow> 't \<Rightarrow> 't"
    and fits :: "'k \<Rightarrow> 'v \<Rightarrow> bool"
  assumes ok_put: "ok t \<Longrightarrow> fits k v \<Longrightarrow> lookup t k = None \<Longrightarrow> ok (put k v t)"
    and lookup_put: "ok t \<Longrightarrow> fits k v \<Longrightarrow> lookup t k = None \<Longrightarrow>
      lookup (put k v t) k' = (if k' = k then Some v else lookup t k')"
    and ok_del: "ok t \<Longrightarrow> ok (del k t)"
    and lookup_del: "ok t \<Longrightarrow> lookup (del k t) k' = (if k' = k then None else lookup t k')"
begin

fun step :: "('k, 'v) table_op \<Rightarrow> 't \<Rightarrow> 't" where
  "step (Put k v) t = put k v t"
| "step (Del k) t = del k t"

fun admissible :: "('k, 'v) table_op list \<Rightarrow> 't \<Rightarrow> bool" where
  "admissible [] t = True"
| "admissible (c # cs) t =
     ((case c of Put k v \<Rightarrow> fits k v \<and> lookup t k = None | Del _ \<Rightarrow> True) \<and> admissible cs (step c t))"

lemma ok_step: "ok t \<Longrightarrow> admissible [c] t \<Longrightarrow> ok (step c t)"
  by (cases c) (auto intro: ok_put ok_del)

lemma lookup_step_other: "ok t \<Longrightarrow> admissible [c] t \<Longrightarrow> op_key c \<noteq> k \<Longrightarrow> lookup (step c t) k = lookup t k"
  by (cases c) (auto simp: lookup_put lookup_del)

lemma undisturbed:
  "ok t \<Longrightarrow> admissible cs t \<Longrightarrow> k \<notin> op_key ` set cs \<Longrightarrow>
   ok (fold step cs t) \<and> lookup (fold step cs t) k = lookup t k"
proof (induction cs arbitrary: t)
  case (Cons c cs)
  have "admissible [c] t" "ok (step c t)"
    using Cons.prems ok_step [of t c] by (auto split: table_op.splits)
  with Cons.IH [of "step c t"] Cons.prems lookup_step_other [of t c k] show ?case
    by auto
qed simp

text \<open>What was put is found again, unchanged, after any traffic on other keys, and can then be
  deleted exactly once.\<close>

lemma survives:
  assumes "ok t" "fits k v" "lookup t k = None" "admissible cs (put k v t)" "k \<notin> op_key ` set cs"
  defines "u \<equiv> fold step cs (put k v t)"
  shows "ok u" "lookup u k = Some v" "ok (del k u)" "lookup (del k u) k = None"
  using undisturbed [OF ok_put [OF assms(1-3)] assms(4,5)] assms(1-3) ok_del [of u k]
  by (auto simp: u_def lookup_put lookup_del)

end

section \<open>A linked list searched by key\<close>

definition table_ok :: "('c \<Rightarrow> 'k) \<Rightarrow> 'c alist \<Rightarrow> bool" where
  "table_ok key l \<longleftrightarrow> alist_ok l \<and> distinct (map key (items l))"

definition key_lookup :: "('c \<Rightarrow> 'k) \<Rightarrow> 'c alist \<Rightarrow> 'k \<Rightarrow> 'c option" where
  "key_lookup key l k = find (\<lambda>x. key x = k) (items l)"

lemma find_index_find: "map_option ((!) xs) (find_index P xs) = find P xs"
  by (induction xs) (auto simp: option.map_comp comp_def)

lemma find_by_key:
  assumes "distinct (map key xs)"
  shows "find (\<lambda>x. key x = k) xs = Some x \<longleftrightarrow> x \<in> set xs \<and> key x = k"
  using assms by (induction xs) (auto simp: image_iff)

lemma find_by_key_None: "find (\<lambda>x. key x = k) xs = None \<longleftrightarrow> k \<notin> key ` set xs"
  by (auto simp: find_None_iff)

lemma table_ok_empty [simp]: "table_ok key empty_alist"
  by (simp add: table_ok_def alist_ok_def empty_alist_def)

lemma key_lookup_empty [simp]: "key_lookup key empty_alist k = None"
  by (simp add: key_lookup_def empty_alist_def)

text \<open>Searching moves the cursor to the entry and changes nothing else.\<close>

lemma a_find_key:
  assumes "table_ok key l"
  obtains (missing) "a_find (\<lambda>x. key x = k) l = (None, l)" "key_lookup key l k = None"
  | (found) j where "a_find (\<lambda>x. key x = k) l = (Some j, l\<lparr>cursor := Some j\<rparr>)" "j < length (items l)"
      "key_lookup key l k = Some (items l ! j)" "key (items l ! j) = k"
proof (cases "key_lookup key l k")
  case None
  then have no: "\<forall>x\<in>set (items l). key x \<noteq> k"
    by (auto simp: key_lookup_def find_None_iff)
  then have "find_index (\<lambda>x. key x = k) (items l) = None"
    by (simp add: find_index_None)
  moreover have "\<not> (case cursor l of None \<Rightarrow> False | Some i \<Rightarrow> key (items l ! i) = k)"
    using no assms by (auto simp: table_ok_def alist_ok_def split: option.splits)
  ultimately show ?thesis using None missing by (simp add: a_find_def)
next
  case (Some x)
  then have x: "x \<in> set (items l)" "key x = k"
    using assms by (auto simp: key_lookup_def table_ok_def find_by_key)
  show ?thesis
  proof (cases "case cursor l of None \<Rightarrow> False | Some i \<Rightarrow> key (items l ! i) = k")
    case True
    then obtain i where i: "cursor l = Some i" "key (items l ! i) = k" by (auto split: option.splits)
    then have "i < length (items l)" "l\<lparr>cursor := Some i\<rparr> = l"
      using assms by (auto simp: table_ok_def alist_ok_def)
    moreover from this have "key_lookup key l k = Some (items l ! i)"
      using i assms by (simp add: key_lookup_def table_ok_def find_by_key)
    ultimately show ?thesis using found [of i] i by (simp add: a_find_def)
  next
    case False
    obtain j where j: "find_index (\<lambda>x. key x = k) (items l) = Some j"
      using x by (cases "find_index (\<lambda>x. key x = k) (items l)") (auto simp: find_index_None)
    with find_index_SomeD [OF j] False found [of j] show ?thesis
      using find_index_find [of "items l" "\<lambda>x. key x = k"] by (simp add: a_find_def key_lookup_def)
  qed
qed

lemma table_ok_cursor [simp]:
  "table_ok key l \<Longrightarrow> j < length (items l) \<Longrightarrow> table_ok key (l\<lparr>cursor := Some j\<rparr>)"
  by (simp add: table_ok_def alist_ok_def)

lemma key_lookup_cursor [simp]: "key_lookup key (l\<lparr>cursor := c\<rparr>) k = key_lookup key l k"
  by (simp add: key_lookup_def)

lemma table_ok_append:
  assumes "table_ok key l" "key_lookup key l (key x) = None"
  shows "table_ok key (a_append x l)"
  using assms
  by (auto simp: table_ok_def a_append_def alist_ok_def key_lookup_def find_by_key_None split: option.splits)

lemma key_lookup_append:
  assumes "key_lookup key l (key x) = None"
  shows "key_lookup key (a_append x l) k = (if k = key x then Some x else key_lookup key l k)"
proof -
  have "find P (xs @ [x]) = (case find P xs of None \<Rightarrow> if P x then Some x else None | Some y \<Rightarrow> Some y)" for P xs
    by (induction xs) auto
  with assms show ?thesis
    by (auto simp: key_lookup_def a_append_def split: option.splits)
qed

text \<open>Unlinking by key takes the entry out, whatever the cursor is on.\<close>

lemma remove_nth_filter:
  assumes "distinct (map key xs)" "j < length xs"
  shows "remove_nth j xs = filter (\<lambda>x. key x \<noteq> key (xs ! j)) xs"
proof -
  have xs: "xs = take j xs @ xs ! j # drop (Suc j) xs" using assms(2) by (rule id_take_nth_drop)
  with assms(1) have "distinct (map key (take j xs @ xs ! j # drop (Suc j) xs))" by simp
  then have "\<forall>x\<in>set (take j xs) \<union> set (drop (Suc j) xs). key x \<noteq> key (xs ! j)"
    by (auto simp: image_iff)
  then have "filter (\<lambda>x. key x \<noteq> key (xs ! j)) (take j xs @ xs ! j # drop (Suc j) xs) = take j xs @ drop (Suc j) xs"
    by simp
  with xs show ?thesis by (simp add: remove_nth_def)
qed

lemma cursor_after_removal_ok:
  "alist_ok l \<Longrightarrow> j < length (items l) \<Longrightarrow>
   alist_ok \<lparr>items = remove_nth j (items l), cursor = cursor_after_removal (length (items l)) j (cursor l)\<rparr>"
  by (auto simp: alist_ok_def cursor_after_removal_def remove_nth_def split: option.splits)

lemma a_unlink_key:
  assumes "table_ok key l"
  shows "fst (a_unlink (\<lambda>x. key x = k) l) = key_lookup key l k"
    "items (snd (a_unlink (\<lambda>x. key x = k) l)) = filter (\<lambda>x. key x \<noteq> k) (items l)"
    "table_ok key (snd (a_unlink (\<lambda>x. key x = k) l))"
proof -
  have "fst (a_unlink (\<lambda>x. key x = k) l) = key_lookup key l k \<and>
    items (snd (a_unlink (\<lambda>x. key x = k) l)) = filter (\<lambda>x. key x \<noteq> k) (items l) \<and>
    table_ok key (snd (a_unlink (\<lambda>x. key x = k) l))"
  proof (rule a_find_key [OF assms, of k])
    assume none: "a_find (\<lambda>x. key x = k) l = (None, l)" "key_lookup key l k = None"
    then have "filter (\<lambda>x. key x \<noteq> k) (items l) = items l"
      by (auto simp: key_lookup_def find_None_iff filter_id_conv)
    with none assms show ?thesis by (simp add: a_unlink_def)
  next
    fix j
    assume j: "a_find (\<lambda>x. key x = k) l = (Some j, l\<lparr>cursor := Some j\<rparr>)" "j < length (items l)"
      "key_lookup key l k = Some (items l ! j)" "key (items l ! j) = k"
    have "remove_nth j (items l) = filter (\<lambda>x. key x \<noteq> k) (items l)"
      using remove_nth_filter [of key "items l" j] j assms by (simp add: table_ok_def)
    moreover have "alist_ok (snd (a_unlink (\<lambda>x. key x = k) l))"
      using cursor_after_removal_ok [of l j] j assms by (simp add: a_unlink_def table_ok_def)
    ultimately show ?thesis
      using j assms by (simp add: a_unlink_def table_ok_def distinct_map_filter)
  qed
  then show "fst (a_unlink (\<lambda>x. key x = k) l) = key_lookup key l k"
    "items (snd (a_unlink (\<lambda>x. key x = k) l)) = filter (\<lambda>x. key x \<noteq> k) (items l)"
    "table_ok key (snd (a_unlink (\<lambda>x. key x = k) l))" by blast+
qed

lemma find_filter_key:
  "find (\<lambda>x. key x = k') (filter (\<lambda>x. key x \<noteq> k) xs) = (if k' = k then None else find (\<lambda>x. key x = k') xs)"
  by (induction xs) auto

lemma key_lookup_unlink:
  assumes "table_ok key l"
  shows "key_lookup key (snd (a_unlink (\<lambda>x. key x = k) l)) k' = (if k' = k then None else key_lookup key l k')"
  using a_unlink_key(2) [OF assms, of k] by (simp add: key_lookup_def find_filter_key)

text \<open>A list of entries with distinct keys is a table.\<close>

interpretation by_key: keyed_table "table_ok (fst :: nat \<times> 'v \<Rightarrow> nat)" "\<lambda>t k. map_option snd (key_lookup fst t k)"
    "\<lambda>k v. a_append (k, v)" "\<lambda>k t. snd (a_unlink (\<lambda>x. fst x = k) t)" "\<lambda>k v. True"
  by unfold_locales (auto simp: table_ok_append key_lookup_append a_unlink_key(3) key_lookup_unlink)

text \<open>The current entry, through which the code reads and updates what it has just found.\<close>

definition a_current :: "'c alist \<Rightarrow> 'c option" where
  "a_current l = map_option ((!) (items l)) (cursor l)"

definition a_set_current :: "'c \<Rightarrow> 'c alist \<Rightarrow> 'c alist" where
  "a_set_current x l = (case cursor l of None \<Rightarrow> l | Some i \<Rightarrow> l\<lparr>items := (items l)[i := x]\<rparr>)"

lemma a_current_Some [simp]: "a_current (l\<lparr>cursor := Some j\<rparr>) = Some (items l ! j)"
  by (simp add: a_current_def)

lemma table_ok_set_current:
  assumes "table_ok key l" "a_current l = Some y" "key x = key y"
  shows "table_ok key (a_set_current x l)"
proof -
  obtain i where i: "cursor l = Some i" "items l ! i = y" "i < length (items l)"
    using assms(1,2) by (auto simp: a_current_def table_ok_def alist_ok_def)
  have "map key ((items l)[i := x]) = map key (items l)"
    using i assms(3) by (simp add: map_update list_update_same_conv)
  with i assms(1) show ?thesis
    by (simp add: a_set_current_def table_ok_def alist_ok_def)
qed

lemma key_lookup_set_current:
  assumes "table_ok key l" "a_current l = Some y" "key x = key y"
  shows "key_lookup key (a_set_current x l) k = (if k = key x then Some x else key_lookup key l k)"
proof -
  obtain i where i: "cursor l = Some i" "items l ! i = y" "i < length (items l)"
    using assms(1,2) by (auto simp: a_current_def table_ok_def alist_ok_def)
  have upd: "items l = take i (items l) @ y # drop (Suc i) (items l)"
    "(items l)[i := x] = take i (items l) @ x # drop (Suc i) (items l)"
    using id_take_nth_drop [OF i(3)] i(2,3) by (simp_all add: upd_conv_take_nth_drop)
  have d: "distinct (map key ((items l)[i := x]))" "distinct (map key (items l))"
    using table_ok_set_current [OF assms] assms(1) i(1) by (simp_all add: table_ok_def a_set_current_def)
  have iff: "find (\<lambda>z. key z = k) ((items l)[i := x]) = Some z \<longleftrightarrow>
      (if k = key x then z = x else find (\<lambda>z. key z = k) (items l) = Some z)" for z
    unfolding find_by_key [OF d(1)] find_by_key [OF d(2)]
  proof -
    have "z \<in> set ((items l)[i := x]) \<and> key z = k \<longleftrightarrow>
      z \<in> set (take i (items l)) \<union> set (drop (Suc i) (items l)) \<and> key z = k \<or> z = x \<and> key z = k"
      unfolding upd(2) by auto
    moreover have "z \<in> set (items l) \<and> key z = k \<longleftrightarrow>
      z \<in> set (take i (items l)) \<union> set (drop (Suc i) (items l)) \<and> key z = k \<or> z = y \<and> key z = k"
      by (subst upd(1)) auto
    moreover have "key u \<noteq> key x" if "u \<in> set (take i (items l)) \<union> set (drop (Suc i) (items l))" for u
      using that d(1) unfolding upd(2) by (auto simp: image_iff)
    ultimately show "(z \<in> set ((items l)[i := x]) \<and> key z = k) =
        (if k = key x then z = x else z \<in> set (items l) \<and> key z = k)"
      using assms(3) by auto
  qed
  have "find (\<lambda>z. key z = k) ((items l)[i := x]) =
      (if k = key x then Some x else find (\<lambda>z. key z = k) (items l))"
  proof (cases "find (\<lambda>z. key z = k) ((items l)[i := x])")
    case None
    then show ?thesis
      using iff [of x] iff [of "the (find (\<lambda>z. key z = k) (items l))"]
      by (cases "find (\<lambda>z. key z = k) (items l)") (auto split: if_splits)
  next
    case (Some a)
    then show ?thesis using iff [of a] by (auto split: if_splits)
  qed
  with i(1) show ?thesis by (simp add: key_lookup_def a_set_current_def)
qed

end
