(* ===== verification/SocketBuffer.thy ===== *)
theory SocketBuffer
  imports KeyedTable
begin

text \<open>
  \<^verbatim>\<open>src/src/utils/SocketBuffer.c\<close>: what the client keeps between two attempts to read or write a
  non-blocking socket.  A partly read packet lives in a \<open>socket_queue\<close> (the header bytes it has
  seen and the data it has seen), a partly written one in a \<open>pending_writes\<close>.  The module's three
  static variables are the record \<open>sockbuf\<close>; its lists are the abstract lists that
  \<^verbatim>\<open>LinkedList\<close> proves the code's lists to be.  \<open>mallocs\<close> is the script of allocation answers.
\<close>

section \<open>State\<close>

record socket_queue =
  q_socket :: int
  q_index :: nat
  q_headerlen :: nat
  q_header :: mem
  q_buflen :: nat
  q_datalen :: nat
  q_buf :: "mem option"

text \<open>An \<open>iovec\<close> is an address in the byte memory and a length; a \<open>pending_writes\<close> has room for
  five of them.\<close>

record iobuf =
  iov_base :: ptr
  iov_len :: nat

record pending_writes =
  pw_socket :: int
  pw_count :: nat
  pw_total :: nat
  pw_bytes :: nat
  pw_iovecs :: "iobuf list"
  pw_frees :: "bool list"

text \<open>\<open>queues\<close> is \<open>None\<close> before it is allocated and after it is freed, \<open>def_queue\<close> when it is null
  or its allocation was left unfinished.\<close>

record sockbuf =
  def_queue :: "socket_queue option"
  queues :: "socket_queue alist option"
  writes :: "pending_writes alist"
  mallocs :: mallocs

text \<open>Which queue a local variable \<open>queue\<close> of the code points to: the default queue, or the entry
  of \<open>queues\<close> that has just been found, which is the current one.\<close>

datatype qref = DefQueue | Queued

definition get_queue :: "qref \<Rightarrow> sockbuf \<Rightarrow> socket_queue option" where
  "get_queue r s = (case r of DefQueue \<Rightarrow> def_queue s | Queued \<Rightarrow> do { l \<leftarrow> queues s; a_current l })"

definition set_queue :: "qref \<Rightarrow> socket_queue \<Rightarrow> sockbuf \<Rightarrow> sockbuf" where
  "set_queue r q s = (case r of DefQueue \<Rightarrow> s\<lparr>def_queue := Some q\<rparr>
     | Queued \<Rightarrow> s\<lparr>queues := map_option (a_set_current q) (queues s)\<rparr>)"

section \<open>Read queues\<close>

definition socketcompare :: "socket_queue \<Rightarrow> int \<Rightarrow> bool" where
  "socketcompare a b = (q_socket a = b)"

text \<open>\<open>ListFindItem(queues, &socket, socketcompare)\<close>.\<close>

definition find_queue :: "int \<Rightarrow> sockbuf \<Rightarrow> (bool \<times> sockbuf) option" where
  "find_queue socket s = do {
     l \<leftarrow> queues s;
     let (found, l) = a_find (\<lambda>q. socketcompare q socket) l;
     Some (found \<noteq> None, s\<lparr>queues := Some l\<rparr>)
   }"

definition SocketBuffer_newDefQ :: "sockbuf \<Rightarrow> int \<times> sockbuf" where
  "SocketBuffer_newDefQ s =
     (let (ok, ms) = next_malloc (mallocs s) in
      if \<not> ok then (PAHO_MEMORY_ERROR, s\<lparr>def_queue := None, mallocs := ms\<rparr>)
      else
        let (ok, ms) = next_malloc ms in
        if \<not> ok then (PAHO_MEMORY_ERROR, s\<lparr>def_queue := None, mallocs := ms\<rparr>)
        else (0, s\<lparr>def_queue := Some \<lparr>q_socket = 0, q_index = 0, q_headerlen = 0, q_header = raw_mem 5,
                   q_buflen = 0, q_datalen = 0, q_buf = Some (raw_mem 1000)\<rparr>, mallocs := ms\<rparr>))"

definition SocketBuffer_initialize :: "sockbuf \<Rightarrow> int \<times> sockbuf" where
  "SocketBuffer_initialize s =
     (let (rc, s) = SocketBuffer_newDefQ s;
          (rc, s) = (if rc = 0 then
                       let (ok, ms) = next_malloc (mallocs s) in
                       if ok then (rc, s\<lparr>queues := Some empty_alist, mallocs := ms\<rparr>)
                       else (PAHO_MEMORY_ERROR, s\<lparr>queues := None, mallocs := ms\<rparr>)
                     else (rc, s))
      in (rc, s\<lparr>writes := empty_alist\<rparr>))"

definition SocketBuffer_freeDefQ :: "sockbuf \<Rightarrow> sockbuf option" where
  "SocketBuffer_freeDefQ s = do { q \<leftarrow> def_queue s; Some (s\<lparr>def_queue := None\<rparr>) }"

definition SocketBuffer_terminate :: "sockbuf \<Rightarrow> sockbuf option" where
  "SocketBuffer_terminate s = do {
     let s = s\<lparr>writes := empty_alist\<rparr>;
     l \<leftarrow> queues s;
     SocketBuffer_freeDefQ (s\<lparr>queues := None\<rparr>)
   }"

text \<open>The returned buffer is the one of the queue the result names; \<open>actual_len\<close> is the second
  component.  When the queue already holds data and has to grow, the code allocates new memory,
  frees the old and copies the new memory onto itself: the data is gone.\<close>

definition SocketBuffer_getQueuedData :: "int \<Rightarrow> nat \<Rightarrow> sockbuf \<Rightarrow> (qref \<times> nat \<times> sockbuf) option" where
  "SocketBuffer_getQueuedData socket bytes s = do {
     (found, s) \<leftarrow> find_queue socket s;
     let r = (if found then Queued else DefQueue);
     q \<leftarrow> get_queue r s;
     let actual_len = (if found then q_datalen q else 0);
     if bytes > q_buflen q then
       let (ok, ms) = next_malloc (mallocs s); s = s\<lparr>mallocs := ms\<rparr> in
       if q_datalen q > 0 then
         if \<not> ok then Some (r, actual_len, set_queue r (q\<lparr>q_buf := None\<rparr>) s)
         else Some (r, actual_len, set_queue r (q\<lparr>q_buf := Some (raw_mem bytes), q_buflen := bytes\<rparr>) s)
       else
         let m = (if ok then Some (case q_buf q of None \<Rightarrow> raw_mem bytes | Some m \<Rightarrow> resize_mem m bytes)
                  else None)
         in Some (r, actual_len, set_queue r (q\<lparr>q_buf := m, q_buflen := bytes\<rparr>) s)
     else Some (r, actual_len, s)
   }"

definition SocketBuffer_getQueuedChar :: "int \<Rightarrow> sockbuf \<Rightarrow> (int \<times> byte option \<times> sockbuf) option" where
  "SocketBuffer_getQueuedChar socket s = do {
     (found, s) \<leftarrow> find_queue socket s;
     if found then do {
       q \<leftarrow> get_queue Queued s;
       if q_index q < q_headerlen q then do {
         c \<leftarrow> load_bytes (q_header q) (q_index q) 1;
         Some (SOCKETBUFFER_COMPLETE, Some (hd c), set_queue Queued (q\<lparr>q_index := q_index q + 1\<rparr>) s)
       }
       else if q_index q > 4 then Some (SOCKET_ERROR, None, s)
       else Some (SOCKETBUFFER_INTERRUPTED, None, s)
     }
     else Some (SOCKETBUFFER_INTERRUPTED, None, s)
   }"

definition SocketBuffer_interrupted :: "int \<Rightarrow> nat \<Rightarrow> sockbuf \<Rightarrow> sockbuf option" where
  "SocketBuffer_interrupted socket actual_len s = do {
     (found, s) \<leftarrow> find_queue socket s;
     if found then do {
       q \<leftarrow> get_queue Queued s;
       Some (set_queue Queued (q\<lparr>q_index := 0, q_datalen := actual_len\<rparr>) s)
     }
     else do {
       q \<leftarrow> def_queue s;
       l \<leftarrow> queues s;
       let q = q\<lparr>q_socket := socket, q_index := 0, q_datalen := actual_len\<rparr>;
       let (ok, ms) = next_malloc (mallocs s);
       let s = (if ok then s\<lparr>queues := Some (a_append q l), mallocs := ms\<rparr> else s\<lparr>mallocs := ms\<rparr>);
       Some (snd (SocketBuffer_newDefQ s))
     }
   }"

text \<open>The result is the buffer of the default queue after the call.\<close>

definition SocketBuffer_complete :: "int \<Rightarrow> sockbuf \<Rightarrow> (mem option \<times> sockbuf) option" where
  "SocketBuffer_complete socket s = do {
     (found, s) \<leftarrow> find_queue socket s;
     s \<leftarrow> (if found then do {
            q \<leftarrow> get_queue Queued s;
            s \<leftarrow> SocketBuffer_freeDefQ s;
            l \<leftarrow> queues s;
            Some (s\<lparr>def_queue := Some q, queues := Some (snd (a_unlink (\<lambda>x. x = q) l))\<rparr>)
          }
          else Some s);
     d \<leftarrow> def_queue s;
     let d = d\<lparr>q_socket := 0, q_index := 0, q_headerlen := 0, q_datalen := 0\<rparr>;
     Some (q_buf d, s\<lparr>def_queue := Some d\<rparr>)
   }"

definition SocketBuffer_queueChar :: "int \<Rightarrow> byte \<Rightarrow> sockbuf \<Rightarrow> sockbuf option" where
  "SocketBuffer_queueChar socket c s = do {
     (found, s) \<leftarrow> find_queue socket s;
     (r, error, s) \<leftarrow>
       (if found then Some (Queued, False, s)
        else do {
          d \<leftarrow> def_queue s;
          if q_socket d = 0 then
            Some (DefQueue, False, s\<lparr>def_queue := Some (d\<lparr>q_socket := socket, q_index := 0, q_datalen := 0\<rparr>)\<rparr>)
          else Some (DefQueue, q_socket d \<noteq> socket, s)
        });
     q \<leftarrow> get_queue r s;
     if error \<or> q_index q > 4 then Some s
     else do {
       hdr \<leftarrow> store_bytes (q_header q) (q_index q) [c];
       Some (set_queue r (q\<lparr>q_header := hdr, q_index := q_index q + 1, q_headerlen := q_index q + 1\<rparr>) s)
     }
   }"

section \<open>Interrupted writes\<close>

definition pending_socketcompare :: "pending_writes \<Rightarrow> int \<Rightarrow> bool" where
  "pending_socketcompare a b = (pw_socket a = b)"

definition SocketBuffer_pendingWrite ::
  "int \<Rightarrow> nat \<Rightarrow> iobuf list \<Rightarrow> bool list \<Rightarrow> nat \<Rightarrow> nat \<Rightarrow> sockbuf \<Rightarrow> (int \<times> sockbuf) option" where
  "SocketBuffer_pendingWrite socket count iovecs frees tot bytes s =
     (let (ok, ms) = next_malloc (mallocs s); s = s\<lparr>mallocs := ms\<rparr> in
      if \<not> ok then Some (PAHO_MEMORY_ERROR, s)
      else if count > 5 \<or> count > length iovecs \<or> count > length frees then None
      else
        let pw = \<lparr>pw_socket = socket, pw_count = count, pw_total = tot, pw_bytes = bytes,
                  pw_iovecs = take count iovecs, pw_frees = take count frees\<rparr>;
            (ok, ms) = next_malloc (mallocs s)
        in Some (0, if ok then s\<lparr>writes := a_append pw (writes s), mallocs := ms\<rparr> else s\<lparr>mallocs := ms\<rparr>))"

definition SocketBuffer_getWrite :: "int \<Rightarrow> sockbuf \<Rightarrow> pending_writes option \<times> sockbuf" where
  "SocketBuffer_getWrite socket s =
     (let (found, l) = a_find (\<lambda>w. pending_socketcompare w socket) (writes s)
      in (map_option ((!) (items l)) found, s\<lparr>writes := l\<rparr>))"

definition SocketBuffer_writeComplete :: "int \<Rightarrow> sockbuf \<Rightarrow> bool \<times> sockbuf" where
  "SocketBuffer_writeComplete socket s =
     (let (found, l) = a_unlink (\<lambda>w. pending_socketcompare w socket) (writes s)
      in (found \<noteq> None, s\<lparr>writes := l\<rparr>))"

text \<open>The arguments are the addresses of the topic and the payload.\<close>

definition SocketBuffer_updateWrite ::
  "int \<Rightarrow> ptr \<Rightarrow> ptr \<Rightarrow> sockbuf \<Rightarrow> pending_writes option \<times> sockbuf" where
  "SocketBuffer_updateWrite socket topic payload s =
     (let (found, l) = a_find (\<lambda>w. pending_socketcompare w socket) (writes s)
      in case found of
           None \<Rightarrow> (None, s\<lparr>writes := l\<rparr>)
         | Some j \<Rightarrow>
             let pw = items l ! j;
                 pw = (if pw_count pw = 4
                       then pw\<lparr>pw_iovecs := (pw_iovecs pw)
                              [2 := (pw_iovecs pw ! 2)\<lparr>iov_base := topic\<rparr>,
                               3 := (pw_iovecs pw ! 3)\<lparr>iov_base := payload\<rparr>]\<rparr>
                       else pw)
             in (Some pw, s\<lparr>writes := a_set_current pw l\<rparr>))"

section \<open>Clean-up of one socket\<close>

definition SocketBuffer_cleanup :: "int \<Rightarrow> sockbuf \<Rightarrow> sockbuf option" where
  "SocketBuffer_cleanup socket s = do {
     let (_, s) = SocketBuffer_writeComplete socket s;
     (found, s) \<leftarrow> find_queue socket s;
     s \<leftarrow> (if found then do {
            q \<leftarrow> get_queue Queued s;
            l \<leftarrow> queues s;
            Some (s\<lparr>queues := Some (snd (a_unlink (\<lambda>x. x = q) l))\<rparr>)
          }
          else Some s);
     d \<leftarrow> def_queue s;
     Some (if q_socket d = socket
           then s\<lparr>def_queue := Some (d\<lparr>q_socket := 0, q_index := 0, q_headerlen := 0, q_datalen := 0\<rparr>)\<rparr>
           else s)
   }"

section \<open>The queues as a map from sockets\<close>

text \<open>\<open>buffered b f d\<close>: the read queues are the finite map \<open>f\<close>, the default queue is \<open>d\<close>, and
  allocation is not going to fail.\<close>

definition buffered :: "sockbuf \<Rightarrow> (int \<Rightarrow> socket_queue option) \<Rightarrow> socket_queue \<Rightarrow> bool" where
  "buffered b f d \<longleftrightarrow> def_queue b = Some d \<and> mallocs b = [] \<and>
     (\<exists>l. queues b = Some l \<and> table_ok q_socket l \<and> key_lookup q_socket l = f)"

lemma buffered_socket: "buffered b f d \<Longrightarrow> f k = Some q \<Longrightarrow> q_socket q = k"
  by (auto simp: buffered_def key_lookup_def table_ok_def find_by_key)

lemma find_queue_missing:
  assumes "buffered b f d" "f k = None"
  shows "find_queue k b = Some (False, b)"
proof -
  obtain l where l: "queues b = Some l" "table_ok q_socket l" "key_lookup q_socket l = f"
    using assms(1) by (auto simp: buffered_def)
  show ?thesis
    by (rule a_find_key [OF l(2), of k]) (use l assms(2) in \<open>auto simp: find_queue_def socketcompare_def\<close>)
qed

lemma find_queue_found:
  assumes "buffered b f d" "f k = Some q"
  shows "\<exists>b'. find_queue k b = Some (True, b') \<and> buffered b' f d \<and> get_queue Queued b' = Some q"
proof -
  obtain l where l: "queues b = Some l" "table_ok q_socket l" "key_lookup q_socket l = f"
    using assms(1) by (auto simp: buffered_def)
  show ?thesis
  proof (rule a_find_key [OF l(2), of k])
    assume "key_lookup q_socket l k = None"
    with l(3) assms(2) show ?thesis by simp
  next
    fix j
    assume j: "a_find (\<lambda>x. q_socket x = k) l = (Some j, l\<lparr>cursor := Some j\<rparr>)" "j < length (items l)"
      "key_lookup q_socket l k = Some (items l ! j)"
    have "key_lookup q_socket (l\<lparr>cursor := Some j\<rparr>) = f" using l(3) by (intro ext) simp
    with j l assms show ?thesis
      by (auto simp: find_queue_def socketcompare_def buffered_def get_queue_def)
  qed
qed

lemma set_queued:
  assumes "buffered b f d" "get_queue Queued b = Some q" "q_socket q' = q_socket q"
  shows "buffered (set_queue Queued q' b) (f(q_socket q \<mapsto> q')) d"
    "get_queue Queued (set_queue Queued q' b) = Some q'"
proof -
  obtain l where l: "queues b = Some l" "table_ok q_socket l" "key_lookup q_socket l = f" "a_current l = Some q"
    using assms(1,2) by (auto simp: buffered_def get_queue_def)
  then obtain i where i: "cursor l = Some i" "i < length (items l)"
    by (auto simp: a_current_def table_ok_def alist_ok_def)
  have "key_lookup q_socket (a_set_current q' l) = f(q_socket q \<mapsto> q')"
    using key_lookup_set_current [OF l(2,4) assms(3)] l(3) assms(3) by (simp add: fun_eq_iff)
  with l assms(1) table_ok_set_current [OF l(2,4) assms(3)]
  show "buffered (set_queue Queued q' b) (f(q_socket q \<mapsto> q')) d"
    by (simp add: buffered_def set_queue_def)
  show "get_queue Queued (set_queue Queued q' b) = Some q'"
    using i l(1) by (simp add: set_queue_def get_queue_def a_current_def a_set_current_def)
qed

lemma set_default [simp]:
  "buffered b f d \<Longrightarrow> buffered (set_queue DefQueue d' b) f d'"
  "get_queue DefQueue (set_queue DefQueue d' b) = Some d'"
  "buffered b f d \<Longrightarrow> get_queue DefQueue b = Some d"
  "buffered b f d \<Longrightarrow> buffered (b\<lparr>def_queue := Some d'\<rparr>) f d'"
  by (auto simp: buffered_def set_queue_def get_queue_def)

text \<open>The default queue after \<open>SocketBuffer_newDefQ\<close>, and what makes a default queue unused.\<close>

definition fresh_queue :: socket_queue where
  "fresh_queue = \<lparr>q_socket = 0, q_index = 0, q_headerlen = 0, q_header = raw_mem 5,
     q_buflen = 0, q_datalen = 0, q_buf = Some (raw_mem 1000)\<rparr>"

definition unused :: "socket_queue \<Rightarrow> bool" where
  "unused d \<longleftrightarrow> q_socket d = 0 \<and> q_index d = 0 \<and> q_headerlen d = 0 \<and> q_datalen d = 0"

definition reset_queue :: "socket_queue \<Rightarrow> socket_queue" where
  "reset_queue q = q\<lparr>q_socket := 0, q_index := 0, q_headerlen := 0, q_datalen := 0\<rparr>"

lemma unused_reset [simp]: "unused (reset_queue q)" "unused fresh_queue"
  by (simp_all add: unused_def reset_queue_def fresh_queue_def)

lemma newDefQ_fresh: "mallocs b = [] \<Longrightarrow> SocketBuffer_newDefQ b = (0, b\<lparr>def_queue := Some fresh_queue, mallocs := []\<rparr>)"
  by (simp add: SocketBuffer_newDefQ_def fresh_queue_def)

subsection \<open>The operations on the map\<close>

lemma getQueuedChar_missing:
  assumes "buffered b f d" "f k = None"
  shows "SocketBuffer_getQueuedChar k b = Some (SOCKETBUFFER_INTERRUPTED, None, b)"
  by (simp add: SocketBuffer_getQueuedChar_def find_queue_missing [OF assms])

lemma getQueuedChar_seen:
  assumes b: "buffered b f d" "f k = Some q" and i: "q_index q < q_headerlen q"
    and c: "load_bytes (q_header q) (q_index q) 1 = Some [c]"
  shows "\<exists>b'. SocketBuffer_getQueuedChar k b = Some (SOCKETBUFFER_COMPLETE, Some c, b') \<and>
     buffered b' (f(k \<mapsto> q\<lparr>q_index := q_index q + 1\<rparr>)) d"
proof -
  obtain b1 where b1: "find_queue k b = Some (True, b1)" "buffered b1 f d" "get_queue Queued b1 = Some q"
    using find_queue_found [OF b] by blast
  from set_queued(1) [OF b1(2,3), of "q\<lparr>q_index := q_index q + 1\<rparr>"] b1 i c buffered_socket [OF b]
  show ?thesis by (simp add: SocketBuffer_getQueuedChar_def)
qed

lemma getQueuedChar_read:
  assumes b: "buffered b f d" "f k = Some q" and i: "q_index q \<ge> q_headerlen q" "q_index q \<le> 4"
  shows "\<exists>b'. SocketBuffer_getQueuedChar k b = Some (SOCKETBUFFER_INTERRUPTED, None, b') \<and> buffered b' f d"
  using find_queue_found [OF b] i by (auto simp: SocketBuffer_getQueuedChar_def)

lemma interrupted_queued:
  assumes b: "buffered b f d" "f k = Some q"
  shows "\<exists>b'. SocketBuffer_interrupted k al b = Some b' \<and>
     buffered b' (f(k \<mapsto> q\<lparr>q_index := 0, q_datalen := al\<rparr>)) d"
proof -
  obtain b1 where b1: "find_queue k b = Some (True, b1)" "buffered b1 f d" "get_queue Queued b1 = Some q"
    using find_queue_found [OF b] by blast
  from set_queued(1) [OF b1(2,3), of "q\<lparr>q_index := 0, q_datalen := al\<rparr>"] b1 buffered_socket [OF b]
  show ?thesis by (simp add: SocketBuffer_interrupted_def)
qed

lemma interrupted_default:
  assumes b: "buffered b f d" "f k = None"
  shows "\<exists>b'. SocketBuffer_interrupted k al b = Some b' \<and>
     buffered b' (f(k \<mapsto> d\<lparr>q_socket := k, q_index := 0, q_datalen := al\<rparr>)) fresh_queue"
proof -
  obtain l where l: "queues b = Some l" "table_ok q_socket l" "key_lookup q_socket l = f" "def_queue b = Some d" "mallocs b = []"
    using b(1) by (auto simp: buffered_def)
  let ?q = "d\<lparr>q_socket := k, q_index := 0, q_datalen := al\<rparr>"
  have none: "key_lookup q_socket l (q_socket ?q) = None" using l(3) b(2) by simp
  have "key_lookup q_socket (a_append ?q l) = f(k \<mapsto> ?q)"
    using key_lookup_append [OF none] l(3) by (auto simp: fun_eq_iff)
  with table_ok_append [OF l(2) none] l find_queue_missing [OF b] show ?thesis
    by (simp add: SocketBuffer_interrupted_def newDefQ_fresh buffered_def)
qed

lemma complete_missing:
  assumes b: "buffered b f d" "f k = None"
  shows "\<exists>b'. SocketBuffer_complete k b = Some (q_buf d, b') \<and> buffered b' f (reset_queue d)"
  using find_queue_missing [OF b] b(1)
  by (auto simp: SocketBuffer_complete_def buffered_def reset_queue_def)

lemma unlink_found:
  assumes l: "queues b = Some l" "table_ok q_socket l" "key_lookup q_socket l = f" "get_queue Queued b = Some q"
  shows "table_ok q_socket (snd (a_unlink (\<lambda>x. x = q) l))"
    "key_lookup q_socket (snd (a_unlink (\<lambda>x. x = q) l)) = f(q_socket q := None)"
proof -
  obtain i where i: "cursor l = Some i" "items l ! i = q" "i < length (items l)"
    using l(1,2,4) by (auto simp: get_queue_def a_current_def table_ok_def alist_ok_def)
  then have "a_unlink (\<lambda>x. x = q) l = a_unlink (\<lambda>x. q_socket x = q_socket q) l"
    by (simp add: a_unlink_def a_find_def)
  with a_unlink_key(3) [OF l(2)] key_lookup_unlink [OF l(2), of "q_socket q"] l(3)
  show "table_ok q_socket (snd (a_unlink (\<lambda>x. x = q) l))"
    "key_lookup q_socket (snd (a_unlink (\<lambda>x. x = q) l)) = f(q_socket q := None)"
    by (auto simp: fun_eq_iff)
qed

lemma complete_queued:
  assumes b: "buffered b f d" "f k = Some q"
  shows "\<exists>b'. SocketBuffer_complete k b = Some (q_buf q, b') \<and>
     buffered b' (f(k := None)) (reset_queue q)"
proof -
  obtain b1 where b1: "find_queue k b = Some (True, b1)" "buffered b1 f d" "get_queue Queued b1 = Some q"
    using find_queue_found [OF b] by blast
  obtain l where l: "queues b1 = Some l" "table_ok q_socket l" "key_lookup q_socket l = f" "def_queue b1 = Some d" "mallocs b1 = []"
    using b1(2) by (auto simp: buffered_def)
  from unlink_found [OF l(1-3) b1(3)] b1 l buffered_socket [OF b] show ?thesis
    by (auto simp: SocketBuffer_complete_def SocketBuffer_freeDefQ_def buffered_def reset_queue_def)
qed

lemma queueChar_queued:
  assumes b: "buffered b f d" "f k = Some q" and i: "q_index q \<le> 4"
    and h: "store_bytes (q_header q) (q_index q) [c] = Some hdr"
  shows "\<exists>b'. SocketBuffer_queueChar k c b = Some b' \<and>
     buffered b' (f(k \<mapsto> q\<lparr>q_header := hdr, q_index := q_index q + 1, q_headerlen := q_index q + 1\<rparr>)) d"
proof -
  obtain b1 where b1: "find_queue k b = Some (True, b1)" "buffered b1 f d" "get_queue Queued b1 = Some q"
    using find_queue_found [OF b] by blast
  from set_queued(1) [OF b1(2,3), of "q\<lparr>q_header := hdr, q_index := q_index q + 1, q_headerlen := q_index q + 1\<rparr>"]
    b1 i h buffered_socket [OF b]
  show ?thesis by (simp add: SocketBuffer_queueChar_def)
qed

lemma queueChar_default:
  assumes b: "buffered b f d" "f k = None" "k \<noteq> 0" and i: "q_index d \<le> 4"
    and who: "q_socket d = k \<or> unused d"
    and h: "store_bytes (q_header d) (q_index d) [c] = Some hdr"
  shows "\<exists>b'. SocketBuffer_queueChar k c b = Some b' \<and>
     buffered b' f (d\<lparr>q_socket := k, q_header := hdr, q_index := q_index d + 1, q_headerlen := q_index d + 1,
        q_datalen := (if q_socket d = 0 then 0 else q_datalen d)\<rparr>)"
proof (cases "q_socket d = 0")
  case True
  with who b(3) have "unused d" by simp
  with find_queue_missing [OF b(1,2)] b(1) i h True show ?thesis
    by (auto simp: SocketBuffer_queueChar_def buffered_def get_queue_def set_queue_def unused_def)
next
  case False
  with who have "q_socket d = k" by (auto simp: unused_def)
  moreover from this have "d\<lparr>q_socket := k, q_header := hdr, q_index := q_index d + 1, q_headerlen := q_index d + 1,
      q_datalen := q_datalen d\<rparr> = d\<lparr>q_header := hdr, q_index := q_index d + 1, q_headerlen := q_index d + 1\<rparr>"
    by simp
  ultimately show ?thesis
    using find_queue_missing [OF b(1,2)] b(1) i h False
    by (auto simp: SocketBuffer_queueChar_def buffered_def get_queue_def set_queue_def)
qed

text \<open>Room for \<open>bytes\<close> bytes: what \<open>SocketBuffer_getQueuedData\<close> does to the buffer of a queue that
  holds no data, or that is large enough.\<close>

definition grown :: "nat \<Rightarrow> socket_queue \<Rightarrow> socket_queue" where
  "grown n q = (if n > q_buflen q
     then q\<lparr>q_buf := Some (case q_buf q of None \<Rightarrow> raw_mem n | Some m \<Rightarrow> resize_mem m n), q_buflen := n\<rparr>
     else q)"

lemma grown_simps [simp]:
  "q_socket (grown n q) = q_socket q" "q_index (grown n q) = q_index q"
  "q_headerlen (grown n q) = q_headerlen q" "q_header (grown n q) = q_header q"
  "q_datalen (grown n q) = q_datalen q"
  by (simp_all add: grown_def)

lemma getQueuedData_default:
  assumes b: "buffered b f d" "f k = None" and e: "q_datalen d = 0"
  shows "\<exists>b'. SocketBuffer_getQueuedData k n b = Some (DefQueue, 0, b') \<and> buffered b' f (grown n d)"
  using find_queue_missing [OF b] b(1) e
  by (auto simp: SocketBuffer_getQueuedData_def buffered_def get_queue_def set_queue_def grown_def Let_def)

lemma getQueuedData_queued:
  assumes b: "buffered b f d" "f k = Some q" and e: "q_datalen q = 0 \<or> n \<le> q_buflen q"
  shows "\<exists>b'. SocketBuffer_getQueuedData k n b = Some (Queued, q_datalen q, b') \<and>
     buffered b' (f(k \<mapsto> grown n q)) d \<and> get_queue Queued b' = Some (grown n q)"
proof -
  obtain b1 where b1: "find_queue k b = Some (True, b1)" "buffered b1 f d" "get_queue Queued b1 = Some q"
    using find_queue_found [OF b] by blast
  have same: "f(k \<mapsto> q) = f" using b(2) by auto
  have ms: "mallocs b1 = []" using b1(2) by (auto simp: buffered_def)
  then have upd: "set_queue Queued q' (b1\<lparr>mallocs := []\<rparr>) = set_queue Queued q' b1" for q'
    by (cases b1) (simp add: set_queue_def)
  show ?thesis
  proof (cases "n > q_buflen q")
    case False
    then show ?thesis using b1 same
      by (auto simp: SocketBuffer_getQueuedData_def grown_def)
  next
    case True
    let ?m = "case q_buf q of None \<Rightarrow> raw_mem n | Some m \<Rightarrow> resize_mem m n"
    have g: "grown n q = q\<lparr>q_buf := Some ?m, q_buflen := n\<rparr>" using True by (simp add: grown_def)
    have "q_datalen q = 0" using e True by simp
    then have "SocketBuffer_getQueuedData k n b = Some (Queued, q_datalen q, set_queue Queued (grown n q) b1)"
      unfolding SocketBuffer_getQueuedData_def g using True b1 ms upd by (simp add: Let_def)
    with set_queued [OF b1(2,3), of "grown n q"] buffered_socket [OF b] show ?thesis by simp
  qed
qed

text \<open>Initialisation brings the module into a state with no queue and an unused default queue.\<close>

lemma initialize_buffered:
  "mallocs b = [] \<Longrightarrow> \<exists>b'. SocketBuffer_initialize b = (0, b') \<and> buffered b' Map.empty fresh_queue \<and>
     writes b' = empty_alist"
  by (auto simp: SocketBuffer_initialize_def newDefQ_fresh buffered_def fun_eq_iff)

section \<open>Interrupted writes as a table by socket\<close>

definition writes_ok :: "sockbuf \<Rightarrow> bool" where
  "writes_ok s \<longleftrightarrow> table_ok pw_socket (writes s)"

definition write_lookup :: "sockbuf \<Rightarrow> int \<Rightarrow> pending_writes option" where
  "write_lookup s k = key_lookup pw_socket (writes s) k"

text \<open>\<open>SocketBuffer_pendingWrite\<close> as an update with a complete entry, and \<open>writeComplete\<close> as a
  deletion.\<close>

definition put_write :: "int \<Rightarrow> pending_writes \<Rightarrow> sockbuf \<Rightarrow> sockbuf" where
  "put_write k w s = (case SocketBuffer_pendingWrite k (pw_count w) (pw_iovecs w) (pw_frees w)
      (pw_total w) (pw_bytes w) s of None \<Rightarrow> s | Some (_, s') \<Rightarrow> s')"

definition write_fits :: "int \<Rightarrow> pending_writes \<Rightarrow> bool" where
  "write_fits k w \<longleftrightarrow> pw_socket w = k \<and> pw_count w \<le> 5 \<and>
     length (pw_iovecs w) = pw_count w \<and> length (pw_frees w) = pw_count w"

lemma pendingWrite_appends:
  assumes "mallocs s = []" "write_fits k w"
  shows "SocketBuffer_pendingWrite k (pw_count w) (pw_iovecs w) (pw_frees w) (pw_total w) (pw_bytes w) s
    = Some (0, s\<lparr>writes := a_append w (writes s), mallocs := []\<rparr>)"
  using assms by (cases w) (auto simp: SocketBuffer_pendingWrite_def write_fits_def Let_def)

lemma writeComplete_unlinks:
  "SocketBuffer_writeComplete k s =
     (fst (a_unlink (\<lambda>w. pw_socket w = k) (writes s)) \<noteq> None,
      s\<lparr>writes := snd (a_unlink (\<lambda>w. pw_socket w = k) (writes s))\<rparr>)"
  by (simp add: SocketBuffer_writeComplete_def pending_socketcompare_def split_beta)

lemma getWrite_finds:
  assumes "writes_ok s"
  shows "fst (SocketBuffer_getWrite k s) = write_lookup s k"
    "write_lookup (snd (SocketBuffer_getWrite k s)) = write_lookup s"
    "writes_ok (snd (SocketBuffer_getWrite k s))"
  by (rule a_find_key [OF assms [unfolded writes_ok_def], of k];
      use assms in \<open>simp add: SocketBuffer_getWrite_def pending_socketcompare_def write_lookup_def
        writes_ok_def fun_eq_iff\<close>)+

interpretation write_table: keyed_table "\<lambda>s. writes_ok s \<and> mallocs s = []" write_lookup put_write
    "\<lambda>k s. snd (SocketBuffer_writeComplete k s)" write_fits
proof unfold_locales
  fix s k w k'
  assume ok: "writes_ok s \<and> mallocs s = []" and fits: "write_fits k w" and new: "write_lookup s k = None"
  have key: "key_lookup pw_socket (writes s) (pw_socket w) = None"
    using new fits by (simp add: write_lookup_def write_fits_def)
  have put: "put_write k w s = s\<lparr>writes := a_append w (writes s), mallocs := []\<rparr>"
    using pendingWrite_appends [OF _ fits, of s] ok by (simp add: put_write_def)
  show "writes_ok (put_write k w s) \<and> mallocs (put_write k w s) = []"
    using put table_ok_append [OF _ key] ok by (simp add: writes_ok_def)
  show "write_lookup (put_write k w s) k' = (if k' = k then Some w else write_lookup s k')"
    using put key_lookup_append [OF key] fits by (simp add: write_lookup_def write_fits_def)
next
  fix s k k'
  assume ok: "writes_ok s \<and> mallocs s = []"
  then show "writes_ok (snd (SocketBuffer_writeComplete k s)) \<and> mallocs (snd (SocketBuffer_writeComplete k s)) = []"
    using a_unlink_key(3) [of pw_socket "writes s" k] by (simp add: writes_ok_def writeComplete_unlinks)
  show "write_lookup (snd (SocketBuffer_writeComplete k s)) k' = (if k' = k then None else write_lookup s k')"
    using ok key_lookup_unlink [of pw_socket "writes s" k k']
    by (simp add: write_lookup_def writes_ok_def writeComplete_unlinks)
qed

text \<open>Traffic of the module: writes that are interrupted (only on a socket that has none pending, as
  \<open>Socket_putdatas\<close> makes sure) and writes that complete.\<close>

fun write_traffic :: "(int, pending_writes) table_op list \<Rightarrow> sockbuf \<Rightarrow> sockbuf" where
  "write_traffic [] s = s"
| "write_traffic (Put k w # cs) s =
     write_traffic cs (if write_fits k w \<and> write_lookup s k = None then put_write k w s else s)"
| "write_traffic (Del k # cs) s = write_traffic cs (snd (SocketBuffer_writeComplete k s))"

lemma write_traffic_other:
  assumes "writes_ok s \<and> mallocs s = []" "k \<notin> op_key ` set cs"
  shows "(writes_ok (write_traffic cs s) \<and> mallocs (write_traffic cs s) = []) \<and>
    write_lookup (write_traffic cs s) k = write_lookup s k"
  using assms
proof (induction cs arbitrary: s)
  case (Cons c cs)
  show ?case
  proof (cases c)
    case (Put k' w)
    with Cons show ?thesis
      using write_table.ok_put [of s k' w] write_table.lookup_put [of s k' w k] by auto
  next
    case (Del k')
    with Cons show ?thesis
      using write_table.ok_del [of s k'] write_table.lookup_del [of s k' k] by auto
  qed
qed simp

section \<open>Property of the module\<close>

text \<open>C4: A partly written packet is kept by socket.  Once stored, it is found again unchanged after
  any sequence of interrupted and completed writes on other sockets; completing the write of its own
  socket reports that it was there and removes exactly it, so that it can never be sent again, and
  the writes of the other sockets are still found as before.\<close>

theorem pending_write_survives:
  assumes "writes_ok s" "mallocs s = []" "write_fits k w" "write_lookup s k = None"
    "k \<notin> op_key ` set cs"
  shows "\<exists>s1. SocketBuffer_pendingWrite k (pw_count w) (pw_iovecs w) (pw_frees w) (pw_total w) (pw_bytes w) s
      = Some (0, s1) \<and>
    (let s2 = write_traffic cs s1; (removed, s3) = SocketBuffer_writeComplete k s2 in
      fst (SocketBuffer_getWrite k s2) = Some w \<and> removed \<and>
      fst (SocketBuffer_getWrite k s3) = None \<and>
      (\<forall>k'. k' \<noteq> k \<longrightarrow> fst (SocketBuffer_getWrite k' s3) = fst (SocketBuffer_getWrite k' s2)))"
proof -
  have run: "SocketBuffer_pendingWrite k (pw_count w) (pw_iovecs w) (pw_frees w) (pw_total w) (pw_bytes w) s
      = Some (0, put_write k w s)"
    using pendingWrite_appends [OF assms(2,3)] by (simp add: put_write_def)
  have ok1: "writes_ok (put_write k w s) \<and> mallocs (put_write k w s) = []"
    using write_table.ok_put assms by blast
  have found: "write_lookup (put_write k w s) k = Some w"
    using write_table.lookup_put assms by auto
  let ?s2 = "write_traffic cs (put_write k w s)"
  note two = write_traffic_other [OF ok1 assms(5)]
  have del: "write_lookup (snd (SocketBuffer_writeComplete k ?s2)) k' =
      (if k' = k then None else write_lookup ?s2 k')" for k'
    using write_table.lookup_del [OF two [THEN conjunct1]] by simp
  have ok3: "writes_ok (snd (SocketBuffer_writeComplete k ?s2))"
    using write_table.ok_del [OF two [THEN conjunct1]] by simp
  have "fst (SocketBuffer_writeComplete k ?s2)"
    using two found a_unlink_key(1) [of pw_socket "writes ?s2" k]
    by (simp add: writeComplete_unlinks writes_ok_def write_lookup_def)
  with run found two del show ?thesis
    by (auto simp: Let_def split_beta getWrite_finds(1) ok3)
qed

definition demo_write :: "int \<Rightarrow> pending_writes" where
  "demo_write k = \<lparr>pw_socket = k, pw_count = 2, pw_total = 7, pw_bytes = 3,
     pw_iovecs = [\<lparr>iov_base = 100, iov_len = 2\<rparr>, \<lparr>iov_base = 200, iov_len = 5\<rparr>], pw_frees = [True, False]\<rparr>"

definition idle_sockbuf :: sockbuf where
  "idle_sockbuf = \<lparr>def_queue = Some fresh_queue, queues = Some empty_alist, writes = empty_alist, mallocs = []\<rparr>"

theorem pending_write_survives_witness:
  "\<exists>s1. SocketBuffer_pendingWrite 4 2 (pw_iovecs (demo_write 4)) [True, False] 7 3 idle_sockbuf = Some (0, s1) \<and>
    fst (SocketBuffer_getWrite 4 (write_traffic [Put 5 (demo_write 5), Put 6 (demo_write 6), Del 5] s1))
      = Some (demo_write 4)"
proof -
  have hyps: "writes_ok idle_sockbuf" "mallocs idle_sockbuf = []" "write_fits 4 (demo_write 4)"
    "write_lookup idle_sockbuf 4 = None"
    "(4::int) \<notin> op_key ` set [Put 5 (demo_write 5), Put 6 (demo_write 6), Del 5]"
    by (simp_all add: idle_sockbuf_def writes_ok_def write_fits_def write_lookup_def demo_write_def)
  have fields: "pw_count (demo_write 4) = 2" "pw_frees (demo_write 4) = [True, False]"
    "pw_total (demo_write 4) = 7" "pw_bytes (demo_write 4) = 3"
    by (simp_all add: demo_write_def)
  from pending_write_survives [OF hyps] show ?thesis
    unfolding fields Let_def split_beta by blast
qed

end
