(* ===== verification/SocketRead.thy ===== *)
theory SocketRead
  imports SocketBuffer
begin

text \<open>
  The reading half of \<^verbatim>\<open>src/src/utils/Socket.c\<close>: \<open>Socket_getch\<close> and \<open>Socket_getdata\<close> over a
  non-blocking socket.  The kernel is the state component \<open>wire\<close>: for each socket the answers
  \<open>recv\<close> is going to give, in order.  The second half is the contract a packet reader needs of its
  source (\<open>packet_source\<close>) and the proof that the two functions, with the queues of
  \<^verbatim>\<open>SocketBuffer\<close>, keep it: bytes are delivered once and in order, an interrupted read starts over
  with the bytes already seen, and other sockets are not affected.
\<close>

section \<open>The kernel's side of recv\<close>

text \<open>\<open>Chunk bs\<close>: the bytes \<open>bs\<close> have arrived; \<open>Fail e\<close>: \<open>recv\<close> returns -1 with \<open>errno\<close> \<open>e\<close>; \<open>Eof\<close>: the
  peer has closed the connection.  A socket with nothing left to say would block.\<close>

datatype recv_event = Chunk "byte list" | Fail int | Eof

datatype recv_answer = Got "byte list" | Failed int

definition EAGAIN :: int where [codes]: "EAGAIN = 11"

text \<open>\<open>recv(socket, buf, n, 0)\<close>: at most \<open>n\<close> bytes of the first chunk; the rest stays.\<close>

fun recv :: "nat \<Rightarrow> recv_event list \<Rightarrow> recv_answer \<times> recv_event list" where
  "recv n [] = (Failed EAGAIN, [])"
| "recv n (Chunk bs # es) =
     (if bs = [] then recv n es
      else if length bs \<le> n then (Got bs, es)
      else (Got (take n bs), Chunk (drop n bs) # es))"
| "recv n (Fail e # es) = (Failed e, es)"
| "recv n (Eof # es) = (Got [], Eof # es)"

record sockets =
  sb :: sockbuf
  wire :: "int \<Rightarrow> recv_event list"

section \<open>Socket_getch and Socket_getdata\<close>

text \<open>The results are the completion code, the character stored in \<open>*c\<close> if any, and the new state.\<close>

definition Socket_getch :: "int \<Rightarrow> sockets \<Rightarrow> (int \<times> byte option \<times> sockets) option" where
  "Socket_getch socket s = do {
     (rc, c, b) \<leftarrow> SocketBuffer_getQueuedChar socket (sb s);
     let s = s\<lparr>sb := b\<rparr>;
     if rc \<noteq> SOCKETBUFFER_INTERRUPTED then Some (rc, c, s)
     else
       let (ans, w) = recv 1 (wire s socket); s = s\<lparr>wire := (wire s)(socket := w)\<rparr> in
       case ans of
         Failed err \<Rightarrow>
           if err = EAGAIN then do {
             b \<leftarrow> SocketBuffer_interrupted socket 0 (sb s);
             Some (TCPSOCKET_INTERRUPTED, None, s\<lparr>sb := b\<rparr>)
           }
           else Some (SOCKET_ERROR, None, s)
       | Got [] \<Rightarrow> Some (SOCKET_ERROR, None, s)
       | Got (c # _) \<Rightarrow> do {
           b \<leftarrow> SocketBuffer_queueChar socket c (sb s);
           Some (TCPSOCKET_COMPLETE, Some c, s\<lparr>sb := b\<rparr>)
         }
   }"

text \<open>The end of \<open>Socket_getdata\<close>, once \<open>recv\<close> has not failed.\<close>

definition getdata_finish :: "int \<Rightarrow> nat \<Rightarrow> nat \<Rightarrow> sockets \<Rightarrow> sockets option" where
  "getdata_finish socket bytes actual_len s =
     (if actual_len = bytes then do {
        (_, b) \<leftarrow> SocketBuffer_complete socket (sb s);
        Some (s\<lparr>sb := b\<rparr>)
      }
      else do {
        b \<leftarrow> SocketBuffer_interrupted socket actual_len (sb s);
        Some (s\<lparr>sb := b\<rparr>)
      })"

text \<open>The results are the buffer (its cells when the call returns), \<open>*actual_len\<close>, \<open>*rc\<close> when it is
  set, and the new state.  Reading into a null buffer, or past its end, has no result.\<close>

definition Socket_getdata ::
  "int \<Rightarrow> nat \<Rightarrow> nat \<Rightarrow> sockets \<Rightarrow> (mem option \<times> nat \<times> int option \<times> sockets) option" where
  "Socket_getdata socket bytes actual_len s =
     (if bytes = 0 then do {
        (buf, b) \<leftarrow> SocketBuffer_complete socket (sb s);
        Some (buf, actual_len, None, s\<lparr>sb := b\<rparr>)
      }
      else do {
        (r, actual_len, b) \<leftarrow> SocketBuffer_getQueuedData socket bytes (sb s);
        q \<leftarrow> get_queue r b;
        m \<leftarrow> q_buf q;
        if actual_len > bytes then None
        else
          let (ans, w) = recv (bytes - actual_len) (wire s socket);
              s = s\<lparr>sb := b, wire := (wire s)(socket := w)\<rparr>
          in case ans of
               Failed err \<Rightarrow>
                 if err \<noteq> EAGAIN then Some (None, actual_len, Some err, s)
                 else do {
                   s \<leftarrow> getdata_finish socket bytes actual_len s;
                   Some (Some m, actual_len, Some err, s)
                 }
             | Got [] \<Rightarrow> Some (None, actual_len, Some 0, s)
             | Got bs \<Rightarrow> do {
                 m \<leftarrow> store_bytes m actual_len bs;
                 let s = s\<lparr>sb := set_queue r (q\<lparr>q_buf := Some m\<rparr>) (sb s)\<rparr>;
                 let actual_len = actual_len + length bs;
                 s \<leftarrow> getdata_finish socket bytes actual_len s;
                 Some (Some m, actual_len, Some (int (length bs)), s)
               }
      })"

section \<open>What a packet reader needs of its source\<close>

text \<open>\<open>at s h i d\<close>: of the packet being read, the header bytes \<open>h\<close> have been seen and the first \<open>i\<close>
  of them handed out since the last interruption, and the data bytes \<open>d\<close> have been seen.  \<open>feed\<close>
  is what the kernel will answer, and \<open>rest\<close> everything that belongs to other connections.\<close>

locale packet_source =
  fixes getch :: "'s \<Rightarrow> (int \<times> byte option \<times> 's) option"
    and getdata :: "nat \<Rightarrow> nat \<Rightarrow> 's \<Rightarrow> (mem option \<times> nat \<times> int option \<times> 's) option"
    and at :: "nat \<Rightarrow> 's \<Rightarrow> byte list \<Rightarrow> nat \<Rightarrow> byte list \<Rightarrow> bool"
    and feed :: "'s \<Rightarrow> recv_event list"
    and rest :: "'s \<Rightarrow> 'r"
  assumes getch_seen: "at n s h i d \<Longrightarrow> i < length h \<Longrightarrow>
      \<exists>s'. getch s = Some (TCPSOCKET_COMPLETE, Some (h ! i), s') \<and> at n s' h (Suc i) d \<and>
        feed s' = feed s \<and> rest s' = rest s"
    and getch_new: "at n s h (length h) [] \<Longrightarrow> length h < 5 \<Longrightarrow> recv 1 (feed s) = (Got [c], w) \<Longrightarrow>
      \<exists>s'. getch s = Some (TCPSOCKET_COMPLETE, Some c, s') \<and> at m s' (h @ [c]) (Suc (length h)) [] \<and>
        feed s' = w \<and> rest s' = rest s"
    and getch_blocked: "at n s h (length h) [] \<Longrightarrow> length h < 5 \<Longrightarrow> recv 1 (feed s) = (Failed EAGAIN, w) \<Longrightarrow>
      \<exists>s'. getch s = Some (TCPSOCKET_INTERRUPTED, None, s') \<and> at m s' h 0 [] \<and>
        feed s' = w \<and> rest s' = rest s"
    and getdata_none: "at n s h (length h) [] \<Longrightarrow>
      \<exists>buf s'. getdata 0 al s = Some (buf, al, None, s') \<and> at m s' [] 0 [] \<and>
        feed s' = feed s \<and> rest s' = rest s"
    and getdata_all: "at n s h (length h) d \<Longrightarrow> recv (n - length d) (feed s) = (Got bs, w) \<Longrightarrow> bs \<noteq> [] \<Longrightarrow>
      length d + length bs = n \<Longrightarrow>
      \<exists>buf rc s'. getdata n al s = Some (Some buf, n, rc, s') \<and> holds buf (d @ bs) \<and> at m s' [] 0 [] \<and>
        feed s' = w \<and> rest s' = rest s"
    and getdata_part: "at n s h (length h) d \<Longrightarrow> recv (n - length d) (feed s) = (Got bs, w) \<Longrightarrow> bs \<noteq> [] \<Longrightarrow>
      length d + length bs < n \<Longrightarrow>
      \<exists>buf rc s'. getdata n al s = Some (Some buf, length d + length bs, rc, s') \<and> at n s' h 0 (d @ bs) \<and>
        feed s' = w \<and> rest s' = rest s"
    and getdata_blocked: "at n s h (length h) d \<Longrightarrow> length d < n \<Longrightarrow> recv (n - length d) (feed s) = (Failed EAGAIN, w) \<Longrightarrow>
      \<exists>buf rc s'. getdata n al s = Some (Some buf, length d, rc, s') \<and> at n s' h 0 d \<and>
        feed s' = w \<and> rest s' = rest s"
    and at_seen: "at n s h i d \<Longrightarrow> i \<le> length h"
    and at_data: "at n s h i [] \<Longrightarrow> at m s h i []"

section \<open>The queues of one socket\<close>

text \<open>A queue that holds the header \<open>h\<close>, handed out up to \<open>i\<close>, and the data \<open>d\<close> of a packet with \<open>n\<close>
  bytes of data; and a default queue in working order.\<close>

definition queue_at :: "nat \<Rightarrow> socket_queue \<Rightarrow> byte list \<Rightarrow> nat \<Rightarrow> byte list \<Rightarrow> bool" where
  "queue_at n q h i d \<longleftrightarrow> q_index q = i \<and> q_headerlen q = length h \<and> length (q_header q) = 5 \<and>
     holds (q_header q) h \<and> q_datalen q = length d \<and> (d \<noteq> [] \<longrightarrow> n \<le> q_buflen q) \<and>
     (\<exists>m. q_buf q = Some m \<and> holds m d \<and> q_buflen q \<le> length m)"

definition plain_at :: "int \<Rightarrow> nat \<Rightarrow> sockets \<Rightarrow> byte list \<Rightarrow> nat \<Rightarrow> byte list \<Rightarrow> bool" where
  "plain_at sock n s h i d \<longleftrightarrow> sock \<noteq> 0 \<and> i \<le> length h \<and> (\<exists>f dq. buffered (sb s) f dq \<and>
     (case f sock of
        Some q \<Rightarrow> queue_at n q h i d \<and> unused dq \<and> queue_at 0 dq [] 0 []
      | None \<Rightarrow> i = length h \<and> d = [] \<and> queue_at 0 dq h i [] \<and>
          (if h = [] then unused dq else q_socket dq = sock)))"

text \<open>Everything that belongs to other sockets.\<close>

definition plain_rest :: "int \<Rightarrow> sockets \<Rightarrow> (int \<Rightarrow> socket_queue option) \<times> (int \<Rightarrow> recv_event list)" where
  "plain_rest sock s =
     ((\<lambda>k. if k = sock then None else do { l \<leftarrow> queues (sb s); key_lookup q_socket l k }),
      (wire s)(sock := []))"

lemma buffered_lookup: "buffered b f d \<Longrightarrow> do { l \<leftarrow> queues b; key_lookup q_socket l k } = f k"
  by (auto simp: buffered_def)

lemma buffered_det: "buffered b f d \<Longrightarrow> buffered b f' d' \<Longrightarrow> f' = f \<and> d' = d"
  by (auto simp: buffered_def)

lemma plain_rest_buffered:
  "buffered (sb s) f d \<Longrightarrow> plain_rest sock s = (f(sock := None), (wire s)(sock := []))"
  by (auto simp: plain_rest_def buffered_def fun_eq_iff)

lemma recv_Got_length: "recv n es = (Got bs, w) \<Longrightarrow> length bs \<le> n"
  by (induction n es rule: recv.induct) (auto split: if_splits)

lemma fresh_queue_at [simp]: "queue_at 0 fresh_queue [] 0 []"
  by (simp add: queue_at_def fresh_queue_def)

lemma reset_queue_at: "queue_at n q h i d \<Longrightarrow> queue_at 0 (reset_queue q) [] 0 []"
  by (auto simp: queue_at_def reset_queue_def)

lemma queue_at_data: "queue_at n q h i [] \<Longrightarrow> queue_at m q h i []"
  by (simp add: queue_at_def)

lemma queue_at_load:
  assumes "queue_at n q h i d" "i < length h"
  shows "load_bytes (q_header q) i 1 = Some [h ! i]"
proof -
  have "take (length h) (q_header q) = map Some h" "length h \<le> length (q_header q)"
    using assms(1) by (auto simp: queue_at_def holds_def)
  then have "q_header q ! i = Some (h ! i)" "i < length (q_header q)"
    using assms(2) by (metis nth_map nth_take, linarith)
  then show ?thesis
    by (auto simp: load_bytes_def take_Suc_conv_app_nth hd_drop_conv_nth take_Suc)
qed

lemma queue_at_store:
  assumes "queue_at n q h i d" "length h < 5"
  shows "\<exists>hdr. store_bytes (q_header q) (length h) [c] = Some hdr \<and> holds hdr (h @ [c]) \<and> length hdr = 5"
  using store_bytes_holds [of "q_header q" h "[c]"] assms by (auto simp: queue_at_def)

lemma plain_at_queued:
  assumes "buffered (sb s) f dq" "f sock = Some q" "queue_at n q h i d" "unused dq" "queue_at 0 dq [] 0 []"
    "sock \<noteq> 0" "i \<le> length h"
  shows "plain_at sock n s h i d"
  unfolding plain_at_def using assms by (intro conjI exI [of _ f] exI [of _ dq]) simp_all

lemma plain_at_default:
  assumes "buffered (sb s) f dq" "f sock = None" "queue_at 0 dq h (length h) []"
    "h = [] \<Longrightarrow> unused dq" "h \<noteq> [] \<Longrightarrow> q_socket dq = sock" "sock \<noteq> 0"
  shows "plain_at sock n s h (length h) []"
  unfolding plain_at_def using assms by (intro conjI exI [of _ f] exI [of _ dq]) simp_all

lemma plain_at_cases:
  assumes "plain_at sock n s h i d"
  obtains (queued) f dq q where "buffered (sb s) f dq" "f sock = Some q" "queue_at n q h i d"
      "unused dq" "queue_at 0 dq [] 0 []" "sock \<noteq> 0" "i \<le> length h"
  | (default) f dq where "buffered (sb s) f dq" "f sock = None" "i = length h" "d = []"
      "queue_at 0 dq h (length h) []" "h = [] \<Longrightarrow> unused dq" "h \<noteq> [] \<Longrightarrow> q_socket dq = sock" "sock \<noteq> 0"
proof -
  obtain f dq where at: "sock \<noteq> 0" "i \<le> length h" "buffered (sb s) f dq"
    "case f sock of
        Some q \<Rightarrow> queue_at n q h i d \<and> unused dq \<and> queue_at 0 dq [] 0 []
      | None \<Rightarrow> i = length h \<and> d = [] \<and> queue_at 0 dq h i [] \<and>
          (if h = [] then unused dq else q_socket dq = sock)"
    using assms by (auto simp: plain_at_def)
  show thesis
  proof (cases "f sock")
    case None
    with at show thesis by (intro default [of f dq]) (auto split: if_splits)
  next
    case (Some q)
    with at show thesis by (intro queued [of f dq q]) auto
  qed
qed

text \<open>The steps of the two functions, one by one, on such a state.\<close>

lemma plain_getch_seen:
  assumes at: "plain_at sock n s h i d" and i: "i < length h"
  shows "\<exists>s'. Socket_getch sock s = Some (TCPSOCKET_COMPLETE, Some (h ! i), s') \<and>
     plain_at sock n s' h (Suc i) d \<and> wire s' sock = wire s sock \<and> plain_rest sock s' = plain_rest sock s"
  using at
proof (cases rule: plain_at_cases)
  case (queued f dq q)
  obtain b' where b': "SocketBuffer_getQueuedChar sock (sb s) = Some (SOCKETBUFFER_COMPLETE, Some (h ! i), b')"
      "buffered b' (f(sock \<mapsto> q\<lparr>q_index := q_index q + 1\<rparr>)) dq"
    using getQueuedChar_seen [OF queued(1,2)] queue_at_load [OF queued(3) i] queued(3) i
    by (auto simp: queue_at_def)
  have "queue_at n (q\<lparr>q_index := q_index q + 1\<rparr>) h (Suc i) d" using queued(3) by (simp add: queue_at_def)
  then have "plain_at sock n (s\<lparr>sb := b'\<rparr>) h (Suc i) d"
    using b'(2) queued i by (intro plain_at_queued [where f = "f(sock \<mapsto> q\<lparr>q_index := q_index q + 1\<rparr>)"]) auto
  moreover have "plain_rest sock (s\<lparr>sb := b'\<rparr>) = plain_rest sock s"
    using b'(2) queued(1) plain_rest_buffered [of "s\<lparr>sb := b'\<rparr>"] by (simp add: plain_rest_buffered)
  ultimately show ?thesis using b'(1) by (simp add: Socket_getch_def codes)
qed (use i in simp)

lemma getQueuedChar_at:
  assumes at: "plain_at sock n s h (length h) d" and h: "length h < 5"
  shows "\<exists>b'. SocketBuffer_getQueuedChar sock (sb s) = Some (SOCKETBUFFER_INTERRUPTED, None, b') \<and>
     plain_at sock n (s\<lparr>sb := b', wire := w\<rparr>) h (length h) d \<and>
     plain_rest sock (s\<lparr>sb := b'\<rparr>) = plain_rest sock s"
  using at
proof (cases rule: plain_at_cases)
  case (queued f dq q)
  then obtain b' where b': "SocketBuffer_getQueuedChar sock (sb s) = Some (SOCKETBUFFER_INTERRUPTED, None, b')"
      "buffered b' f dq"
    using getQueuedChar_read [OF queued(1,2)] h by (auto simp: queue_at_def)
  moreover have "plain_at sock n (s\<lparr>sb := b', wire := w\<rparr>) h (length h) d"
    using b'(2) queued by (intro plain_at_queued [where f = f]) auto
  moreover have "plain_rest sock (s\<lparr>sb := b'\<rparr>) = plain_rest sock s"
    using b'(2) queued(1) plain_rest_buffered [of "s\<lparr>sb := b'\<rparr>"] by (simp add: plain_rest_buffered)
  ultimately show ?thesis by blast
next
  case (default f dq)
  have "plain_at sock n (s\<lparr>sb := sb s, wire := w\<rparr>) h (length h) []"
    using default by (intro plain_at_default [where f = f and dq = dq]) auto
  with getQueuedChar_missing [OF default(1,2)] default(4) show ?thesis by auto
qed

lemma plain_queueChar:
  assumes at: "plain_at sock n s h (length h) []" and h: "length h < 5"
  shows "\<exists>b'. SocketBuffer_queueChar sock c (sb s) = Some b' \<and>
     plain_at sock m (s\<lparr>sb := b'\<rparr>) (h @ [c]) (Suc (length h)) [] \<and>
     plain_rest sock (s\<lparr>sb := b'\<rparr>) = plain_rest sock s"
  using at
proof (cases rule: plain_at_cases)
  case (queued f dq q)
  obtain hdr where hdr: "store_bytes (q_header q) (length h) [c] = Some hdr" "holds hdr (h @ [c])" "length hdr = 5"
    using queue_at_store [OF queued(3) h] by blast
  let ?q = "q\<lparr>q_header := hdr, q_index := q_index q + 1, q_headerlen := q_index q + 1\<rparr>"
  have i: "q_index q = length h" using queued(3) by (simp add: queue_at_def)
  then obtain b' where b': "SocketBuffer_queueChar sock c (sb s) = Some b'" "buffered b' (f(sock \<mapsto> ?q)) dq"
    using queueChar_queued [OF queued(1,2)] hdr(1) h by auto
  have "queue_at m ?q (h @ [c]) (Suc (length h)) []"
    using queued(3) hdr i by (auto simp: queue_at_def)
  then have "plain_at sock m (s\<lparr>sb := b'\<rparr>) (h @ [c]) (Suc (length h)) []"
    using b'(2) queued by (intro plain_at_queued [where f = "f(sock \<mapsto> ?q)"]) auto
  moreover have "plain_rest sock (s\<lparr>sb := b'\<rparr>) = plain_rest sock s"
    using b'(2) queued(1) plain_rest_buffered [of "s\<lparr>sb := b'\<rparr>"] by (simp add: plain_rest_buffered)
  ultimately show ?thesis using b'(1) by blast
next
  case (default f dq)
  obtain hdr where hdr: "store_bytes (q_header dq) (length h) [c] = Some hdr" "holds hdr (h @ [c])" "length hdr = 5"
    using queue_at_store [OF default(5) h] by blast
  have i: "q_index dq = length h" "q_datalen dq = 0" using default(5) by (auto simp: queue_at_def)
  let ?d = "dq\<lparr>q_socket := sock, q_header := hdr, q_index := q_index dq + 1, q_headerlen := q_index dq + 1,
      q_datalen := (if q_socket dq = 0 then 0 else q_datalen dq)\<rparr>"
  have who: "q_socket dq = sock \<or> unused dq" using default(6,7) by (cases h) auto
  then obtain b' where b': "SocketBuffer_queueChar sock c (sb s) = Some b'" "buffered b' f ?d"
    using queueChar_default [OF default(1,2,8) _ who] hdr(1) i(1) h by auto
  have "queue_at 0 ?d (h @ [c]) (length (h @ [c])) []"
    using default(5) hdr i by (auto simp: queue_at_def)
  then have "plain_at sock m (s\<lparr>sb := b'\<rparr>) (h @ [c]) (length (h @ [c])) []"
    using b'(2) default(2,8) by (intro plain_at_default [where f = f and dq = ?d]) auto
  moreover have "plain_rest sock (s\<lparr>sb := b'\<rparr>) = plain_rest sock s"
    using b'(2) default(1) plain_rest_buffered [of "s\<lparr>sb := b'\<rparr>"] by (simp add: plain_rest_buffered)
  ultimately show ?thesis using b'(1) by auto
qed

text \<open>In the middle of \<open>Socket_getdata\<close> only the memory of the queue matters.\<close>

definition queue_mem :: "nat \<Rightarrow> socket_queue \<Rightarrow> byte list \<Rightarrow> byte list \<Rightarrow> bool" where
  "queue_mem n q h d \<longleftrightarrow> q_headerlen q = length h \<and> length (q_header q) = 5 \<and>
     holds (q_header q) h \<and> (d \<noteq> [] \<longrightarrow> n \<le> q_buflen q) \<and>
     (\<exists>m. q_buf q = Some m \<and> holds m d \<and> q_buflen q \<le> length m)"

definition plain_mem :: "int \<Rightarrow> nat \<Rightarrow> sockbuf \<Rightarrow> byte list \<Rightarrow> byte list \<Rightarrow> bool" where
  "plain_mem sock n b h d \<longleftrightarrow> sock \<noteq> 0 \<and> (\<exists>f dq. buffered b f dq \<and>
     (case f sock of Some q \<Rightarrow> queue_mem n q h d \<and> unused dq \<and> queue_at 0 dq [] 0 []
      | None \<Rightarrow> queue_mem n dq h d))"

definition queue_rest :: "int \<Rightarrow> sockbuf \<Rightarrow> int \<Rightarrow> socket_queue option" where
  "queue_rest sock b = (\<lambda>k. if k = sock then None else do { l \<leftarrow> queues b; key_lookup q_socket l k })"

lemma queue_at_mem: "queue_at n q h i d \<longleftrightarrow> q_index q = i \<and> q_datalen q = length d \<and> queue_mem n q h d"
  by (auto simp: queue_at_def queue_mem_def)

lemma queue_rest_buffered: "buffered b f d \<Longrightarrow> queue_rest sock b = f(sock := None)"
  by (auto simp: queue_rest_def buffered_def fun_eq_iff)

lemma plain_rest_eq: "plain_rest sock s = (queue_rest sock (sb s), (wire s)(sock := []))"
  by (simp add: plain_rest_def queue_rest_def)

lemma plain_mem_queued:
  "buffered b f dq \<Longrightarrow> f sock = Some q \<Longrightarrow> queue_mem n q h d \<Longrightarrow> unused dq \<Longrightarrow> queue_at 0 dq [] 0 [] \<Longrightarrow>
   sock \<noteq> 0 \<Longrightarrow> plain_mem sock n b h d"
  unfolding plain_mem_def by (intro conjI exI [of _ f] exI [of _ dq]) simp_all

lemma plain_mem_default:
  "buffered b f dq \<Longrightarrow> f sock = None \<Longrightarrow> queue_mem n dq h d \<Longrightarrow> sock \<noteq> 0 \<Longrightarrow> plain_mem sock n b h d"
  unfolding plain_mem_def by (intro conjI exI [of _ f] exI [of _ dq]) simp_all

lemma plain_mem_cases:
  assumes "plain_mem sock n b h d"
  obtains (queued) f dq q where "buffered b f dq" "f sock = Some q" "queue_mem n q h d"
      "unused dq" "queue_at 0 dq [] 0 []" "sock \<noteq> 0"
  | (default) f dq where "buffered b f dq" "f sock = None" "queue_mem n dq h d" "sock \<noteq> 0"
proof -
  obtain f dq where m: "sock \<noteq> 0" "buffered b f dq"
    "case f sock of Some q \<Rightarrow> queue_mem n q h d \<and> unused dq \<and> queue_at 0 dq [] 0 []
      | None \<Rightarrow> queue_mem n dq h d"
    using assms by (auto simp: plain_mem_def)
  show thesis
  proof (cases "f sock")
    case None
    with m show thesis by (intro default [of f dq]) auto
  next
    case (Some q)
    with m show thesis by (intro queued [of f dq q]) auto
  qed
qed

lemma plain_at_mem:
  assumes "plain_at sock n s h i d"
  shows "plain_mem sock n (sb s) h d"
  using assms
proof (cases rule: plain_at_cases)
  case (queued f dq q)
  then show ?thesis by (intro plain_mem_queued [where f = f and dq = dq]) (auto simp: queue_at_mem)
next
  case (default f dq)
  then show ?thesis by (intro plain_mem_default [where f = f and dq = dq])
      (auto simp: queue_at_mem queue_mem_def)
qed

lemma mem_interrupted:
  assumes "plain_mem sock n b h d"
  shows "\<exists>b'. SocketBuffer_interrupted sock (length d) b = Some b' \<and>
     (\<forall>s. sb s = b' \<longrightarrow> plain_at sock n s h 0 d) \<and> queue_rest sock b' = queue_rest sock b"
  using assms
proof (cases rule: plain_mem_cases)
  case (queued f dq q)
  let ?q = "q\<lparr>q_index := 0, q_datalen := length d\<rparr>"
  obtain b' where b': "SocketBuffer_interrupted sock (length d) b = Some b'" "buffered b' (f(sock \<mapsto> ?q)) dq"
    using interrupted_queued [OF queued(1,2)] by blast
  have "queue_at n ?q h 0 d" using queued(3) by (simp add: queue_at_mem queue_mem_def)
  then have "\<forall>s. sb s = b' \<longrightarrow> plain_at sock n s h 0 d"
    using b'(2) queued by (auto intro!: plain_at_queued [where f = "f(sock \<mapsto> ?q)"])
  with b' queue_rest_buffered [OF b'(2)] queue_rest_buffered [OF queued(1)] show ?thesis by simp
next
  case (default f dq)
  let ?q = "dq\<lparr>q_socket := sock, q_index := 0, q_datalen := length d\<rparr>"
  obtain b' where b': "SocketBuffer_interrupted sock (length d) b = Some b'"
      "buffered b' (f(sock \<mapsto> ?q)) fresh_queue"
    using interrupted_default [OF default(1,2)] by blast
  have "queue_at n ?q h 0 d" using default(3) by (simp add: queue_at_mem queue_mem_def)
  then have "\<forall>s. sb s = b' \<longrightarrow> plain_at sock n s h 0 d"
    using b'(2) default by (auto intro!: plain_at_queued [where f = "f(sock \<mapsto> ?q)"])
  with b' queue_rest_buffered [OF b'(2)] queue_rest_buffered [OF default(1)] show ?thesis by simp
qed

lemma reset_queue_mem: "queue_mem n q h d \<Longrightarrow> queue_at 0 (reset_queue q) [] 0 []"
  by (auto simp: queue_at_def queue_mem_def reset_queue_def)

lemma mem_complete:
  assumes "plain_mem sock n b h d"
  shows "\<exists>buf b'. SocketBuffer_complete sock b = Some (buf, b') \<and>
     (\<forall>s m. sb s = b' \<longrightarrow> plain_at sock m s [] 0 []) \<and> queue_rest sock b' = queue_rest sock b"
  using assms
proof (cases rule: plain_mem_cases)
  case (queued f dq q)
  obtain b' where b': "SocketBuffer_complete sock b = Some (q_buf q, b')"
      "buffered b' (f(sock := None)) (reset_queue q)"
    using complete_queued [OF queued(1,2)] by blast
  then have "plain_at sock m s [] (length ([] :: byte list)) []" if "sb s = b'" for s m
    using that reset_queue_mem [OF queued(3)] queued(6)
    by (intro plain_at_default [where f = "f(sock := None)"]) auto
  with b' queue_rest_buffered [OF b'(2)] queue_rest_buffered [OF queued(1)] show ?thesis by auto
next
  case (default f dq)
  obtain b' where b': "SocketBuffer_complete sock b = Some (q_buf dq, b')" "buffered b' f (reset_queue dq)"
    using complete_missing [OF default(1,2)] by blast
  then have "plain_at sock m s [] (length ([] :: byte list)) []" if "sb s = b'" for s m
    using that reset_queue_mem [OF default(3)] default(2,4) by (intro plain_at_default [where f = f]) auto
  with b' queue_rest_buffered [OF b'(2)] queue_rest_buffered [OF default(1)] show ?thesis by auto
qed

text \<open>Making room, and storing what has been received.\<close>

lemma grown_mem:
  assumes "queue_mem n q h d" "d = [] \<or> n \<le> q_buflen q"
  shows "queue_mem n (grown n q) h d" "\<exists>m. q_buf (grown n q) = Some m \<and> holds m d \<and> n \<le> length m"
    "q_buf (grown n q) = Some m \<Longrightarrow> holds m' d' \<Longrightarrow> length m' = length m \<Longrightarrow>
      queue_mem n ((grown n q)\<lparr>q_buf := Some m'\<rparr>) h d'"
  using assms by (auto simp: queue_mem_def grown_def)

lemma mem_getQueuedData:
  assumes at: "plain_at sock n s h (length h) d"
  shows "\<exists>r b q m. SocketBuffer_getQueuedData sock n (sb s) = Some (r, length d, b) \<and>
     get_queue r b = Some q \<and> q_buf q = Some m \<and> holds m d \<and> n \<le> length m \<and>
     plain_mem sock n b h d \<and> queue_rest sock b = queue_rest sock (sb s) \<and>
     (\<forall>m' d'. holds m' d' \<longrightarrow> length m' = length m \<longrightarrow>
        plain_mem sock n (set_queue r (q\<lparr>q_buf := Some m'\<rparr>) b) h d' \<and>
        queue_rest sock (set_queue r (q\<lparr>q_buf := Some m'\<rparr>) b) = queue_rest sock (sb s))"
  using at
proof (cases rule: plain_at_cases)
  case (queued f dq q)
  have mem: "queue_mem n q h d" and len: "q_datalen q = length d"
    and room: "d = [] \<or> n \<le> q_buflen q" "q_datalen q = 0 \<or> n \<le> q_buflen q"
    using queued(3) by (auto simp: queue_at_mem queue_mem_def)
  obtain b where b: "SocketBuffer_getQueuedData sock n (sb s) = Some (Queued, length d, b)"
      "buffered b (f(sock \<mapsto> grown n q)) dq" "get_queue Queued b = Some (grown n q)"
    using getQueuedData_queued [OF queued(1,2) room(2), unfolded len] by blast
  obtain m where m: "q_buf (grown n q) = Some m" "holds m d" "n \<le> length m"
    using grown_mem(2) [OF mem room(1)] by blast
  have sock: "q_socket (grown n q) = sock" using buffered_socket [OF queued(1,2)] by simp
  have "plain_mem sock n b h d"
    using b(2) grown_mem(1) [OF mem room(1)] queued by (intro plain_mem_queued [where f = "f(sock \<mapsto> grown n q)"]) auto
  moreover have "plain_mem sock n (set_queue Queued ((grown n q)\<lparr>q_buf := Some m'\<rparr>) b) h d' \<and>
      queue_rest sock (set_queue Queued ((grown n q)\<lparr>q_buf := Some m'\<rparr>) b) = queue_rest sock (sb s)"
    if "holds m' d'" "length m' = length m" for m' d'
  proof -
    have b': "buffered (set_queue Queued ((grown n q)\<lparr>q_buf := Some m'\<rparr>) b) (f(sock \<mapsto> (grown n q)\<lparr>q_buf := Some m'\<rparr>)) dq"
      using set_queued(1) [OF b(2,3), of "(grown n q)\<lparr>q_buf := Some m'\<rparr>"] sock by simp
    with grown_mem(3) [OF mem room(1) m(1) that] queued queue_rest_buffered [OF b']
      queue_rest_buffered [OF queued(1)] show ?thesis
      by (auto intro!: plain_mem_queued [where f = "f(sock \<mapsto> (grown n q)\<lparr>q_buf := Some m'\<rparr>)"])
  qed
  ultimately show ?thesis
    using b m queue_rest_buffered [OF b(2)] queue_rest_buffered [OF queued(1)] by auto
next
  case (default f dq)
  have mem: "queue_mem n dq h d" and room: "d = [] \<or> n \<le> q_buflen dq" "q_datalen dq = 0"
    using default(4,5) by (auto simp: queue_at_mem queue_mem_def)
  obtain b where b: "SocketBuffer_getQueuedData sock n (sb s) = Some (DefQueue, length d, b)"
      "buffered b f (grown n dq)"
    using getQueuedData_default [OF default(1,2) room(2)] default(4) by auto
  obtain m where m: "q_buf (grown n dq) = Some m" "holds m d" "n \<le> length m"
    using grown_mem(2) [OF mem room(1)] by blast
  have "plain_mem sock n b h d"
    using b(2) grown_mem(1) [OF mem room(1)] default by (intro plain_mem_default [where f = f]) auto
  moreover have "plain_mem sock n (set_queue DefQueue ((grown n dq)\<lparr>q_buf := Some m'\<rparr>) b) h d' \<and>
      queue_rest sock (set_queue DefQueue ((grown n dq)\<lparr>q_buf := Some m'\<rparr>) b) = queue_rest sock (sb s)"
    if "holds m' d'" "length m' = length m" for m' d'
  proof -
    have b': "buffered (set_queue DefQueue ((grown n dq)\<lparr>q_buf := Some m'\<rparr>) b) f ((grown n dq)\<lparr>q_buf := Some m'\<rparr>)"
      using b(2) by simp
    with grown_mem(3) [OF mem room(1) m(1) that] default queue_rest_buffered [OF b']
      queue_rest_buffered [OF default(1)] show ?thesis
      by (auto intro!: plain_mem_default [where f = f])
  qed
  ultimately show ?thesis
    using b m queue_rest_buffered [OF b(2)] queue_rest_buffered [OF default(1)] by fastforce
qed

subsection \<open>The plain socket is a packet source\<close>

lemma plain_at_cong: "sb s = sb t \<Longrightarrow> plain_at sock n s h i d = plain_at sock n t h i d"
  by (simp add: plain_at_def)

lemma plain_at_any: "plain_at sock n s h i [] = plain_at sock m s h i []"
proof -
  have "(case f sock of Some q \<Rightarrow> queue_at n q h i [] \<and> P | None \<Rightarrow> Q) =
      (case f sock of Some q \<Rightarrow> queue_at m q h i [] \<and> P | None \<Rightarrow> Q)" for f P Q
    by (auto simp: queue_at_def split: option.split)
  then show ?thesis by (simp add: plain_at_def)
qed

lemma at_queueChar:
  assumes "plain_at sock n s h (length h) []" "length h < 5"
  shows "\<exists>b'. SocketBuffer_queueChar sock c (sb s) = Some b' \<and>
     (\<forall>t. sb t = b' \<longrightarrow> plain_at sock m t (h @ [c]) (Suc (length h)) []) \<and>
     queue_rest sock b' = queue_rest sock (sb s)"
proof -
  obtain b' where b': "SocketBuffer_queueChar sock c (sb s) = Some b'"
      "plain_at sock m (s\<lparr>sb := b'\<rparr>) (h @ [c]) (Suc (length h)) []"
      "plain_rest sock (s\<lparr>sb := b'\<rparr>) = plain_rest sock s"
    using plain_queueChar [OF assms, of c m] by blast
  have "plain_at sock m t (h @ [c]) (Suc (length h)) []" if "sb t = b'" for t
    using b'(2) plain_at_cong [of t "s\<lparr>sb := b'\<rparr>"] that by simp
  with b' show ?thesis by (auto simp: plain_rest_eq)
qed

lemma plain_getch_new:
  assumes at: "plain_at sock n s h (length h) []" and h: "length h < 5"
    and r: "recv 1 (wire s sock) = (Got [c], w)"
  shows "\<exists>s'. Socket_getch sock s = Some (TCPSOCKET_COMPLETE, Some c, s') \<and>
     plain_at sock m s' (h @ [c]) (Suc (length h)) [] \<and> wire s' sock = w \<and> plain_rest sock s' = plain_rest sock s"
proof -
  let ?w = "(wire s)(sock := w)"
  obtain b where b: "SocketBuffer_getQueuedChar sock (sb s) = Some (SOCKETBUFFER_INTERRUPTED, None, b)"
      "plain_at sock n (s\<lparr>sb := b, wire := ?w\<rparr>) h (length h) []" "plain_rest sock (s\<lparr>sb := b\<rparr>) = plain_rest sock s"
    using getQueuedChar_at [OF at h] by blast
  obtain b' where b': "SocketBuffer_queueChar sock c b = Some b'"
      "\<forall>t. sb t = b' \<longrightarrow> plain_at sock m t (h @ [c]) (Suc (length h)) []"
      "queue_rest sock b' = queue_rest sock b"
    using at_queueChar [OF b(2) h, of c m] by auto
  have "Socket_getch sock s = Some (TCPSOCKET_COMPLETE, Some c, s\<lparr>sb := b', wire := ?w\<rparr>)"
    using b(1) b'(1) r by (simp add: Socket_getch_def Let_def)
  with b' b(3) show ?thesis by (auto simp: plain_rest_eq)
qed

lemma plain_getch_blocked:
  assumes at: "plain_at sock n s h (length h) []" and h: "length h < 5"
    and r: "recv 1 (wire s sock) = (Failed EAGAIN, w)"
  shows "\<exists>s'. Socket_getch sock s = Some (TCPSOCKET_INTERRUPTED, None, s') \<and>
     plain_at sock m s' h 0 [] \<and> wire s' sock = w \<and> plain_rest sock s' = plain_rest sock s"
proof -
  let ?w = "(wire s)(sock := w)"
  obtain b where b: "SocketBuffer_getQueuedChar sock (sb s) = Some (SOCKETBUFFER_INTERRUPTED, None, b)"
      "plain_at sock n (s\<lparr>sb := b, wire := ?w\<rparr>) h (length h) []" "plain_rest sock (s\<lparr>sb := b\<rparr>) = plain_rest sock s"
    using getQueuedChar_at [OF at h] by blast
  have "plain_mem sock n b h []" using plain_at_mem [OF b(2)] by simp
  then obtain b' where b': "SocketBuffer_interrupted sock 0 b = Some b'"
      "\<forall>s. sb s = b' \<longrightarrow> plain_at sock n s h 0 []" "queue_rest sock b' = queue_rest sock b"
    using mem_interrupted by fastforce
  have "Socket_getch sock s = Some (TCPSOCKET_INTERRUPTED, None, s\<lparr>sb := b', wire := ?w\<rparr>)"
    using b(1) b'(1) r by (simp add: Socket_getch_def Let_def)
  with b' b(3) show ?thesis by (auto simp: plain_rest_eq plain_at_any [of sock m _ h 0 n])
qed

lemma plain_getdata_none:
  assumes "plain_at sock n s h (length h) []"
  shows "\<exists>buf s'. Socket_getdata sock 0 al s = Some (buf, al, None, s') \<and>
     plain_at sock m s' [] 0 [] \<and> wire s' sock = wire s sock \<and> plain_rest sock s' = plain_rest sock s"
proof -
  obtain buf b where b: "SocketBuffer_complete sock (sb s) = Some (buf, b)"
      "\<forall>s m. sb s = b \<longrightarrow> plain_at sock m s [] 0 []" "queue_rest sock b = queue_rest sock (sb s)"
    using mem_complete [OF plain_at_mem [OF assms]] by blast
  then show ?thesis by (auto simp: Socket_getdata_def plain_rest_eq)
qed

text \<open>What remains to be done after \<open>recv\<close>, with the data \<open>d\<close> in the buffer.\<close>

lemma finish_all:
  assumes "plain_mem sock n b h d" "length d = n"
  shows "\<exists>s'. getdata_finish sock n n (s\<lparr>sb := b\<rparr>) = Some s' \<and> plain_at sock m s' [] 0 [] \<and>
     wire s' = wire s \<and> queue_rest sock (sb s') = queue_rest sock b"
  using mem_complete [OF assms(1)] by (auto simp: getdata_finish_def)

lemma finish_part:
  assumes "plain_mem sock n b h d" "length d < n"
  shows "\<exists>s'. getdata_finish sock n (length d) (s\<lparr>sb := b\<rparr>) = Some s' \<and> plain_at sock n s' h 0 d \<and>
     wire s' = wire s \<and> queue_rest sock (sb s') = queue_rest sock b"
  using mem_interrupted [OF assms(1)] assms(2) by (auto simp: getdata_finish_def)

lemma plain_getdata_got:
  assumes at: "plain_at sock n s h (length h) d" and r: "recv (n - length d) (wire s sock) = (Got bs, w)"
    and bs: "bs \<noteq> []" and n: "length d + length bs \<le> n"
  shows "\<exists>m b. holds m (d @ bs) \<and> plain_mem sock n b h (d @ bs) \<and> queue_rest sock b = queue_rest sock (sb s) \<and>
     Socket_getdata sock n al s = do {
       s' \<leftarrow> getdata_finish sock n (length (d @ bs)) (s\<lparr>wire := (wire s)(sock := w), sb := b\<rparr>);
       Some (Some m, length (d @ bs), Some (int (length bs)), s')
     }"
proof -
  have n0: "n \<noteq> 0" "length d \<le> n" using bs n by (cases bs; simp)+
  obtain rf b q m where g: "SocketBuffer_getQueuedData sock n (sb s) = Some (rf, length d, b)"
      "get_queue rf b = Some q" "q_buf q = Some m" "holds m d" "n \<le> length m"
      and upd: "\<forall>m' d'. holds m' d' \<longrightarrow> length m' = length m \<longrightarrow>
        plain_mem sock n (set_queue rf (q\<lparr>q_buf := Some m'\<rparr>) b) h d' \<and>
        queue_rest sock (set_queue rf (q\<lparr>q_buf := Some m'\<rparr>) b) = queue_rest sock (sb s)"
    using mem_getQueuedData [OF at] by blast
  obtain m' where m': "store_bytes m (length d) bs = Some m'" "holds m' (d @ bs)" "length m' = length m"
    using store_bytes_holds [OF g(4), of bs] g(5) n by auto
  obtain c cs where cs: "bs = c # cs" using bs by (cases bs) auto
  have "Socket_getdata sock n al s = do {
       s' \<leftarrow> getdata_finish sock n (length (d @ bs)) (s\<lparr>wire := (wire s)(sock := w), sb := set_queue rf (q\<lparr>q_buf := Some m'\<rparr>) b\<rparr>);
       Some (Some m', length (d @ bs), Some (int (length bs)), s')
     }"
    using g(1-3) n0 r m'(1) unfolding Socket_getdata_def cs by simp
  with upd m'(2,3) show ?thesis by blast
qed

lemma plain_getdata_all:
  assumes "plain_at sock n s h (length h) d" "recv (n - length d) (wire s sock) = (Got bs, w)"
    and "bs \<noteq> []" "length d + length bs = n"
  shows "\<exists>buf rc s'. Socket_getdata sock n al s = Some (Some buf, n, rc, s') \<and> holds buf (d @ bs) \<and>
     plain_at sock m s' [] 0 [] \<and> wire s' sock = w \<and> plain_rest sock s' = plain_rest sock s"
proof -
  obtain mem b where g: "holds mem (d @ bs)" "plain_mem sock n b h (d @ bs)"
      "queue_rest sock b = queue_rest sock (sb s)"
      "Socket_getdata sock n al s = do {
       s' \<leftarrow> getdata_finish sock n (length (d @ bs)) (s\<lparr>wire := (wire s)(sock := w), sb := b\<rparr>);
       Some (Some mem, length (d @ bs), Some (int (length bs)), s') }"
    using plain_getdata_got [OF assms(1-3), of al] assms(4) by auto
  have len: "length (d @ bs) = n" using assms(4) by simp
  with finish_all [OF g(2), of "s\<lparr>wire := (wire s)(sock := w)\<rparr>" m] g show ?thesis
    by (auto simp: plain_rest_eq)
qed

lemma plain_getdata_part:
  assumes "plain_at sock n s h (length h) d" "recv (n - length d) (wire s sock) = (Got bs, w)"
    and "bs \<noteq> []" "length d + length bs < n"
  shows "\<exists>buf rc s'. Socket_getdata sock n al s = Some (Some buf, length d + length bs, rc, s') \<and>
     plain_at sock n s' h 0 (d @ bs) \<and> wire s' sock = w \<and> plain_rest sock s' = plain_rest sock s"
proof -
  obtain mem b where g: "plain_mem sock n b h (d @ bs)"
      "queue_rest sock b = queue_rest sock (sb s)"
      "Socket_getdata sock n al s = do {
       s' \<leftarrow> getdata_finish sock n (length (d @ bs)) (s\<lparr>wire := (wire s)(sock := w), sb := b\<rparr>);
       Some (Some mem, length (d @ bs), Some (int (length bs)), s') }"
    using plain_getdata_got [OF assms(1-3), of al] assms(4) by auto
  have len: "length (d @ bs) < n" using assms(4) by simp
  with finish_part [OF g(1), of "s\<lparr>wire := (wire s)(sock := w)\<rparr>"] g show ?thesis
    by (auto simp: plain_rest_eq)
qed

lemma plain_getdata_blocked:
  assumes at: "plain_at sock n s h (length h) d" and n: "length d < n"
    and r: "recv (n - length d) (wire s sock) = (Failed EAGAIN, w)"
  shows "\<exists>buf rc s'. Socket_getdata sock n al s = Some (Some buf, length d, rc, s') \<and>
     plain_at sock n s' h 0 d \<and> wire s' sock = w \<and> plain_rest sock s' = plain_rest sock s"
proof -
  obtain rf b q m where g: "SocketBuffer_getQueuedData sock n (sb s) = Some (rf, length d, b)"
      "get_queue rf b = Some q" "q_buf q = Some m"
      "plain_mem sock n b h d" "queue_rest sock b = queue_rest sock (sb s)"
    using mem_getQueuedData [OF at] by blast
  obtain s' where s': "getdata_finish sock n (length d) (s\<lparr>wire := (wire s)(sock := w), sb := b\<rparr>) = Some s'"
      "plain_at sock n s' h 0 d" "wire s' = (wire s)(sock := w)" "queue_rest sock (sb s') = queue_rest sock b"
    using finish_part [OF g(4) n, of "s\<lparr>wire := (wire s)(sock := w)\<rparr>"] by auto
  have "s\<lparr>wire := (wire s)(sock := w), sb := b\<rparr> = s\<lparr>sb := b, wire := (wire s)(sock := w)\<rparr>"
    by (cases s) simp
  with g(1-3) n r s'(1) have "Socket_getdata sock n al s = Some (Some m, length d, Some EAGAIN, s')"
    unfolding Socket_getdata_def by simp
  with s' g(5) show ?thesis by (auto simp: plain_rest_eq)
qed

interpretation plain: packet_source "Socket_getch sock" "Socket_getdata sock" "plain_at sock"
    "\<lambda>s. wire s sock" "plain_rest sock" for sock
proof unfold_locales
  show "i \<le> length h" if "plain_at sock n s h i d" for n s h i d
    using that by (simp add: plain_at_def)
  show "plain_at sock m s h i []" if "plain_at sock n s h i []" for n s h i m
    using that plain_at_any by blast
qed (rule plain_getch_seen plain_getch_new plain_getch_blocked plain_getdata_none plain_getdata_all
    plain_getdata_part plain_getdata_blocked; assumption)+

text \<open>A state in which nothing has been read of the socket's next packet; the module's state after
  initialisation is one.\<close>

lemma plain_at_initial:
  assumes "sock \<noteq> 0" "sb s = idle_sockbuf"
  shows "plain_at sock n s [] 0 []"
proof -
  have "buffered (sb s) Map.empty fresh_queue"
    using assms(2) by (auto simp: buffered_def idle_sockbuf_def fun_eq_iff)
  then have "plain_at sock n s [] (length ([] :: byte list)) []"
    using assms(1) by (intro plain_at_default [where f = Map.empty and dq = fresh_queue]) auto
  then show ?thesis by simp
qed

text \<open>The state of the packet on one socket is not affected by what is done on another.\<close>

lemma plain_at_other:
  assumes at: "plain_at t n s h 0 d" and mine: "plain_at sock m s h1 0 d1" "plain_at sock m' s' h2 0 d2"
    and rest: "plain_rest sock s' = plain_rest sock s" and ne: "t \<noteq> sock"
  shows "plain_at t n s' h 0 d \<and> wire s' t = wire s t"
proof -
  have clean: "\<exists>f dq. buffered (sb u) f dq \<and> unused dq \<and> queue_at 0 dq [] 0 []" if "plain_at sock k u g 0 e" for k u g e
    using that by (cases rule: plain_at_cases) auto
  obtain f' dq' where b': "buffered (sb s') f' dq'" "unused dq'" "queue_at 0 dq' [] 0 []"
    using clean [OF mine(2)] by blast
  show ?thesis
    using at
  proof (cases rule: plain_at_cases)
    case (queued f dq q)
    then have eq: "f'(sock := None) = f(sock := None)" "(wire s')(sock := []) = (wire s)(sock := [])"
      using rest plain_rest_buffered [OF b'(1)] plain_rest_buffered [OF queued(1)] by auto
    then have "f' t = Some q" "wire s' t = wire s t" using queued(2) ne by (metis fun_upd_other)+
    with b' queued show ?thesis by (auto intro!: plain_at_queued [where f = f'])
  next
    case (default f dq)
    then have eq: "f'(sock := None) = f(sock := None)" "(wire s')(sock := []) = (wire s)(sock := [])"
      using rest plain_rest_buffered [OF b'(1)] plain_rest_buffered [OF default(1)] by auto
    then have "f' t = None" "wire s' t = wire s t" using default(2) ne by (metis fun_upd_other)+
    moreover have "h = []" "d = []" using default by auto
    ultimately show ?thesis
      using b' default(8) plain_at_default [of s' f' dq' t "[]" n] by auto
  qed
qed

end
