(* ===== verification/SocketWrite.thy ===== *)
theory SocketWrite
  imports SocketRead
begin

text \<open>
  The rest of \<^verbatim>\<open>src/src/utils/Socket.c\<close>, in the configuration that uses \<open>select\<close>: the sets of
  sockets the module watches, writing a packet from several buffers, continuing a write that the
  kernel took only in part, choosing the next socket that is ready, and closing a socket.  The
  kernel is scripted: what \<open>writev\<close> and \<open>fcntl\<close> answer, and what \<open>select\<close> finds.  The bytes it has
  accepted are kept per socket, so that the theorems can say what reaches the peer.
\<close>

section \<open>Buffers in memory\<close>

text \<open>The bytes of all blocks, and the size of the block that starts at an address.  \<open>free\<close> of an
  address that is not the start of a live block has no result.\<close>

record bufmem =
  cells :: "ptr \<Rightarrow> byte option"
  extent :: "ptr \<Rightarrow> nat option"

definition read_buf :: "bufmem \<Rightarrow> ptr \<Rightarrow> nat \<Rightarrow> byte list option" where
  "read_buf h p n = those (map (cells h) [p..<p + n])"

definition free_buf :: "ptr \<Rightarrow> bufmem \<Rightarrow> bufmem option" where
  "free_buf p h =
     (if p = NULL then Some h
      else case extent h p of
        None \<Rightarrow> None
      | Some n \<Rightarrow> Some \<lparr>cells = (\<lambda>a. if p \<le> a \<and> a < p + n then None else cells h a), extent = (extent h)(p := None)\<rparr>)"

section \<open>State\<close>

type_synonym fd_set = "int set"

definition FD_SETSIZE :: int where [codes]: "FD_SETSIZE = 1024"

text \<open>The macros on \<open>fd_set\<close> index an array of \<open>FD_SETSIZE\<close> bits without a check.\<close>

definition FD_SET :: "int \<Rightarrow> fd_set \<Rightarrow> fd_set option" where
  "FD_SET fd S = (if fd < 0 \<or> fd \<ge> FD_SETSIZE then None else Some (insert fd S))"

definition FD_CLR :: "int \<Rightarrow> fd_set \<Rightarrow> fd_set option" where
  "FD_CLR fd S = (if fd < 0 \<or> fd \<ge> FD_SETSIZE then None else Some (S - {fd}))"

definition FD_ISSET :: "int \<Rightarrow> fd_set \<Rightarrow> bool option" where
  "FD_ISSET fd S = (if fd < 0 \<or> fd \<ge> FD_SETSIZE then None else Some (fd \<in> S))"

text \<open>The structure \<open>Sockets\<close> and the static \<open>wset\<close>.  The contents of the three lists are blocks that
  hold a socket number; \<open>cur_clientsds\<close> points to an element of \<open>clientsds\<close>, given by its position.\<close>

record Sockets =
  connect_pending :: "int alist"
  write_pending :: "int alist"
  rset :: fd_set
  rset_saved :: fd_set
  maxfdp1 :: int
  clientsds :: "int alist"
  cur_clientsds :: "nat option"
  pending_wset :: fd_set
  wset :: fd_set

text \<open>What \<open>writev\<close> is going to answer: it takes up to so many bytes, or fails.\<close>

datatype writev_event = Accepts nat | Refuses int

datatype net_event = Write_available int | Write_complete int int | Closed int

record net =
  mod_s :: Sockets
  socks :: sockets
  bufs :: bufmem
  accepting :: "int \<Rightarrow> writev_event list"
  outgoing :: "int \<Rightarrow> byte list"
  fd_flags :: "int \<Rightarrow> int"
  fcntl_ok :: "bool list"
  writeAvailable :: bool
  writecomplete :: bool
  events :: "net_event list"

abbreviation sbuf :: "net \<Rightarrow> sockbuf" where "sbuf s \<equiv> sb (socks s)"

abbreviation set_sbuf :: "sockbuf \<Rightarrow> net \<Rightarrow> net" where
  "set_sbuf b s \<equiv> s\<lparr>socks := (socks s)\<lparr>sb := b\<rparr>\<rparr>"

definition net_malloc :: "net \<Rightarrow> bool \<times> net" where
  "net_malloc s = (let (ok, ms) = next_malloc (mallocs (sbuf s)) in (ok, set_sbuf ((sbuf s)\<lparr>mallocs := ms\<rparr>) s))"

definition upd_mod :: "(Sockets \<Rightarrow> Sockets) \<Rightarrow> net \<Rightarrow> net" where
  "upd_mod f s = s\<lparr>mod_s := f (mod_s s)\<rparr>"

text \<open>\<open>ListFindItem(l, &socket, intcompare) != NULL\<close>, which moves the cursor.\<close>

definition find_socket :: "int \<Rightarrow> int alist \<Rightarrow> bool \<times> int alist" where
  "find_socket socket l = (case a_find (\<lambda>x. x = socket) l of (i, l) \<Rightarrow> (i \<noteq> None, l))"

section \<open>Watching sockets\<close>

text \<open>\<open>fcntl(sock, F_SETFL, ...)\<close> with the flags the code computes: what it reads from the descriptor
  it replaces by 0.\<close>

definition O_NONBLOCK :: int where [codes]: "O_NONBLOCK = 2048"

definition Socket_setnonblocking :: "int \<Rightarrow> net \<Rightarrow> int \<times> net" where
  "Socket_setnonblocking sock s =
     (let flags = fd_flags s sock;
          flags = (if flags \<noteq> 0 then 0 else flags);
          (ok, rest) = (case fcntl_ok s of [] \<Rightarrow> (True, []) | b # bs \<Rightarrow> (b, bs));
          s = s\<lparr>fcntl_ok := rest\<rparr>
      in if ok then (0, s\<lparr>fd_flags := (fd_flags s)(sock := flags + O_NONBLOCK)\<rparr>) else (SOCKET_ERROR, s))"

definition Socket_addSocket :: "int \<Rightarrow> net \<Rightarrow> (int \<times> net) option" where
  "Socket_addSocket newSd s =
     (let (found, l) = find_socket newSd (clientsds (mod_s s)); s = upd_mod (clientsds_update (\<lambda>_. l)) s in
      if found then Some (0, s)
      else if int (length (items l)) \<ge> FD_SETSIZE then Some (SOCKET_ERROR, s)
      else
        let (ok, s) = net_malloc s in
        if \<not> ok then Some (PAHO_MEMORY_ERROR, s)
        else
          let (ok, s) = net_malloc s in
          if \<not> ok then Some (PAHO_MEMORY_ERROR, s)
          else do {
            r \<leftarrow> FD_SET newSd (rset_saved (mod_s s));
            let s = upd_mod (\<lambda>m. m\<lparr>clientsds := a_append newSd l, rset_saved := r,
                                   maxfdp1 := max (maxfdp1 m) (newSd + 1)\<rparr>) s;
            Some (Socket_setnonblocking newSd s)
          })"

definition Socket_outInitialize :: "net \<Rightarrow> net" where
  "Socket_outInitialize s =
     (let (_, b) = SocketBuffer_initialize (sbuf s) in
      upd_mod (\<lambda>m. m\<lparr>connect_pending := empty_alist, write_pending := empty_alist, clientsds := empty_alist,
                     cur_clientsds := None, rset := {}, pending_wset := {}, maxfdp1 := 0, rset_saved := {}\<rparr>)
        (set_sbuf b s))"

definition Socket_noPendingWrites :: "int \<Rightarrow> net \<Rightarrow> bool \<times> net" where
  "Socket_noPendingWrites socket s =
     (let (found, l) = find_socket socket (write_pending (mod_s s))
      in (\<not> found, upd_mod (write_pending_update (\<lambda>_. l)) s))"

definition isReady :: "int \<Rightarrow> fd_set \<Rightarrow> fd_set \<Rightarrow> net \<Rightarrow> (bool \<times> net) option" where
  "isReady socket read_set write_set s =
     (let (found, l) = find_socket socket (connect_pending (mod_s s)); s = upd_mod (connect_pending_update (\<lambda>_. l)) s in do {
        w \<leftarrow> FD_ISSET socket write_set;
        if found \<and> w then
          Some (True, upd_mod (connect_pending_update (\<lambda>l. snd (a_unlink (\<lambda>x. x = socket) l))) s)
        else do {
          r \<leftarrow> FD_ISSET socket read_set;
          if r \<and> w then Some (Socket_noPendingWrites socket s) else Some (False, s)
        }
      })"

section \<open>Writing\<close>

text \<open>\<open>writev\<close>: the kernel reads the buffers and takes a prefix of them, or fails with \<open>errno\<close>.  With
  nothing scripted it would block.\<close>

definition gather :: "bufmem \<Rightarrow> iobuf list \<Rightarrow> byte list option" where
  "gather h iovs = map_option concat (those (map (\<lambda>v. read_buf h (iov_base v) (iov_len v)) iovs))"

definition writev :: "int \<Rightarrow> iobuf list \<Rightarrow> net \<Rightarrow> (int \<times> int \<times> net) option" where
  "writev socket iovs s = do {
     bs \<leftarrow> gather (bufs s) iovs;
     case accepting s socket of
       [] \<Rightarrow> Some (-1, EAGAIN, s)
     | Refuses errno # es \<Rightarrow> Some (-1, errno, s\<lparr>accepting := (accepting s)(socket := es)\<rparr>)
     | Accepts n # es \<Rightarrow>
         let taken = take n bs in
         Some (int (length taken), 0, s\<lparr>accepting := (accepting s)(socket := es),
                 outgoing := (outgoing s)(socket := outgoing s socket @ taken)\<rparr>)
   }"

text \<open>The results are the completion code and \<open>*bytes\<close>.\<close>

definition Socket_writev :: "int \<Rightarrow> iobuf list \<Rightarrow> net \<Rightarrow> (int \<times> nat \<times> net) option" where
  "Socket_writev socket iovecs s = do {
     (rc, errno, s) \<leftarrow> writev socket iovecs s;
     if rc = SOCKET_ERROR then
       Some (if errno = EAGAIN then TCPSOCKET_INTERRUPTED else rc, 0, s)
     else Some (rc, nat rc, s)
   }"

text \<open>\<open>bufs\<close> is the list of buffers with their lengths and whether to free them; the arrays on the
  stack have five places.\<close>

definition Socket_putdatas :: "int \<Rightarrow> ptr \<Rightarrow> nat \<Rightarrow> (iobuf \<times> bool) list \<Rightarrow> net \<Rightarrow> (int \<times> net) option" where
  "Socket_putdatas socket buf0 buf0len bs s =
     (let (none, s) = Socket_noPendingWrites socket s in
      if \<not> none then Some (SOCKET_ERROR, s)
      else if length bs > 4 then None
      else
        let tot = buf0len + sum_list (map (\<lambda>(v, _). iov_len v) bs);
            iovecs = \<lparr>iov_base = buf0, iov_len = buf0len\<rparr> # map fst bs;
            frees1 = True # map snd bs
        in do {
          (rc, bytes, s) \<leftarrow> Socket_writev socket iovecs s;
          if rc = SOCKET_ERROR then Some (rc, s)
          else if bytes = tot then Some (TCPSOCKET_COMPLETE, s)
          else
            let (ok, s) = net_malloc s in
            if \<not> ok then Some (PAHO_MEMORY_ERROR, s)
            else do {
              (_, b) \<leftarrow> SocketBuffer_pendingWrite socket (length bs + 1) iovecs frees1 tot bytes (sbuf s);
              let s = set_sbuf b s;
              let (ok, s) = net_malloc s;
              if \<not> ok then Some (PAHO_MEMORY_ERROR, s)
              else do {
                w \<leftarrow> FD_SET socket (pending_wset (mod_s s));
                Some (TCPSOCKET_INTERRUPTED,
                  upd_mod (\<lambda>m. m\<lparr>write_pending := a_append socket (write_pending m), pending_wset := w\<rparr>) s)
              }
            }
        })"

definition Socket_addPendingWrite :: "int \<Rightarrow> net \<Rightarrow> net option" where
  "Socket_addPendingWrite socket s = do {
     w \<leftarrow> FD_SET socket (pending_wset (mod_s s));
     Some (upd_mod (pending_wset_update (\<lambda>_. w)) s)
   }"

definition Socket_clearPendingWrite :: "int \<Rightarrow> net \<Rightarrow> net option" where
  "Socket_clearPendingWrite socket s = do {
     isset \<leftarrow> FD_ISSET socket (pending_wset (mod_s s));
     if isset then do {
       w \<leftarrow> FD_CLR socket (pending_wset (mod_s s));
       Some (upd_mod (pending_wset_update (\<lambda>_. w)) s)
     }
     else Some s
   }"

section \<open>Continuing a write\<close>

text \<open>The loop that skips what the kernel has taken already: \<open>done\<close> bytes in all, \<open>curbuflen\<close> of them
  in the buffers before this one.\<close>

fun remaining_iovecs :: "nat \<Rightarrow> nat \<Rightarrow> iobuf list \<Rightarrow> iobuf list" where
  "remaining_iovecs bytes curbuflen [] = []"
| "remaining_iovecs bytes curbuflen (v # vs) =
     (let rest = remaining_iovecs bytes (curbuflen + iov_len v) vs in
      if bytes \<le> curbuflen then v # rest
      else if bytes < curbuflen + iov_len v then
        let offset = bytes - curbuflen
        in \<lparr>iov_base = iov_base v + offset, iov_len = iov_len v - offset\<rparr> # rest
      else rest)"

text \<open>Freeing the buffers the pending write owns; their addresses become null.\<close>

fun free_iovecs :: "iobuf list \<Rightarrow> bool list \<Rightarrow> bufmem \<Rightarrow> (iobuf list \<times> bufmem) option" where
  "free_iovecs (v # vs) (f # fs) h = do {
     h \<leftarrow> (if f then free_buf (iov_base v) h else Some h);
     (vs, h) \<leftarrow> free_iovecs vs fs h;
     Some ((if f then v\<lparr>iov_base := NULL\<rparr> else v) # vs, h)
   }"
| "free_iovecs _ _ h = Some ([], h)"

definition set_pending :: "pending_writes \<Rightarrow> net \<Rightarrow> net" where
  "set_pending pw s = set_sbuf ((sbuf s)\<lparr>writes := a_set_current pw (writes (sbuf s))\<rparr>) s"

definition Socket_continueWrite :: "int \<Rightarrow> net \<Rightarrow> (int \<times> net) option" where
  "Socket_continueWrite socket s =
     (let (pw, b) = SocketBuffer_getWrite socket (sbuf s); s = set_sbuf b s in do {
        pw \<leftarrow> pw;
        (rc, bytes, s) \<leftarrow> Socket_writev socket (remaining_iovecs (pw_bytes pw) 0 (pw_iovecs pw)) s;
        if rc \<noteq> SOCKET_ERROR then
          let pw = pw\<lparr>pw_bytes := pw_bytes pw + bytes\<rparr> in
          if pw_bytes pw = pw_total pw then do {
            (vs, h) \<leftarrow> free_iovecs (pw_iovecs pw) (pw_frees pw) (bufs s);
            Some (1, set_pending (pw\<lparr>pw_iovecs := vs\<rparr>) (s\<lparr>bufs := h\<rparr>))
          }
          else Some (0, set_pending pw s)
        else do {
          (vs, h) \<leftarrow> free_iovecs (pw_iovecs pw) (pw_frees pw) (bufs s);
          Some (rc, set_pending (pw\<lparr>pw_iovecs := vs\<rparr>) (s\<lparr>bufs := h\<rparr>))
        }
      })"

text \<open>The buffers of a write that is given up; here the addresses stay.\<close>

fun free_buffers :: "iobuf list \<Rightarrow> bool list \<Rightarrow> bufmem \<Rightarrow> bufmem option" where
  "free_buffers (v # vs) (f # fs) h = do {
     h \<leftarrow> (if f then free_buf (iov_base v) h else Some h);
     free_buffers vs fs h
   }"
| "free_buffers _ _ h = Some h"

definition Socket_abortWrite :: "int \<Rightarrow> net \<Rightarrow> (int \<times> net) option" where
  "Socket_abortWrite socket s =
     (let (pw, b) = SocketBuffer_getWrite socket (sbuf s); s = set_sbuf b s in
      case pw of
        None \<Rightarrow> Some (0, s)
      | Some pw \<Rightarrow> do {
          h \<leftarrow> free_buffers (pw_iovecs pw) (pw_frees pw) (bufs s);
          Some (0, s\<lparr>bufs := h\<rparr>)
        })"

text \<open>Continuing a write does not touch the module's lists and sets.\<close>

lemma writev_mod: "Socket_writev socket vs s = Some (rc, n, s') \<Longrightarrow> mod_s s' = mod_s s"
  by (auto simp: Socket_writev_def writev_def Let_def split: Option.bind_splits list.splits writev_event.splits if_splits)

lemma set_pending_simps [simp]:
  "mod_s (set_pending pw s) = mod_s s" "bufs (set_pending pw s) = bufs s" "outgoing (set_pending pw s) = outgoing s"
  "accepting (set_pending pw s) = accepting s"
  by (simp_all add: set_pending_def)

lemma continueWrite_mod: "Socket_continueWrite socket s = Some (rc, s') \<Longrightarrow> mod_s s' = mod_s s"
  by (auto simp: Socket_continueWrite_def Let_def split_beta dest!: writev_mod split: Option.bind_splits if_splits)

text \<open>\<open>ListRemove(l, element->content)\<close> finds the element itself, contents being distinct blocks.\<close>

definition remove_at :: "nat \<Rightarrow> 'c alist \<Rightarrow> 'c alist" where
  "remove_at i l = \<lparr>items = remove_nth i (items l), cursor = cursor_after_removal (length (items l)) i (cursor l)\<rparr>"

definition next_position :: "nat \<Rightarrow> 'c alist \<Rightarrow> nat option" where
  "next_position i l = (if Suc i < length (items l) then Some (Suc i) else None)"

text \<open>The loop of \<open>Socket_continueWrites\<close>: \<open>curpending\<close> points into \<open>write_pending\<close>; after a removal it
  goes on from wherever the list's own cursor is.\<close>

function continue_pending ::
  "fd_set \<Rightarrow> nat option \<Rightarrow> int option \<Rightarrow> int \<Rightarrow> net \<Rightarrow> (int \<times> int option \<times> net) option" where
  "continue_pending pwset curpending sock rc1 s =
     (case curpending of
        None \<Rightarrow> Some (rc1, sock, s)
      | Some i \<Rightarrow>
          if i \<ge> length (items (write_pending (mod_s s))) then None
          else
            let socket = items (write_pending (mod_s s)) ! i in do {
              isset \<leftarrow> FD_ISSET socket pwset;
              (rc, s') \<leftarrow> (if isset then Socket_continueWrite socket s else Some (0, s));
              let sock = (if rc = SOCKET_ERROR then Some socket else sock);
              let rc1 = (if rc = SOCKET_ERROR then SOCKET_ERROR else rc1);
              if rc \<noteq> 0 then do {
                let (_, b) = SocketBuffer_writeComplete socket (sbuf s');
                w \<leftarrow> FD_CLR socket (pending_wset (mod_s s'));
                let l = remove_at i (write_pending (mod_s s'));
                let s'' = upd_mod (\<lambda>m. m\<lparr>write_pending := l, pending_wset := w\<rparr>) (set_sbuf b s');
                let s'' = s''\<lparr>events := events s'' @
                   (if writeAvailable s'' \<and> rc > 0 then [Write_available socket] else []) @
                   (if writecomplete s'' then [Write_complete socket rc] else [])\<rparr>;
                continue_pending pwset (cursor l) sock rc1 s''
              }
              else continue_pending pwset (next_position i (write_pending (mod_s s'))) sock rc1 s'
            })"
  by pat_completeness auto

lemma upd_mod_simps [simp]:
  "mod_s (upd_mod f s) = f (mod_s s)" "socks (upd_mod f s) = socks s" "bufs (upd_mod f s) = bufs s"
  "accepting (upd_mod f s) = accepting s" "outgoing (upd_mod f s) = outgoing s" "events (upd_mod f s) = events s"
  by (simp_all add: upd_mod_def)

lemma length_remove_nth [simp]: "i < length xs \<Longrightarrow> length (remove_nth i xs) = length xs - 1"
  by (simp add: remove_nth_def)

termination continue_pending
proof (relation "measures [\<lambda>(_, c, _, _, s). length (items (write_pending (mod_s s))),
    \<lambda>(_, c, _, _, s). case c of None \<Rightarrow> 0 | Some i \<Rightarrow> Suc (length (items (write_pending (mod_s s)))) - i]", goal_cases)
  case 1
  show ?case by simp
next
  case (2 pwset c sock rc1 s i socket isset p rc s' sock' rc1' q x b w l s2 s3)
  then have m: "mod_s s' = mod_s s"
    using continueWrite_mod [of socket s rc s'] by (auto split: if_splits)
  from 2 have i: "i < length (items (write_pending (mod_s s)))" by simp
  have "write_pending (mod_s s3) = remove_at i (write_pending (mod_s s))"
    unfolding \<open>s3 = _\<close> \<open>s2 = _\<close> \<open>l = _\<close> by (simp add: m)
  then have "length (items (write_pending (mod_s s3))) < length (items (write_pending (mod_s s)))"
    using i by (simp add: remove_at_def)
  then show ?case by simp
next
  case (3 pwset c sock rc1 s i socket isset p rc s')
  then have "mod_s s' = mod_s s"
    using continueWrite_mod [of socket s rc s'] by (auto split: if_splits)
  with 3 show ?case by (auto simp: next_position_def)
qed

declare continue_pending.simps [simp del]

definition Socket_continueWrites :: "fd_set \<Rightarrow> int option \<Rightarrow> net \<Rightarrow> (int \<times> int option \<times> net) option" where
  "Socket_continueWrites pwset sock s =
     continue_pending pwset (if items (write_pending (mod_s s)) = [] then None else Some 0) sock 0 s"

section \<open>The next ready socket\<close>

text \<open>What a call of \<open>select\<close> finds: an error, or the descriptors that are readable and writable.  Of
  the sets it is given it keeps those, below the bound it is given.\<close>

datatype select_event = Select_fails | Ready fd_set fd_set

definition below :: "int \<Rightarrow> fd_set \<Rightarrow> fd_set" where
  "below n S = {fd \<in> S. fd < n}"

text \<open>The loops that look for a ready socket from the position \<open>i\<close> on.\<close>

fun first_ready :: "fd_set \<Rightarrow> fd_set \<Rightarrow> nat \<Rightarrow> int list \<Rightarrow> net \<Rightarrow> (nat option \<times> net) option" where
  "first_ready read_set write_set i [] s = Some (None, s)"
| "first_ready read_set write_set i (socket # rest) s = do {
     (ready, s) \<leftarrow> isReady socket read_set write_set s;
     if ready then Some (Some i, s) else first_ready read_set write_set (Suc i) rest s
   }"

definition ready_from :: "nat option \<Rightarrow> net \<Rightarrow> (nat option \<times> net) option" where
  "ready_from cur s =
     (case cur of
        None \<Rightarrow> Some (None, s)
      | Some i \<Rightarrow> first_ready (rset (mod_s s)) (wset (mod_s s)) i (drop i (items (clientsds (mod_s s)))) s)"

text \<open>The end of \<open>Socket_getReadySocket\<close>: the socket at the iterator, which moves on.\<close>

definition deliver_ready :: "nat option \<Rightarrow> net \<Rightarrow> (int \<times> int \<times> net) option" where
  "deliver_ready cur s =
     (case cur of
        None \<Rightarrow> Some (0, 0, upd_mod (cur_clientsds_update (\<lambda>_. None)) s)
      | Some i \<Rightarrow>
          Some (items (clientsds (mod_s s)) ! i, 0,
                upd_mod (cur_clientsds_update (\<lambda>_. next_position i (clientsds (mod_s s)))) s))"

text \<open>The results are the socket, \<open>*rc\<close> and the state.  \<open>sel1\<close> and \<open>sel2\<close> are the answers of the two
  calls of \<open>select\<close>; the time-out, which only bounds the wait, has no part in the result.  The code releases the
  mutex during the first \<open>select\<close> (lines 349 to 351) and, in \<open>Socket_continueWrites\<close>, around the callback (1088 to
  1090); here the function is one step, so that no other thread adds, closes or writes to a socket during them.\<close>

definition Socket_getReadySocket :: "select_event \<Rightarrow> select_event \<Rightarrow> net \<Rightarrow> (int \<times> int \<times> net) option" where
  "Socket_getReadySocket sel1 sel2 s =
     (if items (clientsds (mod_s s)) = [] then Some (0, 0, s)
      else do {
        (cur, s) \<leftarrow> ready_from (cur_clientsds (mod_s s)) s;
        let s = upd_mod (cur_clientsds_update (\<lambda>_. cur)) s;
        if cur \<noteq> None then deliver_ready cur s
        else
          let m = mod_s s; s = upd_mod (rset_update (\<lambda>_. rset_saved m)) s in
          if maxfdp1 m = 0 then Some (0, 0, s)
          else
            case sel1 of
              Select_fails \<Rightarrow> Some (0, SOCKET_ERROR, s)
            | Ready r w \<Rightarrow>
                let rs = below (maxfdp1 m) (rset_saved m \<inter> r); pwset = below (maxfdp1 m) (pending_wset m \<inter> w);
                    n1 = int (card rs + card pwset); s = upd_mod (rset_update (\<lambda>_. rs)) s
                in do {
                  (crc, sock, s) \<leftarrow> Socket_continueWrites pwset None s;
                  if crc = SOCKET_ERROR then Some (case sock of None \<Rightarrow> 0 | Some k \<Rightarrow> k, SOCKET_ERROR, s)
                  else
                    case sel2 of
                      Select_fails \<Rightarrow> Some (0, SOCKET_ERROR, upd_mod (wset_update (\<lambda>_. rset_saved (mod_s s))) s)
                    | Ready _ w2 \<Rightarrow>
                        let ws = below (maxfdp1 (mod_s s)) (rset_saved (mod_s s) \<inter> w2);
                            s = upd_mod (wset_update (\<lambda>_. ws)) s
                        in if n1 = 0 \<and> card ws = 0 then Some (0, 0, s)
                           else do {
                             (cur, s) \<leftarrow> ready_from (Some 0) s;
                             deliver_ready cur s
                           }
                }
      })"

section \<open>Closing\<close>

text \<open>The pointer \<open>cur_clientsds\<close>, as a position, after the element at \<open>j\<close> has gone.\<close>

definition shift_position :: "nat \<Rightarrow> nat option \<Rightarrow> nat option" where
  "shift_position j c = map_option (\<lambda>i. if j < i then i - 1 else i) c"

definition Socket_close_only :: "int \<Rightarrow> net \<Rightarrow> net" where
  "Socket_close_only socket s = s\<lparr>events := events s @ [Closed socket]\<rparr>"

definition Socket_close :: "int \<Rightarrow> net \<Rightarrow> (int \<times> net) option" where
  "Socket_close socket s = do {
     let s = Socket_close_only socket s;
     r \<leftarrow> FD_CLR socket (rset_saved (mod_s s));
     w \<leftarrow> FD_CLR socket (pending_wset (mod_s s));
     let cur = (case cur_clientsds (mod_s s) of
                  None \<Rightarrow> None
                | Some i \<Rightarrow> if items (clientsds (mod_s s)) ! i = socket
                            then next_position i (clientsds (mod_s s)) else Some i);
     let s = upd_mod (\<lambda>m. m\<lparr>rset_saved := r, pending_wset := w, cur_clientsds := cur\<rparr>) s;
     (_, s) \<leftarrow> Socket_abortWrite socket s;
     b \<leftarrow> SocketBuffer_cleanup socket (sbuf s);
     let s = upd_mod (\<lambda>m. m\<lparr>connect_pending := snd (a_unlink (\<lambda>x. x = socket) (connect_pending m)),
                            write_pending := snd (a_unlink (\<lambda>x. x = socket) (write_pending m))\<rparr>) (set_sbuf b s);
     case fst (a_find (\<lambda>x. x = socket) (clientsds (mod_s s))) of
       None \<Rightarrow> Some (SOCKET_ERROR, s)
     | Some j \<Rightarrow>
         let s = upd_mod (\<lambda>m. m\<lparr>clientsds := snd (a_unlink (\<lambda>x. x = socket) (clientsds m)),
                                cur_clientsds := shift_position j (cur_clientsds m)\<rparr>) s
         in Some (0, if socket + 1 \<ge> maxfdp1 (mod_s s)
                     then upd_mod (\<lambda>m. m\<lparr>maxfdp1 := fold max (items (clientsds m)) 0 + 1\<rparr>) s else s)
   }"

section \<open>Memory of the buffers\<close>

lemma those_Some: "those xs = Some ys \<longleftrightarrow> xs = map Some ys"
  by (induction xs arbitrary: ys) (auto split: option.splits)

lemma read_buf_length: "read_buf h p n = Some bs \<Longrightarrow> length bs = n"
  by (auto simp: read_buf_def those_Some dest: arg_cong [where f = length])

lemma read_buf_offset:
  assumes "read_buf h p n = Some bs" "k \<le> n"
  shows "read_buf h (p + k) (n - k) = Some (drop k bs)"
proof -
  have "map (cells h) [p..<p + n] = map Some bs" using assms(1) by (simp add: read_buf_def those_Some)
  then have "drop k (map (cells h) [p..<p + n]) = drop k (map Some bs)" by simp
  then show ?thesis
    using assms(2) by (simp add: read_buf_def those_Some drop_map)
qed

lemma gather_simps [simp]:
  "gather h [] = Some []"
  "gather h (v # vs) = do { a \<leftarrow> read_buf h (iov_base v) (iov_len v); b \<leftarrow> gather h vs; Some (a @ b) }"
  by (auto simp: gather_def split: option.splits Option.bind_splits)

lemma gather_length: "gather h vs = Some D \<Longrightarrow> length D = sum_list (map iov_len vs)"
  by (induction vs arbitrary: D) (auto simp: read_buf_length split: Option.bind_splits)

text \<open>What is left of the data after the part that has been taken.\<close>

lemma gather_remaining:
  "gather h vs = Some D \<Longrightarrow> gather h (remaining_iovecs n c vs) = Some (drop (n - c) D)"
proof (induction vs arbitrary: D c)
  case (Cons v vs)
  obtain a b where ab: "read_buf h (iov_base v) (iov_len v) = Some a" "gather h vs = Some b" "D = a @ b"
    using Cons.prems by (auto split: Option.bind_splits)
  have len: "length a = iov_len v" using read_buf_length [OF ab(1)] .
  note IH = Cons.IH [OF ab(2), of "c + iov_len v"]
  consider "n \<le> c" | "c < n" "n < c + iov_len v" | "c < n" "c + iov_len v \<le> n" by linarith
  then show ?case
  proof cases
    case 1
    with IH ab show ?thesis by (simp add: Let_def)
  next
    case 2
    with IH ab len read_buf_offset [OF ab(1), of "n - c"] show ?thesis by (simp add: Let_def)
  next
    case 3
    with IH ab len show ?thesis by (simp add: Let_def)
  qed
qed simp

text \<open>The blocks a pending write owns.\<close>

fun owned :: "iobuf list \<Rightarrow> bool list \<Rightarrow> ptr list" where
  "owned (v # vs) (f # fs) = (if f \<and> iov_base v \<noteq> NULL then [iov_base v] else []) @ owned vs fs"
| "owned _ _ = []"

definition block :: "bufmem \<Rightarrow> ptr \<Rightarrow> ptr set" where
  "block h p = (case extent h p of None \<Rightarrow> {} | Some n \<Rightarrow> {p..<p + n})"

definition uses :: "iobuf list \<Rightarrow> ptr set" where
  "uses vs = (\<Union>v\<in>set vs. {iov_base v..<iov_base v + iov_len v})"

lemma gather_cong: "(\<And>a. a \<in> uses vs \<Longrightarrow> cells h' a = cells h a) \<Longrightarrow> gather h' vs = gather h vs"
proof (induction vs)
  case (Cons v vs)
  have "map (cells h') [iov_base v..<iov_base v + iov_len v] = map (cells h) [iov_base v..<iov_base v + iov_len v]"
    using Cons.prems by (auto simp: uses_def)
  then have "read_buf h' (iov_base v) (iov_len v) = read_buf h (iov_base v) (iov_len v)" by (simp only: read_buf_def)
  moreover have "gather h' vs = gather h vs" using Cons by (auto simp: uses_def)
  ultimately show ?case by simp
qed simp

text \<open>Memory after the blocks at the addresses \<open>ps\<close> have been freed.\<close>

definition without :: "ptr list \<Rightarrow> bufmem \<Rightarrow> bufmem" where
  "without ps h = \<lparr>cells = (\<lambda>a. if a \<in> (\<Union>p\<in>set ps. block h p) then None else cells h a),
                   extent = (\<lambda>p. if p \<in> set ps then None else extent h p)\<rparr>"

lemma without_Nil [simp]: "without [] h = h"
  by (simp add: without_def)

lemma free_buf_without:
  assumes "p \<noteq> NULL" "extent h p \<noteq> None"
  shows "free_buf p h = Some (without [p] h)"
  using assms by (auto simp: free_buf_def without_def block_def fun_eq_iff)

lemma without_Cons: "p \<notin> set ps \<Longrightarrow> without ps (without [p] h) = without (p # ps) h"
  by (auto simp: without_def block_def fun_eq_iff)

text \<open>Both ways of freeing succeed when the owned blocks are live and different, and free exactly them.\<close>

lemma free_all:
  assumes "length vs = length fs" "distinct (owned vs fs)" "\<forall>p\<in>set (owned vs fs). extent h p \<noteq> None"
  shows "\<exists>us. free_iovecs vs fs h = Some (us, without (owned vs fs) h) \<and> length us = length vs"
    "free_buffers vs fs h = Some (without (owned vs fs) h)"
proof -
  have "(\<exists>us. free_iovecs vs fs h = Some (us, without (owned vs fs) h) \<and> length us = length vs) \<and>
    free_buffers vs fs h = Some (without (owned vs fs) h)"
    using assms
  proof (induction vs fs arbitrary: h rule: list_induct2)
    case (Cons v vs f fs)
    show ?case
    proof (cases "f \<and> iov_base v \<noteq> NULL")
      case True
      then have p: "extent h (iov_base v) \<noteq> None" "iov_base v \<notin> set (owned vs fs)" "distinct (owned vs fs)"
        using Cons.prems by auto
      note fr = free_buf_without [OF _ p(1)]
      have live: "\<forall>p\<in>set (owned vs fs). extent (without [iov_base v] h) p \<noteq> None"
        using Cons.prems(2) p(2) True by (auto simp: without_def)
      from Cons.IH [OF p(3) live] True fr without_Cons [OF p(2), of h] show ?thesis by auto
    next
      case False
      then have "free_buf (iov_base v) h = Some h" if f using that by (simp add: free_buf_def)
      moreover have "distinct (owned vs fs)" "\<forall>p\<in>set (owned vs fs). extent h p \<noteq> None" using Cons.prems False by auto
      ultimately show ?thesis using Cons.IH [of h] False by auto
    qed
  qed simp
  then show "\<exists>us. free_iovecs vs fs h = Some (us, without (owned vs fs) h) \<and> length us = length vs"
    "free_buffers vs fs h = Some (without (owned vs fs) h)" by blast+
qed

end
