(* ===== verification/SocketStream.thy ===== *)
theory SocketStream
  imports SocketWrite "HOL-Library.Sublist"
begin

text \<open>
  What reaches the peer.  Packets are handed to \<open>Socket_putdatas\<close>; the kernel takes them in pieces;
  \<open>Socket_continueWrites\<close> is called whenever \<open>select\<close> says that sockets are writable.  The theorems
  say that on every connection the bytes accepted by the kernel are a prefix of the packets handed
  over, in order and without repetition, that exactly the sockets with something left are on the
  module's pending list, and that every buffer the module owns is freed once.
\<close>

section \<open>Writes in progress\<close>

text \<open>A pending write whose buffers are readable and whose owned blocks are live; two of them do not
  use each other's owned blocks.\<close>

definition pw_ok :: "bufmem \<Rightarrow> pending_writes \<Rightarrow> bool" where
  "pw_ok h pw \<longleftrightarrow> write_fits (pw_socket pw) pw \<and> pw_bytes pw < pw_total pw \<and>
     (\<exists>D. gather h (pw_iovecs pw) = Some D \<and> length D = pw_total pw) \<and>
     distinct (owned (pw_iovecs pw) (pw_frees pw)) \<and>
     (\<forall>p\<in>set (owned (pw_iovecs pw) (pw_frees pw)). extent h p \<noteq> None)"

definition clear_of :: "bufmem \<Rightarrow> ptr list \<Rightarrow> pending_writes \<Rightarrow> bool" where
  "clear_of h ps pw \<longleftrightarrow> set ps \<inter> set (owned (pw_iovecs pw) (pw_frees pw)) = {} \<and>
     (\<Union>p\<in>set ps. block h p) \<inter> uses (pw_iovecs pw) = {}"

lemma clear_of_bytes [simp]: "clear_of h ps (pw\<lparr>pw_bytes := n\<rparr>) = clear_of h ps pw"
  by (simp add: clear_of_def)

definition data_of :: "bufmem \<Rightarrow> pending_writes \<Rightarrow> byte list" where
  "data_of h pw = the (gather h (pw_iovecs pw))"

lemma without_clear:
  assumes "pw_ok h pw" "clear_of h ps pw"
  shows "pw_ok (without ps h) pw" "data_of (without ps h) pw = data_of h pw"
proof -
  have g: "gather (without ps h) (pw_iovecs pw) = gather h (pw_iovecs pw)"
    using assms(2) by (intro gather_cong) (auto simp: clear_of_def without_def)
  then show "data_of (without ps h) pw = data_of h pw" by (simp add: data_of_def)
  show "pw_ok (without ps h) pw"
    using assms g by (auto simp: pw_ok_def clear_of_def without_def)
qed

lemma clear_without: "clear_of h qs pw \<Longrightarrow> clear_of (without ps h) qs pw"
proof -
  have "block (without ps h) q \<subseteq> block h q" for q by (auto simp: without_def block_def)
  then show "clear_of h qs pw \<Longrightarrow> clear_of (without ps h) qs pw" unfolding clear_of_def by blast
qed

definition pending_ok :: "net \<Rightarrow> bool" where
  "pending_ok s \<longleftrightarrow> mallocs (sbuf s) = [] \<and> writes_ok (sbuf s) \<and> table_ok (\<lambda>k. k) (write_pending (mod_s s)) \<and>
     set (items (write_pending (mod_s s))) = {k. write_lookup (sbuf s) k \<noteq> None} \<and>
     (\<forall>k\<in>set (items (write_pending (mod_s s))). 0 \<le> k \<and> k < FD_SETSIZE) \<and>
     (\<forall>k pw. write_lookup (sbuf s) k = Some pw \<longrightarrow> pw_ok (bufs s) pw) \<and>
     (\<forall>k pw l qw. write_lookup (sbuf s) k = Some pw \<and> write_lookup (sbuf s) l = Some qw \<and> k \<noteq> l \<longrightarrow>
        clear_of (bufs s) (owned (pw_iovecs pw) (pw_frees pw)) qw)"

text \<open>The blocks that go with the pending write of \<open>k\<close>, if there is one.\<close>

definition write_blocks :: "int \<Rightarrow> net \<Rightarrow> ptr list" where
  "write_blocks k s = (case write_lookup (sbuf s) k of None \<Rightarrow> [] | Some pw \<Rightarrow> owned (pw_iovecs pw) (pw_frees pw))"

text \<open>What the kernel has not taken yet.\<close>

definition todo :: "net \<Rightarrow> int \<Rightarrow> byte list" where
  "todo s k = (case write_lookup (sbuf s) k of None \<Rightarrow> []
     | Some pw \<Rightarrow> drop (pw_bytes pw) (data_of (bufs s) pw))"

lemma write_lookup_socket: "write_lookup b k = Some pw \<Longrightarrow> pw_socket pw = k"
  by (auto simp: write_lookup_def key_lookup_def dest: find_Some_iff [THEN iffD1])

lemma todo_pending: "pending_ok s \<Longrightarrow> todo s k \<noteq> [] \<longleftrightarrow> k \<in> set (items (write_pending (mod_s s)))"
  by (fastforce simp: todo_def pending_ok_def pw_ok_def data_of_def split: option.splits)

section \<open>The kernel\<close>

text \<open>The kernel is going to report an error other than "would block".\<close>

definition refused :: "net \<Rightarrow> int \<Rightarrow> bool" where
  "refused s k \<longleftrightarrow> (\<exists>e. e \<noteq> EAGAIN \<and> Refuses e \<in> set (accepting s k))"

lemma refused_later: "set es \<subseteq> set (accepting s k) \<Longrightarrow>
    accepting t = (accepting s)(k := es) \<Longrightarrow> refused t l \<Longrightarrow> refused s l"
  by (auto simp: refused_def split: if_splits)

lemma Socket_writev_cases:
  assumes "gather (bufs s) vs = Some D"
  obtains (took) m n es where "accepting s k = Accepts m # es" "n = length (take m D)" "n \<le> length D" "set es \<subseteq> set (accepting s k)"
      "Socket_writev k vs s = Some (int n, n, s\<lparr>accepting := (accepting s)(k := es),
         outgoing := (outgoing s)(k := outgoing s k @ take n D)\<rparr>)"
  | (blocked) es where "\<And>m es. accepting s k \<noteq> Accepts m # es" "set es \<subseteq> set (accepting s k)" "Socket_writev k vs s = Some (-22, 0, s\<lparr>accepting := (accepting s)(k := es)\<rparr>)"
  | (failed) e es where "Refuses e \<in> set (accepting s k)" "e \<noteq> EAGAIN" "set es \<subseteq> set (accepting s k)"
      "Socket_writev k vs s = Some (-1, 0, s\<lparr>accepting := (accepting s)(k := es)\<rparr>)"
proof (cases "accepting s k")
  case Nil
  then have "s\<lparr>accepting := (accepting s)(k := [])\<rparr> = s" by (cases s) (auto simp: fun_upd_idem_iff)
  with assms Nil blocked [of "[]"] show ?thesis
    by (simp add: Socket_writev_def writev_def SOCKET_ERROR_def TCPSOCKET_INTERRUPTED_def)
next
  case (Cons a es)
  show ?thesis
  proof (cases a)
    case (Accepts n)
    with assms Cons took [of n es "length (take n D)"] show ?thesis
      by (simp add: Socket_writev_def writev_def SOCKET_ERROR_def Let_def min_def subset_insertI)
  next
    case (Refuses e)
    with assms Cons blocked [of es] failed [of e es] show ?thesis
      by (cases "e = EAGAIN") (simp_all add: Socket_writev_def writev_def SOCKET_ERROR_def TCPSOCKET_INTERRUPTED_def subset_insertI)
  qed
qed

lemma pending_clear:
  "pending_ok s \<Longrightarrow> write_lookup (sbuf s) k = Some pw \<Longrightarrow> write_lookup (sbuf s) l = Some qw \<Longrightarrow> k \<noteq> l \<Longrightarrow>
   clear_of (bufs s) (owned (pw_iovecs pw) (pw_frees pw)) qw"
  by (simp add: pending_ok_def)

section \<open>One write\<close>

lemma getWrite_current:
  assumes "writes_ok b" "write_lookup b k = Some pw"
  obtains l where "SocketBuffer_getWrite k b = (Some pw, b\<lparr>writes := l\<rparr>)" "a_current l = Some pw"
    "table_ok pw_socket l" "key_lookup pw_socket l = key_lookup pw_socket (writes b)"
proof (rule a_find_key [OF assms(1) [unfolded writes_ok_def], of k])
  fix j assume "a_find (\<lambda>x. pw_socket x = k) (writes b) = (Some j, (writes b)\<lparr>cursor := Some j\<rparr>)"
    "j < length (items (writes b))" "key_lookup pw_socket (writes b) k = Some (items (writes b) ! j)"
  then show thesis
    using that [of "(writes b)\<lparr>cursor := Some j\<rparr>"] assms
    by (simp add: SocketBuffer_getWrite_def pending_socketcompare_def write_lookup_def writes_ok_def fun_eq_iff)
qed (use assms(2) in \<open>simp add: write_lookup_def\<close>)

lemma set_current_write:
  assumes "a_current l = Some pw" "table_ok pw_socket l" "pw_socket qw = pw_socket pw"
  shows "writes_ok (b\<lparr>writes := a_set_current qw l\<rparr>)"
    "write_lookup (b\<lparr>writes := a_set_current qw l\<rparr>) = (key_lookup pw_socket l)(pw_socket pw := Some qw)"
  using table_ok_set_current [OF assms(2,1,3)] key_lookup_set_current [OF assms(2,1,3)] assms(3)
  by (auto simp: writes_ok_def write_lookup_def fun_eq_iff)

lemma complete_write:
  assumes "writes_ok b"
  shows "writes_ok (snd (SocketBuffer_writeComplete k b))"
    "write_lookup (snd (SocketBuffer_writeComplete k b)) = (write_lookup b)(k := None)"
    "mallocs (snd (SocketBuffer_writeComplete k b)) = mallocs b"
  using a_unlink_key(3) [of pw_socket "writes b" k] key_lookup_unlink [of pw_socket "writes b" k] assms
  by (auto simp: writeComplete_unlinks writes_ok_def write_lookup_def fun_eq_iff)

text \<open>Continuing the write of a pending socket either makes progress and leaves everything else alone,
  or ends the write: all was taken, or the kernel refused; then the owned buffers are freed.\<close>

lemma continue_one:
  assumes ok: "pending_ok s" and pw: "write_lookup (sbuf s) k = Some pw"
  obtains (progress) n s' where "Socket_continueWrite k s = Some (0, s')" "mod_s s' = mod_s s"
      "n < length (todo s k)" "todo s' = (todo s)(k := drop n (todo s k))"
      "outgoing s' = (outgoing s)(k := outgoing s k @ take n (todo s k))" "pending_ok s'"
      "\<And>l. refused s' l \<Longrightarrow> refused s l"
      "\<And>m es. accepting s k = Accepts m # es \<Longrightarrow> n = length (take m (todo s k)) \<and> accepting s' = (accepting s)(k := es)"
      "bufs s' = bufs s" "write_lookup (sbuf s') = (write_lookup (sbuf s))(k := Some (pw\<lparr>pw_bytes := pw_bytes pw + n\<rparr>))"
  | (over) rc s' where "Socket_continueWrite k s = Some (rc, s')" "mod_s s' = mod_s s"
      "rc = 1 \<or> rc = -1 \<and> refused s k" "\<And>l. refused s' l \<Longrightarrow> refused s l"
      "\<And>l. l \<noteq> k \<Longrightarrow> accepting s' l = accepting s l"
      "outgoing s' = (outgoing s)(k := outgoing s k @ (if rc = 1 then todo s k else []))"
      "bufs s' = without (owned (pw_iovecs pw) (pw_frees pw)) (bufs s)" "mallocs (sbuf s') = []"
      "writes_ok (sbuf s')" "(write_lookup (sbuf s'))(k := None) = (write_lookup (sbuf s))(k := None)"
proof -
  have wok: "writes_ok (sbuf s)" and ms: "mallocs (sbuf s) = []" and pok: "pw_ok (bufs s) pw"
    using ok pw by (auto simp: pending_ok_def)
  have sock: "pw_socket pw = k" using write_lookup_socket [OF pw] .
  obtain D where D: "gather (bufs s) (pw_iovecs pw) = Some D" "length D = pw_total pw" "pw_bytes pw < pw_total pw"
    using pok by (auto simp: pw_ok_def)
  have td: "todo s k = drop (pw_bytes pw) D" using pw D(1) by (simp add: todo_def data_of_def)
  obtain l where l: "SocketBuffer_getWrite k (sbuf s) = (Some pw, (sbuf s)\<lparr>writes := l\<rparr>)" "a_current l = Some pw"
    "table_ok pw_socket l" "key_lookup pw_socket l = key_lookup pw_socket (writes (sbuf s))"
    using getWrite_current [OF wok pw] .
  let ?s = "set_sbuf ((sbuf s)\<lparr>writes := l\<rparr>) s"
  let ?vs = "remaining_iovecs (pw_bytes pw) 0 (pw_iovecs pw)"
  have rem: "gather (bufs ?s) ?vs = Some (todo s k)"
    using gather_remaining [OF D(1), of "pw_bytes pw" 0] td by simp
  have lk: "key_lookup pw_socket l = write_lookup (sbuf s)" using l(4) by (simp add: write_lookup_def fun_eq_iff)
  have upd: "writes_ok (b\<lparr>writes := a_set_current qw l\<rparr>)"
    "write_lookup (b\<lparr>writes := a_set_current qw l\<rparr>) = (write_lookup (sbuf s))(k := Some qw)"
    if "pw_socket qw = k" for qw b
    using set_current_write [OF l(2,3), of qw b] that sock lk by simp_all
  have pending_again: "pending_ok (set_pending (pw\<lparr>pw_bytes := pw_bytes pw + n\<rparr>) t)"
    and todo_again: "todo (set_pending (pw\<lparr>pw_bytes := pw_bytes pw + n\<rparr>) t) = (todo s)(k := drop n (todo s k))"
    and look_again: "write_lookup (sbuf (set_pending (pw\<lparr>pw_bytes := pw_bytes pw + n\<rparr>) t)) = (write_lookup (sbuf s))(k := Some (pw\<lparr>pw_bytes := pw_bytes pw + n\<rparr>))"
    if "n < length (todo s k)" "sbuf t = sbuf ?s" "mod_s t = mod_s s" "bufs t = bufs s" for n t
  proof -
    let ?qw = "pw\<lparr>pw_bytes := pw_bytes pw + n\<rparr>"
    have lk': "write_lookup (sbuf (set_pending ?qw t)) = (write_lookup (sbuf s))(k := Some ?qw)"
      "writes_ok (sbuf (set_pending ?qw t))"
      using upd [of ?qw "(sbuf s)\<lparr>writes := l\<rparr>"] sock that(2) by (simp_all add: set_pending_def)
    have "pw_ok (bufs s) ?qw"
      using pok that(1) td D by (auto simp: pw_ok_def write_fits_def)
    moreover have "clear_of (bufs s) (owned (pw_iovecs pw) (pw_frees pw)) qw"
      if "l \<noteq> k" "write_lookup (sbuf s) l = Some qw" for l qw
      using pending_clear [OF ok pw that(2)] that(1) by simp
    ultimately show "pending_ok (set_pending ?qw t)"
      using ok lk' that pw unfolding pending_ok_def by (auto simp: set_pending_def)
    show "write_lookup (sbuf (set_pending ?qw t)) = (write_lookup (sbuf s))(k := Some ?qw)" by (rule lk'(1))
    show "todo (set_pending ?qw t) = (todo s)(k := drop n (todo s k))"
      using lk' that td D(1) by (auto simp: todo_def fun_eq_iff data_of_def add.commute split: option.split)
  qed
  have freed: "\<exists>us. free_iovecs (pw_iovecs pw) (pw_frees pw) (bufs s) =
      Some (us, without (owned (pw_iovecs pw) (pw_frees pw)) (bufs s))"
    using free_all(1) [of "pw_iovecs pw" "pw_frees pw" "bufs s"] pok by (auto simp: pw_ok_def write_fits_def)
  then obtain us where us: "free_iovecs (pw_iovecs pw) (pw_frees pw) (bufs s) =
      Some (us, without (owned (pw_iovecs pw) (pw_frees pw)) (bufs s))" by blast
  have over_state: "mallocs (sbuf (set_pending qw t)) = []" "writes_ok (sbuf (set_pending qw t))"
    "(write_lookup (sbuf (set_pending qw t)))(k := None) = (write_lookup (sbuf s))(k := None)"
    if "sbuf t = sbuf ?s" "pw_socket qw = k" for qw t
    using upd [of qw "(sbuf s)\<lparr>writes := l\<rparr>"] that ms by (simp_all add: set_pending_def)
  note run = Socket_continueWrite_def l(1) Let_def prod.case Option.bind_lunit
  show thesis
  proof (rule Socket_writev_cases [OF rem, of k])
    fix m n es
    let ?t = "?s\<lparr>accepting := (accepting ?s)(k := es), outgoing := (outgoing ?s)(k := outgoing ?s k @ take n (todo s k))\<rparr>"
    assume m: "accepting ?s k = Accepts m # es" "n = length (take m (todo s k))" and n: "n \<le> length (todo s k)" "set es \<subseteq> set (accepting ?s k)" "Socket_writev k ?vs ?s = Some (int n, n, ?t)"
    have later: "refused s m" if "refused t m" "accepting t = (accepting ?s)(k := es)" for t m
      using refused_later [of es ?s k t m] that n by (simp add: refused_def)
    have total: "pw_bytes pw + n = pw_total pw \<longleftrightarrow> n = length (todo s k)" using td D by auto
    show thesis
    proof (cases "n = length (todo s k)")
      case True
      have r: "Socket_continueWrite k s = Some (1, set_pending (pw\<lparr>pw_bytes := pw_bytes pw + n, pw_iovecs := us\<rparr>)
          (?t\<lparr>bufs := without (owned (pw_iovecs pw) (pw_frees pw)) (bufs s)\<rparr>))"
        unfolding run n using True total us by (simp add: SOCKET_ERROR_def)
      show thesis
        by (rule over [OF r]) (use True sock in \<open>auto simp: over_state elim: later\<close>)
    next
      case False
      have r: "Socket_continueWrite k s = Some (0, set_pending (pw\<lparr>pw_bytes := pw_bytes pw + n\<rparr>) ?t)"
        unfolding run n using False total by (simp add: SOCKET_ERROR_def)
      have "n < length (todo s k)" using False n(1) by simp
      with r show thesis
        by (intro progress [OF r, of n]) (use m in \<open>auto simp: pending_again todo_again look_again elim: later\<close>)
    qed
  next
    fix es
    let ?t = "?s\<lparr>accepting := (accepting ?s)(k := es)\<rparr>"
    assume m: "\<And>m es. accepting ?s k \<noteq> Accepts m # es" and n: "set es \<subseteq> set (accepting ?s k)" "Socket_writev k ?vs ?s = Some (-22, 0, ?t)"
    have later: "refused s m" if "refused t m" "accepting t = (accepting ?s)(k := es)" for t m
      using refused_later [of es ?s k t m] that n by (simp add: refused_def)
    have pos: "0 < length (todo s k)" using td D by simp
    have r: "Socket_continueWrite k s = Some (0, set_pending (pw\<lparr>pw_bytes := pw_bytes pw + 0\<rparr>) ?t)"
      unfolding run n using D(3) by (simp add: SOCKET_ERROR_def)
    show thesis
      by (rule progress [OF r, of 0]) (use pos m pending_again [of 0 ?t] todo_again [of 0 ?t] look_again [of 0 ?t] in \<open>auto elim: later\<close>)
  next
    fix e es
    let ?t = "?s\<lparr>accepting := (accepting ?s)(k := es)\<rparr>"
    assume n: "Refuses e \<in> set (accepting ?s k)" "e \<noteq> EAGAIN" "set es \<subseteq> set (accepting ?s k)" "Socket_writev k ?vs ?s = Some (-1, 0, ?t)"
    have later: "refused s m" if "refused t m" "accepting t = (accepting ?s)(k := es)" for t m
      using refused_later [of es ?s k t m] that n by (simp add: refused_def)
    have r: "Socket_continueWrite k s = Some (-1, set_pending (pw\<lparr>pw_iovecs := us\<rparr>)
        (?t\<lparr>bufs := without (owned (pw_iovecs pw) (pw_frees pw)) (bufs s)\<rparr>))"
      unfolding run n using us by (simp add: SOCKET_ERROR_def)
    show thesis
      by (rule over [OF r]) (use sock n in \<open>auto simp: over_state refused_def [of s k] elim: later\<close>)
  qed
qed

section \<open>All pending writes\<close>

lemma table_ok_remove_at:
  assumes "table_ok (\<lambda>k. k) l" "i < length (items l)"
  shows "table_ok (\<lambda>k. k) (remove_at i l)" "set (items (remove_at i l)) = set (items l) - {items l ! i}"
  using assms cursor_after_removal_ok [of l i]
  by (auto simp: table_ok_def remove_at_def distinct_remove_nth set_remove_nth)

text \<open>The state after the write of the pending socket \<open>k\<close> is over and the module has forgotten it.\<close>

lemma pending_forgotten:
  assumes ok: "pending_ok s" and pw: "write_lookup (sbuf s) k = Some pw"
    and t: "write_lookup (sbuf t) = (write_lookup (sbuf s))(k := None)" "writes_ok (sbuf t)" "mallocs (sbuf t) = []"
      "table_ok (\<lambda>k. k) (write_pending (mod_s t))"
      "set (items (write_pending (mod_s t))) = set (items (write_pending (mod_s s))) - {k}"
      "bufs t = without (owned (pw_iovecs pw) (pw_frees pw)) (bufs s)"
  shows "pending_ok t" "todo t = (todo s)(k := [])"
proof -
  have keep: "pw_ok (bufs t) qw" "data_of (bufs t) qw = data_of (bufs s) qw"
    if "write_lookup (sbuf s) l = Some qw" "l \<noteq> k" for l qw
    using without_clear [of "bufs s" qw] pending_clear [OF ok pw that(1)] that ok
    unfolding t(6) pending_ok_def by blast+
  have "clear_of (bufs t) (owned (pw_iovecs qw) (pw_frees qw)) rw"
    if "write_lookup (sbuf s) l = Some qw" "write_lookup (sbuf s) m = Some rw" "l \<noteq> m" for l m qw rw
    using clear_without [OF pending_clear [OF ok that]] unfolding t(6) .
  then have sep: "\<forall>l qw m rw. write_lookup (sbuf t) l = Some qw \<and> write_lookup (sbuf t) m = Some rw \<and> l \<noteq> m \<longrightarrow>
      clear_of (bufs t) (owned (pw_iovecs qw) (pw_frees qw)) rw"
    unfolding t(1) by (auto split: if_splits)
  have all: "\<forall>l qw. write_lookup (sbuf t) l = Some qw \<longrightarrow> pw_ok (bufs t) qw"
    unfolding t(1) using keep(1) by (simp split: if_splits)
  have dom: "set (items (write_pending (mod_s t))) = {l. write_lookup (sbuf t) l \<noteq> None}"
    unfolding t(1,5) using ok by (auto simp: pending_ok_def)
  have range: "\<forall>l\<in>set (items (write_pending (mod_s t))). 0 \<le> l \<and> l < FD_SETSIZE"
    unfolding t(5) using ok by (simp add: pending_ok_def)
  show "pending_ok t" unfolding pending_ok_def using t(2,3,4) dom range all sep by blast
  show "todo t = (todo s)(k := [])"
    unfolding fun_eq_iff todo_def t(1) using keep(2) by (simp split: option.splits)
qed

text \<open>What a round of continued writes does: the kernel's bytes only grow; on every socket the bytes taken
  and the bytes left are together what they were, except on the sockets \<open>E\<close> whose connection the kernel
  reported broken; what was left there is dropped.\<close>

definition conserves :: "int set \<Rightarrow> net \<Rightarrow> net \<Rightarrow> bool" where
  "conserves E s s' \<longleftrightarrow> (\<forall>k. prefix (outgoing s k) (outgoing s' k) \<and>
     (k \<notin> E \<longrightarrow> outgoing s' k @ todo s' k = outgoing s k @ todo s k) \<and>
     (k \<in> E \<longrightarrow> todo s' k = [] \<and> prefix (outgoing s' k) (outgoing s k @ todo s k)))"

lemma conserves_refl [simp]: "conserves {} s s"
  by (simp add: conserves_def)

lemma conserves_trans:
  assumes "conserves E s t" "conserves F t u"
  shows "conserves (E \<union> F) s u"
proof -
  have "prefix (outgoing s k) (outgoing u k) \<and>
     (k \<notin> E \<union> F \<longrightarrow> outgoing u k @ todo u k = outgoing s k @ todo s k) \<and>
     (k \<in> E \<union> F \<longrightarrow> todo u k = [] \<and> prefix (outgoing u k) (outgoing s k @ todo s k))" for k
  proof -
    have s: "prefix (outgoing s k) (outgoing t k)" "k \<notin> E \<longrightarrow> outgoing t k @ todo t k = outgoing s k @ todo s k"
      "k \<in> E \<longrightarrow> todo t k = [] \<and> prefix (outgoing t k) (outgoing s k @ todo s k)"
      using assms(1) unfolding conserves_def by blast+
    have t: "prefix (outgoing t k) (outgoing u k)" "k \<notin> F \<longrightarrow> outgoing u k @ todo u k = outgoing t k @ todo t k"
      "k \<in> F \<longrightarrow> todo u k = [] \<and> prefix (outgoing u k) (outgoing t k @ todo t k)"
      using assms(2) unfolding conserves_def by blast+
    have "prefix (outgoing s k) (outgoing u k)" using s(1) t(1) by (rule prefix_order.trans)
    moreover have "todo u k = [] \<and> outgoing u k = outgoing t k" if "k \<in> E" "k \<notin> F"
      using s(3) t that by (auto simp: prefix_def)
    moreover have "prefix (outgoing u k) (outgoing t k)" if "k \<in> E" "k \<in> F" using s(3) t(3) that by auto
    ultimately show ?thesis using s t by (cases "k \<in> E"; cases "k \<in> F") (auto dest: prefix_order.trans)
  qed
  then show ?thesis unfolding conserves_def by blast
qed

lemma outgoing_conserves:
  assumes "todo t = (todo s)(k := drop n (todo s k))" "outgoing t = (outgoing s)(k := outgoing s k @ take n (todo s k))"
  shows "conserves {} s t"
  unfolding conserves_def by (simp add: assms)

lemma FD_in_range: "0 \<le> k \<Longrightarrow> k < FD_SETSIZE \<Longrightarrow> FD_ISSET k S = Some (k \<in> S) \<and> FD_CLR k S = Some (S - {k}) \<and> FD_SET k S = Some (insert k S)"
  by (simp add: FD_ISSET_def FD_CLR_def FD_SET_def)

lemma pending_lookup:
  assumes "pending_ok s" "i < length (items (write_pending (mod_s s)))"
  defines "k \<equiv> items (write_pending (mod_s s)) ! i"
  obtains pw where "write_lookup (sbuf s) k = Some pw" "0 \<le> k" "k < FD_SETSIZE"
  using assms nth_mem [OF assms(2)] unfolding pending_ok_def by blast

definition position_ok :: "nat option \<Rightarrow> 'c alist \<Rightarrow> bool" where
  "position_ok p l \<longleftrightarrow> (\<forall>i. p = Some i \<longrightarrow> i < length (items l))"

lemma next_position_ok [simp]: "position_ok (next_position i l) l"
  by (simp add: position_ok_def next_position_def)

lemma cursor_position_ok: "table_ok key l \<Longrightarrow> position_ok (cursor l) l"
  by (auto simp: table_ok_def alist_ok_def position_ok_def split: option.splits)

lemma todo_cong: "sbuf t = sbuf s \<Longrightarrow> bufs t = bufs s \<Longrightarrow> todo t = todo s"
  unfolding fun_eq_iff todo_def by (simp split: option.split)

lemma refused_cong: "accepting t = accepting s \<Longrightarrow> refused t = refused s"
  unfolding fun_eq_iff refused_def by simp

lemma pending_ok_cong: "sbuf t = sbuf s \<Longrightarrow> bufs t = bufs s \<Longrightarrow> mod_s t = mod_s s \<Longrightarrow> pending_ok t = pending_ok s"
  by (simp add: pending_ok_def)

text \<open>The kernel is willing to take the rest of every pending write, at least a byte at a time.\<close>

definition generous :: "net \<Rightarrow> bool" where
  "generous s \<longleftrightarrow> (\<forall>k. todo s k \<noteq> [] \<longrightarrow>
     (\<exists>ns. accepting s k = map Accepts ns \<and> 0 \<notin> set ns \<and> length (todo s k) \<le> length ns))"

lemma generous_progress:
  assumes g: "generous s" and n: "n < length (todo s k)" "todo t = (todo s)(k := drop n (todo s k))"
    and acc: "\<And>m es. accepting s k = Accepts m # es \<Longrightarrow> n = length (take m (todo s k)) \<and> accepting t = (accepting s)(k := es)"
  shows "generous t" "length (todo t k) < length (todo s k)"
proof -
  obtain ns where ns: "accepting s k = map Accepts ns" "0 \<notin> set ns" "length (todo s k) \<le> length ns"
    using g n(1) unfolding generous_def by force
  then obtain m r where m: "ns = m # r" "0 < m" using n(1) by (cases ns) auto
  then have a: "n = length (take m (todo s k))" "accepting t = (accepting s)(k := map Accepts r)"
    using acc [of m "map Accepts r"] ns(1) by simp_all
  have "0 < n" using a(1) m(2) n(1) by auto
  then show "length (todo t k) < length (todo s k)" using n by simp
  show "generous t"
    unfolding generous_def
  proof (intro allI impI)
    fix l assume l: "todo t l \<noteq> []"
    show "\<exists>ns. accepting t l = map Accepts ns \<and> 0 \<notin> set ns \<and> length (todo t l) \<le> length ns"
    proof (cases "l = k")
      case True
      then show ?thesis using a(2) ns m n \<open>0 < n\<close> by (intro exI [of _ r]) auto
    next
      case False
      then show ?thesis using g l a(2) n(2) unfolding generous_def by auto
    qed
  qed
qed

lemma generous_over:
  "generous s \<Longrightarrow> todo t = (todo s)(k := []) \<Longrightarrow> (\<And>l. l \<noteq> k \<Longrightarrow> accepting t l = accepting s l) \<Longrightarrow> generous t"
  unfolding generous_def by auto

text \<open>The sockets on which the kernel has refused a write between two states: one of its answers that have
  been used up is an error other than "would block".\<close>

definition kernel_refused :: "net \<Rightarrow> net \<Rightarrow> int set" where
  "kernel_refused s t = {k. \<exists>xs e. accepting s k = xs @ accepting t k \<and> Refuses e \<in> set xs \<and> e \<noteq> EAGAIN}"

text \<open>The blocks of the writes that are over have been freed, and no other.\<close>

definition released :: "net \<Rightarrow> net \<Rightarrow> bool" where
  "released s t \<longleftrightarrow>
     (\<forall>k. write_lookup (sbuf t) k \<noteq> None \<longrightarrow> write_lookup (sbuf s) k \<noteq> None \<and> write_blocks k t = write_blocks k s) \<and>
     extent (bufs t) = (\<lambda>p. if \<exists>k. write_lookup (sbuf t) k = None \<and> p \<in> set (write_blocks k s) then None else extent (bufs s) p)"

text \<open>The kernel's answers are used up in order, and only on sockets of \<open>W\<close> with a pending write.\<close>

definition accounts :: "fd_set \<Rightarrow> net \<Rightarrow> net \<Rightarrow> bool" where
  "accounts W s t \<longleftrightarrow> (\<forall>k. suffix (accepting t k) (accepting s k)) \<and>
     (\<forall>k. accepting t k \<noteq> accepting s k \<longrightarrow> k \<in> W \<and> write_lookup (sbuf s) k \<noteq> None) \<and> released s t"

lemma released_refl: "released s s"
proof -
  have "extent (bufs s) = (\<lambda>p. if \<exists>k. write_lookup (sbuf s) k = None \<and> p \<in> set (write_blocks k s) then None else extent (bufs s) p)"
    by (auto simp: write_blocks_def fun_eq_iff)
  then show ?thesis unfolding released_def by blast
qed

lemma accounts_refl: "accounts W s s"
  by (simp add: accounts_def released_refl)

lemma kernel_refused_refl [simp]: "kernel_refused s s = {}"
  by (simp add: kernel_refused_def)

lemma if_or: "C = (A \<or> B) \<Longrightarrow> (if A then x else if B then x else y) = (if C then x else y)"
  by simp

lemma released_trans:
  assumes st: "released s t" and tu: "released t u"
  shows "released s u"
proof -
  have l: "write_lookup (sbuf u) k \<noteq> None \<Longrightarrow> write_lookup (sbuf t) k \<noteq> None \<and> write_blocks k u = write_blocks k t"
    "write_lookup (sbuf t) k \<noteq> None \<Longrightarrow> write_lookup (sbuf s) k \<noteq> None \<and> write_blocks k t = write_blocks k s" for k
    using st tu unfolding released_def by blast+
  have e: "extent (bufs t) p = (if \<exists>k. write_lookup (sbuf t) k = None \<and> p \<in> set (write_blocks k s) then None else extent (bufs s) p)"
    "extent (bufs u) p = (if \<exists>k. write_lookup (sbuf u) k = None \<and> p \<in> set (write_blocks k t) then None else extent (bufs t) p)" for p
    using st tu unfolding released_def fun_eq_iff by blast+
  have none: "write_lookup (sbuf t) k = None \<Longrightarrow> set (write_blocks k t) = {}" for k by (simp add: write_blocks_def)
  have "extent (bufs u) p = (if \<exists>k. write_lookup (sbuf u) k = None \<and> p \<in> set (write_blocks k s) then None else extent (bufs s) p)" for p
  proof -
    have "(\<exists>k. write_lookup (sbuf u) k = None \<and> p \<in> set (write_blocks k s)) \<longleftrightarrow>
        (\<exists>k. write_lookup (sbuf u) k = None \<and> p \<in> set (write_blocks k t)) \<or>
        (\<exists>k. write_lookup (sbuf t) k = None \<and> p \<in> set (write_blocks k s))"
      using l none by (metis empty_iff)
    then show ?thesis unfolding e by (rule if_or)
  qed
  then show ?thesis unfolding released_def fun_eq_iff using l by simp
qed

lemma accounts_trans:
  assumes "accounts W s t" "accounts W t u"
  shows "accounts W s u" "kernel_refused s u = kernel_refused s t \<union> kernel_refused t u"
proof -
  have r: "released s t" "released t u" using assms by (simp_all add: accounts_def)
  have s: "suffix (accepting t k) (accepting s k)" "suffix (accepting u k) (accepting t k)" for k
    using assms by (simp_all add: accounts_def)
  have "k \<in> W \<and> write_lookup (sbuf s) k \<noteq> None" if "accepting u k \<noteq> accepting s k" for k
    using that assms r(1) unfolding accounts_def released_def by metis
  then show "accounts W s u"
    using released_trans [OF r] suffix_order.trans [OF s(2) s(1)] unfolding accounts_def by blast
  show "kernel_refused s u = kernel_refused s t \<union> kernel_refused t u"
  proof (intro set_eqI)
    fix k
    obtain xs ys where x: "accepting s k = xs @ accepting t k" "accepting t k = ys @ accepting u k"
      using s [of k] unfolding suffix_def by blast
    then show "k \<in> kernel_refused s u \<longleftrightarrow> k \<in> kernel_refused s t \<union> kernel_refused t u"
      by (auto simp: kernel_refused_def)
  qed
qed

lemma continueWrite_kernel:
  assumes "Socket_continueWrite k s = Some (rc, t)"
  shows "suffix (accepting t l) (accepting s l)" "l \<noteq> k \<Longrightarrow> accepting t l = accepting s l"
    "kernel_refused s t = (if rc = -1 then {k} else {})" "accepting s k \<noteq> [] \<Longrightarrow> accepting t k \<noteq> accepting s k"
proof -
  obtain pw b where g: "SocketBuffer_getWrite k (sbuf s) = (Some pw, b)"
    using assms by (cases "SocketBuffer_getWrite k (sbuf s)") (auto simp: Socket_continueWrite_def split: Option.bind_splits)
  obtain r n v where w: "Socket_writev k (remaining_iovecs (pw_bytes pw) 0 (pw_iovecs pw)) (set_sbuf b s) = Some (r, n, v)"
    using assms by (auto simp: Socket_continueWrite_def g split: Option.bind_splits)
  have t: "accepting t = accepting v" "rc = -1 \<longleftrightarrow> r = -1"
    using assms by (auto simp: Socket_continueWrite_def g w Let_def set_pending_def SOCKET_ERROR_def
        split: Option.bind_splits if_splits)
  have v: "\<exists>xs. accepting s k = xs @ accepting v k \<and> (\<forall>l. l \<noteq> k \<longrightarrow> accepting v l = accepting s l) \<and>
      (xs = [] \<longrightarrow> accepting s k = []) \<and> (r = -1 \<longleftrightarrow> (\<exists>e. Refuses e \<in> set xs \<and> e \<noteq> EAGAIN))"
    using w by (auto simp: Socket_writev_def writev_def Let_def SOCKET_ERROR_def TCPSOCKET_INTERRUPTED_def
        split: list.splits writev_event.splits Option.bind_splits if_splits)
  then obtain xs where x: "accepting s k = xs @ accepting v k" "\<And>l. l \<noteq> k \<Longrightarrow> accepting v l = accepting s l"
    "xs = [] \<Longrightarrow> accepting s k = []" "r = -1 \<longleftrightarrow> (\<exists>e. Refuses e \<in> set xs \<and> e \<noteq> EAGAIN)" by blast
  show "suffix (accepting t l) (accepting s l)" unfolding t(1) using x(1,2) by (cases "l = k") (simp_all add: suffix_def)
  show "l \<noteq> k \<Longrightarrow> accepting t l = accepting s l" unfolding t(1) by (rule x(2))
  show "accepting s k \<noteq> [] \<Longrightarrow> accepting t k \<noteq> accepting s k" unfolding t(1) using x(1,3) by auto
  have "l \<in> kernel_refused s t \<longleftrightarrow> l = k \<and> r = -1" for l
  proof (cases "l = k")
    case True
    show ?thesis unfolding kernel_refused_def t(1) True by (simp add: x(1,4))
  next
    case False
    then show ?thesis unfolding kernel_refused_def t(1) by (simp add: x(2))
  qed
  then have "kernel_refused s t = (if r = -1 then {k} else {})" by (intro set_eqI) simp
  then show "kernel_refused s t = (if rc = -1 then {k} else {})" by (simp only: t(2))
qed

text \<open>One turn of the loop: it gets nearer to its end, keeps the invariant, and neither loses nor repeats
  bytes.\<close>

lemma continue_step:
  assumes ok: "pending_ok s" and i: "i < length (items (write_pending (mod_s s)))"
  obtains cur so rc' t F where
    "continue_pending W (Some i) sock rc1 s = continue_pending W cur so rc' t"
    "pending_ok t" "position_ok cur (write_pending (mod_s t))" "conserves F s t" "\<forall>l\<in>F. refused s l"
    "rc' = (if F = {} then rc1 else -1)" "\<forall>l. refused t l \<longrightarrow> refused s l"
    "length (items (write_pending (mod_s t))) < length (items (write_pending (mod_s s))) \<or>
     mod_s t = mod_s s \<and> cur = next_position i (write_pending (mod_s s))"
    "generous s \<Longrightarrow> generous t"
    "items (write_pending (mod_s s)) ! i \<in> W \<Longrightarrow> generous s \<Longrightarrow>
       length (todo t (items (write_pending (mod_s s)) ! i)) < length (todo s (items (write_pending (mod_s s)) ! i))"
    "accounts W s t" "F = kernel_refused s t" "so = (if F = {} then sock else Some (items (write_pending (mod_s s)) ! i))"
    "F \<subseteq> {items (write_pending (mod_s s)) ! i}"
    "items (write_pending (mod_s s)) ! i \<in> W \<Longrightarrow> accepting s (items (write_pending (mod_s s)) ! i) \<noteq> [] \<Longrightarrow>
       accepting t (items (write_pending (mod_s s)) ! i) \<noteq> accepting s (items (write_pending (mod_s s)) ! i)"
proof -
  let ?wp = "write_pending (mod_s s)"
  let ?k = "items ?wp ! i"
  obtain pw where pw: "write_lookup (sbuf s) ?k = Some pw" and k: "0 \<le> ?k" "?k < FD_SETSIZE"
    using pending_lookup [OF ok i] .
  note fd = FD_in_range [OF k]
  note step = continue_pending.simps [of W "Some i" sock rc1 s] and result = that
  have on: thesis
    if run: "(if ?k \<in> W then Socket_continueWrite ?k s else Some (0, s)) = Some (0, t)"
      and t: "mod_s t = mod_s s" "conserves {} s t" "pending_ok t" "\<And>l. refused t l \<Longrightarrow> refused s l"
        "generous s \<Longrightarrow> generous t" "?k \<in> W \<Longrightarrow> generous s \<Longrightarrow> length (todo t ?k) < length (todo s ?k)"
        "accounts W s t" "kernel_refused s t = {}" "?k \<in> W \<Longrightarrow> accepting s ?k \<noteq> [] \<Longrightarrow> accepting t ?k \<noteq> accepting s ?k" for t
    by (rule result [of "next_position i ?wp" sock rc1 t "{}"])
      (use run i t fd in \<open>simp_all add: step Let_def SOCKET_ERROR_def\<close>)
  show thesis
  proof (cases "?k \<in> W")
    case False
    then show thesis using on [of s] ok accounts_refl by simp
  next
    case True
    show thesis
    proof (rule continue_one [OF ok pw])
      fix n s1
      assume s1: "Socket_continueWrite ?k s = Some (0, s1)" "mod_s s1 = mod_s s" "n < length (todo s ?k)"
        "todo s1 = (todo s)(?k := drop n (todo s ?k))"
        "outgoing s1 = (outgoing s)(?k := outgoing s ?k @ take n (todo s ?k))" "pending_ok s1"
        "\<And>l. refused s1 l \<Longrightarrow> refused s l"
        "\<And>m es. accepting s ?k = Accepts m # es \<Longrightarrow>
           n = length (take m (todo s ?k)) \<and> accepting s1 = (accepting s)(?k := es)"
        "bufs s1 = bufs s" "write_lookup (sbuf s1) = (write_lookup (sbuf s))(?k := Some (pw\<lparr>pw_bytes := pw_bytes pw + n\<rparr>))"
      note kern = continueWrite_kernel [OF s1(1)]
      have "released s s1"
        using released_refl [of s] pw unfolding released_def s1(9,10) by (auto simp: write_blocks_def s1(10) fun_eq_iff)
      moreover have "accepting s1 m \<noteq> accepting s m \<Longrightarrow> m = ?k" for m using kern(2) [of m] by blast
      ultimately have acc: "accounts W s s1" unfolding accounts_def using kern(1) True pw by auto
      show thesis
        by (rule on [of s1]) (use s1 True outgoing_conserves generous_progress [OF _ s1(3,4,8)] acc kern(3,4) in simp_all)
    next
      fix rc s1
      assume s1: "Socket_continueWrite ?k s = Some (rc, s1)" "mod_s s1 = mod_s s" "rc = 1 \<or> rc = -1 \<and> refused s ?k"
        "\<And>l. refused s1 l \<Longrightarrow> refused s l" "\<And>l. l \<noteq> ?k \<Longrightarrow> accepting s1 l = accepting s l"
        "outgoing s1 = (outgoing s)(?k := outgoing s ?k @ (if rc = 1 then todo s ?k else []))"
        "bufs s1 = without (owned (pw_iovecs pw) (pw_frees pw)) (bufs s)" "mallocs (sbuf s1) = []"
        "writes_ok (sbuf s1)" "(write_lookup (sbuf s1))(?k := None) = (write_lookup (sbuf s))(?k := None)"
      let ?b = "snd (SocketBuffer_writeComplete ?k (sbuf s1))" and ?l = "remove_at i ?wp"
      let ?s2 = "upd_mod (\<lambda>m. m\<lparr>write_pending := ?l, pending_wset := pending_wset (mod_s s1) - {?k}\<rparr>) (set_sbuf ?b s1)"
      let ?t = "?s2\<lparr>events := events ?s2 @ (if writeAvailable ?s2 \<and> 0 < rc then [Write_available ?k] else []) @
        (if writecomplete ?s2 then [Write_complete ?k rc] else [])\<rparr>"
      let ?F = "if rc = 1 then {} else {?k}"
      have wp: "table_ok (\<lambda>k. k) ?wp" using ok by (simp add: pending_ok_def)
      note l = table_ok_remove_at [OF wp i]
      have t: "pending_ok ?t" "todo ?t = (todo s)(?k := [])"
        using pending_forgotten [OF ok pw, of ?t] complete_write [OF s1(9), of ?k] s1(7,8,10) l by simp_all
      have same: "outgoing ?t = outgoing s1" "accepting ?t = accepting s1" "write_pending (mod_s ?t) = ?l" by simp_all
      have nz: "rc \<noteq> 0" using s1(3) by auto
      note kern = continueWrite_kernel [OF s1(1)]
      have lk: "write_lookup (sbuf ?t) = (write_lookup (sbuf s))(?k := None)" "bufs ?t = bufs s1"
        using complete_write(2) [OF s1(9), of ?k] s1(10) by simp_all
      have wb: "write_blocks ?k s = owned (pw_iovecs pw) (pw_frees pw)" using pw by (simp add: write_blocks_def)
      have keep: "write_blocks m ?t = (if m = ?k then [] else write_blocks m s)" for m
        unfolding write_blocks_def lk(1) by simp
      have gone: "(\<exists>m. write_lookup (sbuf ?t) m = None \<and> p \<in> set (write_blocks m s)) \<longleftrightarrow> p \<in> set (write_blocks ?k s)" for p
        unfolding lk(1) by (auto simp: write_blocks_def split: if_splits option.splits)
      have "extent (bufs ?t) p = (if \<exists>m. write_lookup (sbuf ?t) m = None \<and> p \<in> set (write_blocks m s) then None else extent (bufs s) p)" for p
        unfolding gone wb unfolding lk(2) s1(7) by (simp add: without_def)
      moreover have "write_lookup (sbuf s) m \<noteq> None \<and> write_blocks m ?t = write_blocks m s" if "write_lookup (sbuf ?t) m \<noteq> None" for m
        using that unfolding keep unfolding lk(1) by (simp split: if_splits)
      ultimately have "released s ?t" unfolding released_def fun_eq_iff by blast
      moreover have "accepting ?t m \<noteq> accepting s m \<Longrightarrow> m = ?k" for m using kern(2) [of m] unfolding same by blast
      ultimately have acc: "accounts W s ?t" unfolding accounts_def using kern(1) True pw by (auto simp: same)
      have kr: "kernel_refused s ?t = ?F" using kern(3) s1(3) unfolding kernel_refused_def same by auto
      have nonempty: "todo s ?k \<noteq> []" using todo_pending [OF ok, of ?k] i by simp
      show thesis
      proof (rule result [of "cursor ?l" "if rc = SOCKET_ERROR then Some ?k else sock"
            "if rc = SOCKET_ERROR then SOCKET_ERROR else rc1" ?t ?F])
        show "continue_pending W (Some i) sock rc1 s = continue_pending W (cursor ?l)
            (if rc = SOCKET_ERROR then Some ?k else sock) (if rc = SOCKET_ERROR then SOCKET_ERROR else rc1) ?t"
          using s1(1,2) i nz True by (simp add: step fd Let_def split_beta)
        show "conserves ?F s ?t"
          unfolding conserves_def t(2) same(1) s1(6) by (auto simp: prefix_def)
        show "position_ok (cursor ?l) (write_pending (mod_s ?t))"
          using cursor_position_ok [OF l(1)] by (simp only: same)
        show "\<forall>m. refused ?t m \<longrightarrow> refused s m"
          unfolding refused_cong [OF same(2)] using s1(4) by blast
        show "generous s \<Longrightarrow> generous ?t"
          by (rule generous_over [OF _ t(2)]) (use s1(5) in simp_all)
        show "length (items (write_pending (mod_s ?t))) < length (items ?wp) \<or>
            mod_s ?t = mod_s s \<and> cursor ?l = next_position i ?wp"
          unfolding same by (rule disjI1) (use i in \<open>simp add: remove_at_def\<close>)
        show "length (todo ?t ?k) < length (todo s ?k)"
          unfolding t(2) using nonempty by simp
        show "accounts W s ?t" by (rule acc)
        show "?F = kernel_refused s ?t" by (rule kr [symmetric])
        show "accepting s ?k \<noteq> [] \<Longrightarrow> accepting ?t ?k \<noteq> accepting s ?k" unfolding same by (rule kern(4))
      qed (use t(1) s1(3) in \<open>auto simp: SOCKET_ERROR_def\<close>)
    qed
  qed
qed

definition loop_measure :: "nat option \<Rightarrow> net \<Rightarrow> nat" where
  "loop_measure cur s = (let n = length (items (write_pending (mod_s s))) in
     n * (n + 2) + (case cur of None \<Rightarrow> 0 | Some i \<Rightarrow> Suc n - i))"

lemma loop_measure_less:
  assumes "i < length (items (write_pending (mod_s s)))" "position_ok cur (write_pending (mod_s t))"
    "length (items (write_pending (mod_s t))) < length (items (write_pending (mod_s s))) \<or>
     mod_s t = mod_s s \<and> cur = next_position i (write_pending (mod_s s))"
  shows "loop_measure cur t < loop_measure (Some i) s"
  using assms(3)
proof
  let ?n = "length (items (write_pending (mod_s s)))" and ?m = "length (items (write_pending (mod_s t)))"
  assume less: "?m < ?n"
  have "loop_measure cur t \<le> ?m * (?m + 2) + Suc ?m"
    by (auto simp: loop_measure_def Let_def split: option.split)
  also have "\<dots> < Suc ?m * (Suc ?m + 2)" by simp
  also have "\<dots> \<le> ?n * (?n + 2)" using less by (intro mult_le_mono) simp_all
  also have "\<dots> \<le> loop_measure (Some i) s" by (simp add: loop_measure_def Let_def)
  finally show ?thesis .
next
  assume "mod_s t = mod_s s \<and> cur = next_position i (write_pending (mod_s s))"
  then show ?thesis using assms(1) by (auto simp: loop_measure_def next_position_def Let_def)
qed

lemma continue_all:
  assumes "pending_ok s" "position_ok cur (write_pending (mod_s s))"
  shows "\<exists>rc so s' E. continue_pending W cur sock rc1 s = Some (rc, so, s') \<and> pending_ok s' \<and> conserves E s s' \<and>
    (\<forall>k\<in>E. refused s k) \<and> rc = (if E = {} then rc1 else -1) \<and> (\<forall>k. refused s' k \<longrightarrow> refused s k) \<and>
    (generous s \<longrightarrow> generous s') \<and> accounts W s s' \<and> E = kernel_refused s s' \<and>
    (if E = {} then so = sock else \<exists>k\<in>E. so = Some k)"
  using assms
proof (induction "loop_measure cur s" arbitrary: cur s sock rc1 rule: less_induct)
  case less
  show ?case
  proof (cases cur)
    case None
    with less.prems(1) show ?thesis
      by (intro exI [of _ rc1] exI [of _ sock] exI [of _ s] exI [of _ "{}"])
        (simp add: continue_pending.simps [of W None] accounts_refl)
  next
    case (Some i)
    have i: "i < length (items (write_pending (mod_s s)))" using less.prems(2) Some by (simp add: position_ok_def)
    obtain cur' so rc' t F where t: "continue_pending W (Some i) sock rc1 s = continue_pending W cur' so rc' t"
      "pending_ok t" "position_ok cur' (write_pending (mod_s t))" "conserves F s t" "\<forall>l\<in>F. refused s l"
      "rc' = (if F = {} then rc1 else -1)" "\<forall>l. refused t l \<longrightarrow> refused s l"
      "length (items (write_pending (mod_s t))) < length (items (write_pending (mod_s s))) \<or>
       mod_s t = mod_s s \<and> cur' = next_position i (write_pending (mod_s s))"
      "generous s \<Longrightarrow> generous t" "accounts W s t" "F = kernel_refused s t" "so = (if F = {} then sock else Some (items (write_pending (mod_s s)) ! i))"
      "F \<subseteq> {items (write_pending (mod_s s)) ! i}"
      by (rule continue_step [OF less.prems(1) i, of W sock rc1]) blast
    have "loop_measure cur' t < loop_measure cur s"
      using loop_measure_less [OF i t(3,8)] Some by simp
    from less.hyps [OF this t(2,3), of so rc'] obtain rc so' s' E where s': "continue_pending W cur' so rc' t = Some (rc, so', s')" "pending_ok s'"
      "conserves E t s'" "\<forall>k\<in>E. refused t k" "rc = (if E = {} then rc' else -1)"
      "\<forall>k. refused s' k \<longrightarrow> refused t k" "generous t \<longrightarrow> generous s'" "accounts W t s'" "E = kernel_refused t s'"
      "if E = {} then so' = so else \<exists>k\<in>E. so' = Some k"
      by blast
    note ac = accounts_trans [OF t(10) s'(8)]
    have "if F \<union> E = {} then so' = sock else \<exists>k\<in>F \<union> E. so' = Some k"
      using s'(10) t(12,13) by (auto split: if_splits)
    moreover have "continue_pending W cur sock rc1 s = Some (rc, so', s')" using t(1) s'(1) Some by simp
    moreover have "rc = (if F \<union> E = {} then rc1 else -1)" using s'(5) t(6) by auto
    moreover have "\<forall>k\<in>F \<union> E. refused s k" "\<forall>k. refused s' k \<longrightarrow> refused s k" using s'(4,6) t(5,7) by blast+
    moreover have "generous s \<longrightarrow> generous s'" using s'(7) t(9) by blast
    moreover have "F \<union> E = kernel_refused s s'" using ac(2) t(11) s'(9) by simp
    ultimately show ?thesis using s'(2) conserves_trans [OF t(4) s'(3)] ac(1) by blast
  qed
qed

section \<open>Handing over a packet\<close>

definition new_write :: "int \<Rightarrow> iobuf \<Rightarrow> (iobuf \<times> bool) list \<Rightarrow> nat \<Rightarrow> pending_writes" where
  "new_write k v0 bs n = \<lparr>pw_socket = k, pw_count = length bs + 1,
     pw_total = iov_len v0 + sum_list (map (\<lambda>(v, _). iov_len v) bs), pw_bytes = n,
     pw_iovecs = v0 # map fst bs, pw_frees = True # map snd bs\<rparr>"

text \<open>What the caller of \<open>Socket_putdatas\<close> promises: readable buffers, the packet \<open>D\<close> in all; those that
  are to be freed are live blocks that no pending write uses, and the other way round.\<close>

definition submit_ok :: "net \<Rightarrow> int \<Rightarrow> iobuf \<Rightarrow> (iobuf \<times> bool) list \<Rightarrow> byte list \<Rightarrow> bool" where
  "submit_ok s k v0 bs D \<longleftrightarrow> 0 \<le> k \<and> k < FD_SETSIZE \<and> length bs \<le> 4 \<and> D \<noteq> [] \<and>
     gather (bufs s) (v0 # map fst bs) = Some D \<and>
     distinct (owned (v0 # map fst bs) (True # map snd bs)) \<and>
     (\<forall>p\<in>set (owned (v0 # map fst bs) (True # map snd bs)). extent (bufs s) p \<noteq> None) \<and>
     (\<forall>l qw. write_lookup (sbuf s) l = Some qw \<longrightarrow>
        clear_of (bufs s) (owned (v0 # map fst bs) (True # map snd bs)) qw \<and>
        clear_of (bufs s) (owned (pw_iovecs qw) (pw_frees qw)) (new_write k v0 bs 0))"

lemma total_length [simp]: "(\<Sum>(v, f)\<leftarrow>bs. iov_len v) = (\<Sum>x\<leftarrow>bs. iov_len (fst x))"
  by (induction bs) auto

lemma clear_of_new: "clear_of h ps (new_write k v0 bs n) = clear_of h ps (new_write k v0 bs 0)"
  by (simp add: clear_of_def new_write_def)

lemma find_socket_table:
  assumes "table_ok (\<lambda>k. k) l"
  obtains l' where "find_socket k l = (k \<in> set (items l), l')" "table_ok (\<lambda>k. k) l'" "items l' = items l"
  using that [of "snd (find_socket k l)"]
  by (rule a_find_key [OF assms, of k]; use assms in
    \<open>auto simp: find_socket_def key_lookup_def find_None_iff dest: find_Some_iff [THEN iffD1]\<close>)

lemma pending_cursor:
  assumes "pending_ok s" "table_ok (\<lambda>k. k) l" "items l = items (write_pending (mod_s s))"
  shows "pending_ok (upd_mod (write_pending_update (\<lambda>_. l)) s)"
  using assms by (simp add: pending_ok_def)

lemma noPendingWrites_correct:
  assumes "pending_ok s"
  obtains l where "Socket_noPendingWrites k s = (todo s k = [], upd_mod (write_pending_update (\<lambda>_. l)) s)"
    "pending_ok (upd_mod (write_pending_update (\<lambda>_. l)) s)" "items l = items (write_pending (mod_s s))"
proof -
  obtain l where "find_socket k (write_pending (mod_s s)) = (k \<in> set (items (write_pending (mod_s s))), l)"
    "table_ok (\<lambda>k. k) l" "items l = items (write_pending (mod_s s))"
    using find_socket_table [of "write_pending (mod_s s)" k] assms by (auto simp: pending_ok_def)
  then show thesis using that [of l] pending_cursor [OF assms, of l] todo_pending [OF assms, of k]
    by (simp add: Socket_noPendingWrites_def) blast
qed

lemma pending_added:
  assumes ok: "pending_ok s" and sub: "submit_ok s k v0 bs D" and n: "n < length D" and new: "todo s k = []"
    and t: "sbuf t = (sbuf s)\<lparr>writes := a_append (new_write k v0 bs n) (writes (sbuf s)), mallocs := []\<rparr>" "bufs t = bufs s"
      "table_ok (\<lambda>k. k) (write_pending (mod_s t))"
      "set (items (write_pending (mod_s t))) = insert k (set (items (write_pending (mod_s s))))"
  shows "pending_ok t" "todo t = (todo s)(k := drop n D)"
proof -
  let ?w = "new_write k v0 bs n"
  have none: "write_lookup (sbuf s) k = None"
    using new todo_pending [OF ok, of k] ok by (auto simp: pending_ok_def)
  have D: "gather (bufs s) (v0 # map fst bs) = Some D" using sub by (simp add: submit_ok_def)
  have key: "key_lookup pw_socket (writes (sbuf s)) (pw_socket ?w) = None"
    using none by (simp add: write_lookup_def new_write_def)
  have w: "writes_ok (sbuf t)" "write_lookup (sbuf t) = (write_lookup (sbuf s))(k := Some ?w)"
    using table_ok_append [OF _ key] key_lookup_append [OF key] ok
    by (auto simp: t(1) pending_ok_def writes_ok_def write_lookup_def fun_eq_iff new_write_def)
  have "length D = pw_total ?w"
    using gather_length [OF D] by (simp add: new_write_def comp_def)
  then have wok: "pw_ok (bufs t) ?w"
    using sub n unfolding t(2) by (auto simp: pw_ok_def submit_ok_def new_write_def write_fits_def)
  have "clear_of (bufs t) (owned (pw_iovecs pw) (pw_frees pw)) qw"
    if "write_lookup (sbuf t) l = Some pw" "write_lookup (sbuf t) m = Some qw" "l \<noteq> m" for l pw m qw
  proof -
    have "clear_of (bufs s) (owned (pw_iovecs pw) (pw_frees pw)) ?w" if "l \<noteq> k" "write_lookup (sbuf s) l = Some pw"
      using sub that unfolding clear_of_new [of _ _ k v0 bs n] by (simp add: submit_ok_def)
    moreover have "clear_of (bufs s) (owned (pw_iovecs ?w) (pw_frees ?w)) qw" if "write_lookup (sbuf s) m = Some qw"
      using sub that by (auto simp: submit_ok_def new_write_def)
    ultimately show ?thesis using that pending_clear [OF ok] unfolding w(2) t(2) by (auto split: if_splits)
  qed
  then have sep: "\<forall>l pw m qw. write_lookup (sbuf t) l = Some pw \<and> write_lookup (sbuf t) m = Some qw \<and> l \<noteq> m \<longrightarrow>
      clear_of (bufs t) (owned (pw_iovecs pw) (pw_frees pw)) qw" by blast
  have all: "\<forall>l pw. write_lookup (sbuf t) l = Some pw \<longrightarrow> pw_ok (bufs t) pw"
    using wok ok unfolding w(2) t(2) by (simp add: pending_ok_def)
  have dom: "set (items (write_pending (mod_s t))) = {l. write_lookup (sbuf t) l \<noteq> None}"
    unfolding w(2) t(4) using ok by (auto simp: pending_ok_def)
  have range: "\<forall>l\<in>set (items (write_pending (mod_s t))). 0 \<le> l \<and> l < FD_SETSIZE"
    unfolding t(4) using ok sub by (simp add: pending_ok_def submit_ok_def)
  have ms: "mallocs (sbuf t) = []" by (simp add: t(1))
  show "pending_ok t" unfolding pending_ok_def using ms w(1) t(3) dom range all sep by blast
  show "todo t = (todo s)(k := drop n D)"
    using D unfolding fun_eq_iff todo_def w(2) t(2) by (simp add: data_of_def new_write_def)
qed

text \<open>The four outcomes of handing over a packet.\<close>

lemma putdatas_cases:
  assumes ok: "pending_ok s" and sub: "submit_ok s k v0 bs D"
  obtains (busy) s' where "todo s k \<noteq> []" "Socket_putdatas k (iov_base v0) (iov_len v0) bs s = Some (-1, s')"
      "pending_ok s'" "todo s' = todo s" "outgoing s' = outgoing s" "refused s' = refused s"
  | (complete) s' where "todo s k = []" "Socket_putdatas k (iov_base v0) (iov_len v0) bs s = Some (0, s')"
      "pending_ok s'" "todo s' = todo s" "outgoing s' = (outgoing s)(k := outgoing s k @ D)"
      "\<And>l. refused s' l \<Longrightarrow> refused s l"
  | (interrupted) n s' where "todo s k = []" "n < length D"
      "Socket_putdatas k (iov_base v0) (iov_len v0) bs s = Some (-22, s')"
      "pending_ok s'" "todo s' = (todo s)(k := drop n D)" "outgoing s' = (outgoing s)(k := outgoing s k @ take n D)"
      "\<And>l. refused s' l \<Longrightarrow> refused s l"
  | (failed) s' where "todo s k = []" "refused s k" "Socket_putdatas k (iov_base v0) (iov_len v0) bs s = Some (-1, s')"
      "pending_ok s'" "todo s' = todo s" "outgoing s' = outgoing s"
proof -
  obtain l where l: "Socket_noPendingWrites k s = (todo s k = [], upd_mod (write_pending_update (\<lambda>_. l)) s)"
    "pending_ok (upd_mod (write_pending_update (\<lambda>_. l)) s)" "items l = items (write_pending (mod_s s))"
    using noPendingWrites_correct [OF ok] .
  let ?s = "upd_mod (write_pending_update (\<lambda>_. l)) s"
  have same: "todo ?s = todo s" "outgoing ?s = outgoing s" "refused ?s = refused s"
    using todo_cong [of ?s s] refused_cong [of ?s s] by simp_all
  have len: "length bs \<le> 4" and D0: "D \<noteq> []" and k: "0 \<le> k" "k < FD_SETSIZE" using sub by (simp_all add: submit_ok_def)
  have D: "gather (bufs ?s) (v0 # map fst bs) = Some D" using sub by (simp add: submit_ok_def)
  have total: "iov_len v0 + (\<Sum>x\<leftarrow>bs. iov_len (fst x)) = length D"
    using gather_length [OF D] by (simp add: comp_def)
  have v0: "\<lparr>iov_base = iov_base v0, iov_len = iov_len v0\<rparr> = v0" by simp
  have ms: "mallocs (sbuf s) = []" using ok by (simp add: pending_ok_def)
  note run = Socket_putdatas_def l(1) Let_def prod.case v0
  show thesis
  proof (cases "todo s k = []")
    case False
    have r: "Socket_putdatas k (iov_base v0) (iov_len v0) bs s = Some (-1, ?s)"
      unfolding run using False by (simp add: SOCKET_ERROR_def)
    show thesis by (rule busy [OF False r l(2)]) (simp_all add: same)
  next
    case True
    have interrupt: thesis
      if w: "Socket_writev k (v0 # map fst bs) ?s = Some (rc, n, t)" and n: "n < length D" and rc: "rc \<noteq> -1"
        and t: "t = ?s\<lparr>accepting := (accepting s)(k := es), outgoing := (outgoing s)(k := outgoing s k @ take n D)\<rparr>"
          "set es \<subseteq> set (accepting s k)"
      for rc n t es
    proof -
      let ?w = "new_write k v0 bs n"
      let ?b = "(sbuf s)\<lparr>writes := a_append ?w (writes (sbuf s)), mallocs := []\<rparr>"
      let ?u = "upd_mod (\<lambda>m. m\<lparr>write_pending := a_append k l, pending_wset := insert k (pending_wset m)\<rparr>) (set_sbuf ?b t)"
      have "write_fits k ?w" using len by (simp add: write_fits_def new_write_def)
      from pendingWrite_appends [OF ms this]
      have pw: "SocketBuffer_pendingWrite k (Suc (length bs)) (v0 # map fst bs) (True # map snd bs) (length D) n (sbuf s) = Some (0, ?b)"
        by (simp add: new_write_def total)
      have nm: "net_malloc t = (True, set_sbuf (sbuf s\<lparr>mallocs := []\<rparr>) t)" "sbuf s\<lparr>mallocs := []\<rparr> = sbuf s"
        using ms by (simp_all add: net_malloc_def t)
      have sb: "set_sbuf (sbuf s) t = t" "sbuf t = sbuf s" "mod_s t = mod_s ?s" by (simp_all add: t upd_mod_def)
      have nm2: "net_malloc (set_sbuf ?b t) = (True, set_sbuf ?b t)" by (simp add: net_malloc_def Let_def)
      have r: "Socket_putdatas k (iov_base v0) (iov_len v0) bs s = Some (-22, ?u)"
        unfolding run using True len w rc n FD_in_range [OF k]
        by (simp add: SOCKET_ERROR_def TCPSOCKET_INTERRUPTED_def total nm sb pw nm2 upd_mod_def)
      have new: "k \<notin> set (items (write_pending (mod_s s)))" using True todo_pending [OF ok, of k] by simp
      have table: "table_ok (\<lambda>k. k) (a_append k l)"
        using l(2,3) new by (intro table_ok_append) (auto simp: pending_ok_def key_lookup_def find_None_iff)
      have "pending_ok ?u" "todo ?u = (todo ?s)(k := drop n D)"
        using pending_added [OF l(2), of k v0 bs D n ?u] sub n True table
        by (simp_all add: same t submit_ok_def l(3) a_append_def)
      moreover have "refused s l" if "refused ?u l" for l
        using refused_later [OF t(2) _ that] by (simp add: t(1))
      moreover have "outgoing ?u = (outgoing s)(k := outgoing s k @ take n D)" by (simp add: t(1))
      ultimately show thesis by (intro interrupted [OF True n r]) (simp_all add: same)
    qed
    show thesis
    proof (rule Socket_writev_cases [OF D, of k])
      fix m n es
      let ?t = "?s\<lparr>accepting := (accepting ?s)(k := es), outgoing := (outgoing ?s)(k := outgoing ?s k @ take n D)\<rparr>"
      assume w: "n \<le> length D" "set es \<subseteq> set (accepting ?s k)" "Socket_writev k (v0 # map fst bs) ?s = Some (int n, n, ?t)"
      show thesis
      proof (cases "n = length D")
        case n: True
        have r: "Socket_putdatas k (iov_base v0) (iov_len v0) bs s = Some (0, ?t)"
          unfolding run using True len w(3) n by (simp add: SOCKET_ERROR_def TCPSOCKET_COMPLETE_def total)
        show thesis
          by (rule complete [OF True r]) (use l(2) n refused_later [OF w(2), of ?t] pending_ok_cong [of ?t ?s] todo_cong [of ?t ?s] in \<open>simp_all add: same\<close>)
      next
        case False
        with w show thesis by (intro interrupt [OF w(3)]) simp_all
      qed
    next
      fix es
      assume "\<And>m es. accepting ?s k \<noteq> Accepts m # es" and w: "set es \<subseteq> set (accepting ?s k)" "Socket_writev k (v0 # map fst bs) ?s = Some (-22, 0, ?s\<lparr>accepting := (accepting ?s)(k := es)\<rparr>)"
      have eq: "?s\<lparr>accepting := (accepting ?s)(k := es)\<rparr> = ?s\<lparr>accepting := (accepting s)(k := es),
          outgoing := (outgoing s)(k := outgoing s k @ take 0 D)\<rparr>"
        by (simp add: fun_upd_idem_iff upd_mod_def)
      show thesis by (rule interrupt [OF w(2) _ _ eq]) (use D0 w(1) in simp_all)
    next
      fix e es
      assume w: "Refuses e \<in> set (accepting ?s k)" "e \<noteq> EAGAIN"
        "Socket_writev k (v0 # map fst bs) ?s = Some (-1, 0, ?s\<lparr>accepting := (accepting ?s)(k := es)\<rparr>)"
      have r: "Socket_putdatas k (iov_base v0) (iov_len v0) bs s = Some (-1, ?s\<lparr>accepting := (accepting ?s)(k := es)\<rparr>)"
        unfolding run using True len w(3) by (simp add: SOCKET_ERROR_def)
      have "refused s k" using w(1,2) by (auto simp: refused_def)
      then show thesis
        by (rule failed [OF True _ r]) (use l(2) pending_ok_cong [of "?s\<lparr>accepting := (accepting ?s)(k := es)\<rparr>" ?s]
              todo_cong [of "?s\<lparr>accepting := (accepting ?s)(k := es)\<rparr>" ?s] in \<open>simp_all add: same\<close>)
    qed
  qed
qed

section \<open>Runs\<close>

text \<open>What happens to the write side of the module: packets are handed over, rounds of continued writes
  happen for any set of writable sockets, the kernel changes its mind about what it will take (but the
  connections hold), and the client uses the memory that no pending write depends on.  \<open>sub k\<close> is all that
  was accepted for the socket \<open>k\<close>, packet after packet.\<close>

definition memory_kept :: "net \<Rightarrow> bufmem \<Rightarrow> bool" where
  "memory_kept s h \<longleftrightarrow> (\<forall>k pw. write_lookup (sbuf s) k = Some pw \<longrightarrow>
     (\<forall>a\<in>uses (pw_iovecs pw). cells h a = cells (bufs s) a) \<and>
     (\<forall>p\<in>set (owned (pw_iovecs pw) (pw_frees pw)). extent h p = extent (bufs s) p))"

inductive net_run :: "net \<Rightarrow> (int \<Rightarrow> byte list) \<Rightarrow> bool" where
  start: "net_run s (outgoing s)" if "pending_ok s" "items (write_pending (mod_s s)) = []" "\<forall>k. \<not> refused s k"
| put: "net_run s' (if rc = TCPSOCKET_COMPLETE \<or> rc = TCPSOCKET_INTERRUPTED then sub(k := sub k @ D) else sub)"
    if "net_run s sub" "submit_ok s k v0 bs D" "Socket_putdatas k (iov_base v0) (iov_len v0) bs s = Some (rc, s')"
| continue: "net_run s' sub" if "net_run s sub" "Socket_continueWrites W None s = Some (rc, so, s')"
| kernel: "net_run (s\<lparr>accepting := a\<rparr>) sub" if "net_run s sub" "\<forall>k. \<not> refused (s\<lparr>accepting := a\<rparr>) k"
| memory: "net_run (s\<lparr>bufs := h\<rparr>) sub" if "net_run s sub" "memory_kept s h"

lemma memory_kept_ok:
  assumes ok: "pending_ok s" and kept: "memory_kept s h"
  shows "pending_ok (s\<lparr>bufs := h\<rparr>)" "todo (s\<lparr>bufs := h\<rparr>) = todo s"
proof -
  have g: "gather h (pw_iovecs pw) = gather (bufs s) (pw_iovecs pw)" if "write_lookup (sbuf s) k = Some pw" for k pw
    using kept that by (intro gather_cong) (auto simp: memory_kept_def)
  have ext: "extent h p = extent (bufs s) p"
    if "write_lookup (sbuf s) k = Some pw" "p \<in> set (owned (pw_iovecs pw) (pw_frees pw))" for k pw p
    using kept that by (auto simp: memory_kept_def)
  have "pw_ok h pw" if "write_lookup (sbuf s) k = Some pw" for k pw
    using ok that g [OF that] ext [OF that] unfolding pending_ok_def pw_ok_def by auto
  moreover have "clear_of h (owned (pw_iovecs pw) (pw_frees pw)) qw"
    if "write_lookup (sbuf s) k = Some pw" "write_lookup (sbuf s) l = Some qw" "k \<noteq> l" for k pw l qw
    using pending_clear [OF ok that] ext [OF that(1)] by (simp add: clear_of_def block_def)
  ultimately show "pending_ok (s\<lparr>bufs := h\<rparr>)" using ok unfolding pending_ok_def by auto
  show "todo (s\<lparr>bufs := h\<rparr>) = todo s"
    using g unfolding fun_eq_iff todo_def data_of_def by (simp split: option.split)
qed

lemma continueWrites_all:
  assumes "pending_ok s"
  obtains rc so s' E where "Socket_continueWrites W sock s = Some (rc, so, s')" "pending_ok s'" "conserves E s s'"
    "\<forall>k\<in>E. refused s k" "rc = (if E = {} then 0 else -1)" "\<forall>k. refused s' k \<longrightarrow> refused s k" "generous s \<longrightarrow> generous s'"
    "accounts W s s'" "E = kernel_refused s s'" "if E = {} then so = sock else \<exists>k\<in>E. so = Some k"
proof -
  let ?cur = "if items (write_pending (mod_s s)) = [] then None else Some 0"
  have "position_ok ?cur (write_pending (mod_s s))" by (simp add: position_ok_def)
  from continue_all [OF assms this, of W sock 0] that show thesis
    unfolding Socket_continueWrites_def by blast
qed

lemma conserves_empty: "conserves {} s s' \<Longrightarrow> outgoing s' k @ todo s' k = outgoing s k @ todo s k"
  by (simp add: conserves_def)

lemma run_invariant: "net_run s sub \<Longrightarrow> pending_ok s \<and> (\<forall>k. \<not> refused s k) \<and> (\<forall>k. sub k = outgoing s k @ todo s k)"
proof (induction rule: net_run.induct)
  case (start s)
  then show ?case using todo_pending [of s] by auto
next
  case (put s sub k v0 bs D rc s')
  from put.IH have ok: "pending_ok s" by blast
  from putdatas_cases [OF ok put.hyps(2)] put.IH put.hyps(3) show ?case
    by cases (auto simp: TCPSOCKET_COMPLETE_def TCPSOCKET_INTERRUPTED_def)
next
  case (continue s sub W rc so s')
  from continue.IH have ok: "pending_ok s" by blast
  obtain rc1 so1 s1 E where r: "Socket_continueWrites W None s = Some (rc1, so1, s1)" "pending_ok s1" "conserves E s s1"
    "\<forall>k\<in>E. refused s k" "\<forall>k. refused s1 k \<longrightarrow> refused s k"
    by (rule continueWrites_all [OF ok, of W None]) blast
  then have "E = {}" "s1 = s'" using continue.IH continue.hyps by auto
  then show ?case using r continue.IH conserves_empty [of s s'] by auto
next
  case (kernel s sub a)
  have "pending_ok (s\<lparr>accepting := a\<rparr>) = pending_ok s" "todo (s\<lparr>accepting := a\<rparr>) = todo s"
    by (rule pending_ok_cong todo_cong; simp)+
  with kernel show ?case by simp
next
  case (memory s sub h)
  then have "refused (s\<lparr>bufs := h\<rparr>) = refused s" by (intro refused_cong) simp
  with memory memory_kept_ok show ?case by simp
qed

section \<open>Properties\<close>

text \<open>C16: Every packet handed over is sent exactly once.  In every run in which the connections hold,
  whatever the kernel takes at a time and whichever sockets are continued when: on each socket the bytes
  the kernel has accepted followed by the bytes the module still holds are the accepted packets one after
  the other, nothing lost, repeated or out of order; a socket is on the pending list exactly as long as
  the module holds something for it; and the next round of continued writes and the next packet have a
  defined result, so no buffer is read or freed after it has gone.\<close>

theorem writes_exactly_once:
  assumes "net_run s sub"
  shows "(\<forall>k. sub k = outgoing s k @ todo s k) \<and>
    (\<forall>k. k \<in> set (items (write_pending (mod_s s))) \<longleftrightarrow> todo s k \<noteq> []) \<and>
    (\<forall>W. Socket_continueWrites W None s \<noteq> None) \<and>
    (\<forall>k v0 bs D. submit_ok s k v0 bs D \<longrightarrow> Socket_putdatas k (iov_base v0) (iov_len v0) bs s \<noteq> None)"
proof -
  note inv = run_invariant [OF assms]
  then have ok: "pending_ok s" by blast
  have "Socket_continueWrites W None s \<noteq> None" for W
    by (rule continueWrites_all [OF ok, of W None]) simp
  moreover have "Socket_putdatas k (iov_base v0) (iov_len v0) bs s \<noteq> None" if "submit_ok s k v0 bs D" for k v0 bs D
    using putdatas_cases [OF ok that] by cases simp_all
  ultimately show ?thesis using inv todo_pending [OF ok] by blast
qed

lemma first_tried:
  assumes ok: "pending_ok s" and k: "items (write_pending (mod_s s)) = k # ks" "k \<in> W" "accepting s k \<noteq> []"
    and run: "Socket_continueWrites W None s = Some (rc, so, s')"
  shows "accepting s' k \<noteq> accepting s k"
proof -
  have i: "0 < length (items (write_pending (mod_s s)))" using k(1) by simp
  obtain cur so' rc' t F where t: "continue_pending W (Some 0) None 0 s = continue_pending W cur so' rc' t" "pending_ok t"
    "position_ok cur (write_pending (mod_s t))" "accounts W s t" "accepting t k \<noteq> accepting s k"
    by (rule continue_step [OF ok i, of W None 0]) (use k in simp)
  obtain rc1 so1 s1 where s1: "continue_pending W cur so' rc' t = Some (rc1, so1, s1)" "accounts W t s1"
    using continue_all [OF t(2,3), of W so' rc'] by blast
  have "s1 = s'" using run t(1) s1(1) k(1) by (simp add: Socket_continueWrites_def)
  then have "suffix (accepting s' k) (accepting t k)" "suffix (accepting t k) (accepting s k)"
    using s1(2) t(4) by (auto simp: accounts_def)
  with t(5) show ?thesis by (metis suffix_order.antisym)
qed

text \<open>C20: A broken connection.  A round of continued writes always ends with a defined result.  It reports
  \<open>SOCKET_ERROR\<close>, and one of the broken sockets, exactly when the kernel has answered one of its writes with an
  error other than "would block".  The sockets on which it has done so are off the pending list, with what was left
  for them dropped; on all other sockets no byte is lost or repeated.  The blocks of every write that is over,
  finished or broken, have been freed, and no others.  At least the first pending socket is tried, so an error
  that is due there is not put off.\<close>

theorem broken_writes_dropped:
  assumes ok: "pending_ok s"
  shows "\<exists>rc so s'. Socket_continueWrites W None s = Some (rc, so, s') \<and> pending_ok s' \<and>
    (\<forall>k. suffix (accepting s' k) (accepting s k)) \<and>
    rc = (if kernel_refused s s' = {} then 0 else SOCKET_ERROR) \<and>
    (if kernel_refused s s' = {} then so = None else \<exists>k\<in>kernel_refused s s'. so = Some k) \<and>
    (\<forall>k\<in>kernel_refused s s'. k \<in> W \<and> k \<in> set (items (write_pending (mod_s s))) \<and>
       k \<notin> set (items (write_pending (mod_s s'))) \<and> todo s' k = [] \<and>
       prefix (outgoing s k) (outgoing s' k) \<and> prefix (outgoing s' k) (outgoing s k @ todo s k)) \<and>
    (\<forall>k. k \<notin> kernel_refused s s' \<longrightarrow> outgoing s' k @ todo s' k = outgoing s k @ todo s k) \<and>
    extent (bufs s') = (\<lambda>p. if \<exists>k. k \<notin> set (items (write_pending (mod_s s'))) \<and> p \<in> set (write_blocks k s)
       then None else extent (bufs s) p) \<and>
    (\<forall>k ks. items (write_pending (mod_s s)) = k # ks \<longrightarrow> k \<in> W \<longrightarrow> accepting s k \<noteq> [] \<longrightarrow> accepting s' k \<noteq> accepting s k)"
proof -
  obtain rc so s' E where r: "Socket_continueWrites W None s = Some (rc, so, s')" "pending_ok s'" "conserves E s s'"
    "rc = (if E = {} then 0 else -1)" "accounts W s s'" "E = kernel_refused s s'" "if E = {} then so = None else \<exists>k\<in>E. so = Some k"
    by (rule continueWrites_all [OF ok, of W None]) blast
  have look: "write_lookup (sbuf u) k = None \<longleftrightarrow> k \<notin> set (items (write_pending (mod_s u)))" if "pending_ok u" for u k
    using that by (simp add: pending_ok_def)
  have sfx: "suffix (accepting s' k) (accepting s k)" for k using r(5) by (simp add: accounts_def)
  have "k \<in> W \<and> k \<in> set (items (write_pending (mod_s s))) \<and> k \<notin> set (items (write_pending (mod_s s'))) \<and> todo s' k = [] \<and>
      prefix (outgoing s k) (outgoing s' k) \<and> prefix (outgoing s' k) (outgoing s k @ todo s k)" if "k \<in> kernel_refused s s'" for k
  proof -
    have "accepting s' k \<noteq> accepting s k" using that by (auto simp: kernel_refused_def)
    then have "k \<in> W" "k \<in> set (items (write_pending (mod_s s)))" using r(5) look [OF ok] by (auto simp: accounts_def)
    moreover have "todo s' k = []" "prefix (outgoing s k) (outgoing s' k)" "prefix (outgoing s' k) (outgoing s k @ todo s k)"
      using r(3,6) that by (simp_all add: conserves_def)
    ultimately show ?thesis using todo_pending [OF r(2), of k] by simp
  qed
  moreover have "extent (bufs s') = (\<lambda>p. if \<exists>k. k \<notin> set (items (write_pending (mod_s s'))) \<and> p \<in> set (write_blocks k s)
       then None else extent (bufs s) p)"
    using r(5) unfolding accounts_def released_def look [OF r(2)] by blast
  moreover have "\<forall>k. k \<notin> kernel_refused s s' \<longrightarrow> outgoing s' k @ todo s' k = outgoing s k @ todo s k"
    using r(3,6) by (simp add: conserves_def)
  moreover have "rc = (if kernel_refused s s' = {} then 0 else SOCKET_ERROR)" using r(4,6) by (simp add: SOCKET_ERROR_def)
  ultimately show ?thesis using r(1,2,6,7) sfx first_tried [OF ok _ _ _ r(1)] by blast
qed

definition demo_mem :: bufmem where
  "demo_mem = \<lparr>cells = [100 \<mapsto> 0x30, 101 \<mapsto> 3, 200 \<mapsto> 7, 201 \<mapsto> 8, 202 \<mapsto> 9], extent = [100 \<mapsto> 2, 200 \<mapsto> 3]\<rparr>"

definition demo_net :: "writev_event list \<Rightarrow> net" where
  "demo_net es = \<lparr>mod_s = \<lparr>connect_pending = empty_alist, write_pending = empty_alist, rset = {}, rset_saved = {7},
       maxfdp1 = 8, clientsds = \<lparr>items = [7], cursor = None\<rparr>, cur_clientsds = None, pending_wset = {}, wset = {}\<rparr>,
     socks = \<lparr>sb = idle_sockbuf, wire = (\<lambda>_. [])\<rparr>, bufs = demo_mem, accepting = (\<lambda>_. [])(7 := es),
     outgoing = (\<lambda>_. []), fd_flags = (\<lambda>_. 0), fcntl_ok = [], writeAvailable = False, writecomplete = False, events = []\<rparr>"

lemma demo_pending: "pending_ok (demo_net es)" "items (write_pending (mod_s (demo_net es))) = []"
  "todo (demo_net es) = (\<lambda>_. [])"
  by (simp_all add: pending_ok_def demo_net_def idle_sockbuf_def writes_ok_def write_lookup_def fun_eq_iff todo_def)
    (simp_all add: empty_alist_def)

lemma demo_submit: "submit_ok (demo_net es) 7 \<lparr>iov_base = 100, iov_len = 2\<rparr> [(\<lparr>iov_base = 200, iov_len = 3\<rparr>, True)]
    [0x30, 3, 7, 8, 9]"
  by (simp add: submit_ok_def demo_net_def FD_SETSIZE_def read_buf_def upt_conv_Cons demo_mem_def idle_sockbuf_def write_lookup_def)

lemma demo_put:
  "\<exists>s'. Socket_putdatas 7 100 2 [(\<lparr>iov_base = 200, iov_len = 3\<rparr>, True)] (demo_net (Accepts 3 # es)) = Some (-22, s') \<and>
    outgoing s' 7 = [0x30, 3, 7] \<and> accepting s' 7 = es \<and> items (write_pending (mod_s s')) = [7]"
  by (simp add: Socket_putdatas_def Socket_noPendingWrites_def find_socket_def a_find_def demo_net_def empty_alist_def
      Socket_writev_def writev_def read_buf_def upt_conv_Cons demo_mem_def Let_def SOCKET_ERROR_def net_malloc_def
      idle_sockbuf_def SocketBuffer_pendingWrite_def FD_SET_def FD_SETSIZE_def upd_mod_def a_append_def
      TCPSOCKET_INTERRUPTED_def)

theorem writes_exactly_once_witness:
  "\<exists>s sub. net_run s sub \<and> sub 7 = [0x30, 3, 7, 8, 9] \<and> outgoing s 7 = [0x30, 3, 7] \<and> todo s 7 = [8, 9] \<and>
     Socket_continueWrites {7} None s \<noteq> None"
proof -
  let ?s = "demo_net [Accepts 3, Accepts 1]"
  obtain s where s: "Socket_putdatas 7 100 2 [(\<lparr>iov_base = 200, iov_len = 3\<rparr>, True)] ?s = Some (-22, s)"
    "outgoing s 7 = [0x30, 3, 7]" using demo_put [of "[Accepts 1]"] by auto
  have "net_run ?s (outgoing ?s)"
    by (rule net_run.start) (use demo_pending in \<open>simp_all add: refused_def demo_net_def\<close>)
  then have run: "net_run s ((outgoing ?s)(7 := outgoing ?s 7 @ [0x30, 3, 7, 8, 9]))" (is "net_run s ?sub")
    using net_run.put [of ?s "outgoing ?s" 7 _ _ _ "-22" s, OF _ demo_submit] s(1) by (simp add: TCPSOCKET_INTERRUPTED_def)
  have sub: "?sub 7 = [0x30, 3, 7, 8, 9]" by (simp add: demo_net_def)
  note now = writes_exactly_once [OF run]
  then have "?sub 7 = outgoing s 7 @ todo s 7" by blast
  then have "todo s 7 = [8, 9]" unfolding sub s(2) by simp
  with run sub s(2) now show ?thesis by blast
qed

lemma demo_put_blocks:
  "Socket_putdatas 7 100 2 [(\<lparr>iov_base = 200, iov_len = 3\<rparr>, True)] (demo_net (Accepts 3 # es)) = Some (-22, s') \<Longrightarrow>
   write_blocks 7 s' = [100, 200] \<and> extent (bufs s') 200 = Some 3"
  by (simp add: Socket_putdatas_def Socket_noPendingWrites_def find_socket_def a_find_def demo_net_def empty_alist_def
      Socket_writev_def writev_def read_buf_def upt_conv_Cons demo_mem_def Let_def SOCKET_ERROR_def net_malloc_def
      idle_sockbuf_def SocketBuffer_pendingWrite_def FD_SET_def FD_SETSIZE_def upd_mod_def a_append_def
      TCPSOCKET_INTERRUPTED_def write_blocks_def write_lookup_def key_lookup_def) auto

theorem broken_writes_dropped_witness:
  "\<exists>s s'. items (write_pending (mod_s s)) = [7] \<and> extent (bufs s) 200 = Some 3 \<and>
     Socket_continueWrites {7} None s = Some (SOCKET_ERROR, Some 7, s') \<and>
     7 \<notin> set (items (write_pending (mod_s s'))) \<and> todo s' 7 = [] \<and> prefix [0x30, 3, 7] (outgoing s' 7) \<and> extent (bufs s') 200 = None"
proof -
  let ?s = "demo_net [Accepts 3, Refuses 104]"
  obtain s where s: "Socket_putdatas 7 100 2 [(\<lparr>iov_base = 200, iov_len = 3\<rparr>, True)] ?s = Some (-22, s)"
    "outgoing s 7 = [0x30, 3, 7]" "accepting s 7 = [Refuses 104]" "items (write_pending (mod_s s)) = [7]"
    using demo_put [of "[Refuses 104]"] by auto
  note blocks = demo_put_blocks [OF s(1)]
  from putdatas_cases [OF demo_pending(1) demo_submit, of "[Accepts 3, Refuses 104]"] s(1)
  have ok: "pending_ok s" by cases auto
  show ?thesis
    using broken_writes_dropped [OF ok, of "{7}"]
  proof (elim exE conjE, goal_cases)
    case (1 rc so s')
    have tried: "suffix (accepting s' 7) [Refuses 104]" "accepting s' 7 \<noteq> [Refuses 104]" 
      using 1(3) [rule_format, of 7] 1(9) [rule_format, of 7 "[]"] s(3,4) by simp_all
    then have "accepting s' 7 = []" by (auto simp: suffix_Cons)
    then have seven: "7 \<in> kernel_refused s s'" by (simp add: kernel_refused_def s(3) EAGAIN_def)
    note refused = bspec [OF 1(6)]
    have ne: "kernel_refused s s' \<noteq> {}" using seven by blast
    obtain k where "k \<in> kernel_refused s s'" "so = Some k" using 1(5) ne by (simp only: if_False) blast
    then have rc: "rc = SOCKET_ERROR" "so = Some 7" using 1(4) ne conjunct1 [OF refused] by (simp_all only: if_False singleton_iff)
    have out: "7 \<notin> set (items (write_pending (mod_s s')))" "todo s' 7 = []" "prefix (outgoing s 7) (outgoing s' 7)"
      using refused [OF seven] by simp_all
    have "\<exists>k. k \<notin> set (items (write_pending (mod_s s'))) \<and> 200 \<in> set (write_blocks k s)"
      using out(1) blocks by (intro exI [of _ 7]) simp
    then have "extent (bufs s') 200 = None" using 1(8) by simp
    then show ?case using 1(1) rc out blocks s(2,4) by (intro exI [of _ s] exI [of _ s']) simp
  qed
qed

section \<open>The pending list drains\<close>

fun rounds :: "fd_set \<Rightarrow> nat \<Rightarrow> net \<Rightarrow> net option" where
  "rounds W 0 s = Some s"
| "rounds W (Suc n) s = do { (rc, so, s) \<leftarrow> Socket_continueWrites W None s; rounds W n s }"

definition todo_bytes :: "net \<Rightarrow> nat" where
  "todo_bytes s = (\<Sum>k\<in>set (items (write_pending (mod_s s))). length (todo s k))"

lemma generous_conserves:
  assumes "generous s" "conserves E s t" "\<forall>k\<in>E. refused s k"
  shows "conserves {} s t"
proof -
  have "outgoing t k @ todo t k = outgoing s k @ todo s k" if "k \<in> E" for k
  proof -
    have "todo s k = []"
      using assms(1,3) that unfolding generous_def refused_def by fastforce
    moreover have "prefix (outgoing s k) (outgoing t k)" "todo t k = []" "prefix (outgoing t k) (outgoing s k @ todo s k)"
      using assms(2) that by (simp_all add: conserves_def)
    ultimately show ?thesis using prefix_order.antisym by fastforce
  qed
  with assms(2) show ?thesis unfolding conserves_def by blast
qed

lemma conserves_shrinks:
  assumes "conserves {} s t" "pending_ok s" "pending_ok t"
  shows "length (todo t k) \<le> length (todo s k)"
    "set (items (write_pending (mod_s t))) \<subseteq> set (items (write_pending (mod_s s)))" "todo_bytes t \<le> todo_bytes s"
proof -
  have le: "length (todo t k) \<le> length (todo s k)" for k
  proof -
    have "prefix (outgoing s k) (outgoing t k)" "outgoing t k @ todo t k = outgoing s k @ todo s k"
      using assms(1) by (simp_all add: conserves_def)
    then have "length (outgoing s k) \<le> length (outgoing t k)"
      "length (outgoing t k) + length (todo t k) = length (outgoing s k) + length (todo s k)"
      by (metis prefix_length_le, metis length_append)
    then show ?thesis by linarith
  qed
  then show "length (todo t k) \<le> length (todo s k)" .
  show sub: "set (items (write_pending (mod_s t))) \<subseteq> set (items (write_pending (mod_s s)))"
  proof
    fix k assume "k \<in> set (items (write_pending (mod_s t)))"
    with todo_pending [OF assms(3), of k] le [of k] have "todo s k \<noteq> []" by auto
    with todo_pending [OF assms(2), of k] show "k \<in> set (items (write_pending (mod_s s)))" by blast
  qed
  have "todo_bytes t \<le> (\<Sum>k\<in>set (items (write_pending (mod_s t))). length (todo s k))"
    unfolding todo_bytes_def by (intro sum_mono le)
  also have "\<dots> \<le> todo_bytes s" unfolding todo_bytes_def by (rule sum_mono2) (use sub in auto)
  finally show "todo_bytes t \<le> todo_bytes s" .
qed

lemma todo_bytes_less:
  assumes "conserves {} s t" "pending_ok s" "pending_ok t" "k \<in> set (items (write_pending (mod_s s)))"
    "length (todo t k) < length (todo s k)"
  shows "todo_bytes t < todo_bytes s"
proof -
  have "todo_bytes t = (\<Sum>k\<in>set (items (write_pending (mod_s s))). length (todo t k))"
    unfolding todo_bytes_def using conserves_shrinks(2) [OF assms(1-3)] todo_pending [OF assms(3)]
    by (intro sum.mono_neutral_left) auto
  also have "\<dots> < todo_bytes s" unfolding todo_bytes_def
    by (rule sum_strict_mono_ex1) (use conserves_shrinks(1) [OF assms(1-3)] assms(4,5) in auto)
  finally show ?thesis .
qed

text \<open>As long as something is pending, a round makes progress: at least with the first socket of the list.\<close>

lemma round_progress:
  assumes ok: "pending_ok s" and g: "generous s" and W: "set (items (write_pending (mod_s s))) \<subseteq> W"
    and some: "items (write_pending (mod_s s)) \<noteq> []"
  obtains rc so s' where "Socket_continueWrites W None s = Some (rc, so, s')" "pending_ok s'" "generous s'"
    "conserves {} s s'" "todo_bytes s' < todo_bytes s"
proof -
  let ?k = "items (write_pending (mod_s s)) ! 0"
  have k: "0 < length (items (write_pending (mod_s s)))" "?k \<in> set (items (write_pending (mod_s s)))" using some by auto
  show thesis
  proof (rule continue_step [OF ok k(1), of W None 0])
    fix cur so rc t F
    assume t: "continue_pending W (Some 0) None 0 s = continue_pending W cur so rc t" "pending_ok t"
      "position_ok cur (write_pending (mod_s t))" "conserves F s t" "\<forall>l\<in>F. refused s l"
      "generous s \<Longrightarrow> generous t" "?k \<in> W \<Longrightarrow> generous s \<Longrightarrow> length (todo t ?k) < length (todo s ?k)"
    obtain rc' so' s' E where s': "continue_pending W cur so rc t = Some (rc', so', s')" "pending_ok s'" "conserves E t s'"
      "\<forall>k\<in>E. refused t k" "generous s'"
      using continue_all [OF t(2,3), of W so rc] t(6) [OF g] by blast
    have st: "conserves {} s t" by (rule generous_conserves [OF g t(4,5)])
    have ts: "conserves {} t s'" by (rule generous_conserves [OF t(6) [OF g] s'(3,4)])
    have less: "todo_bytes t < todo_bytes s"
      by (rule todo_bytes_less [OF st ok t(2) k(2)]) (use t(7) g W k(2) in blast)
    have run: "Socket_continueWrites W None s = Some (rc', so', s')"
      using some t(1) s'(1) by (simp add: Socket_continueWrites_def)
    from less conserves_shrinks(3) [OF ts t(2) s'(2)] have "todo_bytes s' < todo_bytes s" by linarith
    with run s'(2,5) conserves_trans [OF st ts] show thesis by (intro that) auto
  qed
qed

lemma rounds_idle:
  "pending_ok s \<Longrightarrow> items (write_pending (mod_s s)) = [] \<Longrightarrow> rounds W n s = Some s"
  by (induction n) (simp_all add: Socket_continueWrites_def continue_pending.simps [of W None])

text \<open>C19: Pending writes are finished.  If the kernel takes at least one byte whenever it is asked, then
  after at most as many rounds as there are bytes left every pending packet has reached its peer completely
  and in order, and nothing is pending any more, however many sockets are waiting and wherever the
  list's cursor makes the loop jump.\<close>

theorem pending_writes_drain:
  assumes "pending_ok s" "generous s" "set (items (write_pending (mod_s s))) \<subseteq> W" "todo_bytes s \<le> n"
  shows "\<exists>s'. rounds W n s = Some s' \<and> items (write_pending (mod_s s')) = [] \<and>
    (\<forall>k. outgoing s' k = outgoing s k @ todo s k)"
  using assms
proof (induction n arbitrary: s)
  case 0
  have none: "todo s k = []" for k
    using "0.prems"(4) todo_pending [OF "0.prems"(1), of k] by (auto simp: todo_bytes_def)
  have "items (write_pending (mod_s s)) = []"
  proof (rule ccontr)
    assume "items (write_pending (mod_s s)) \<noteq> []"
    then have "hd (items (write_pending (mod_s s))) \<in> set (items (write_pending (mod_s s)))" by simp
    with todo_pending [OF "0.prems"(1)] none show False by blast
  qed
  with none show ?case by simp
next
  case (Suc n)
  show ?case
  proof (cases "items (write_pending (mod_s s)) = []")
    case True
    then have "todo s k = []" for k using todo_pending [OF Suc.prems(1), of k] by auto
    with True rounds_idle [OF Suc.prems(1) True, of W "Suc n"] show ?thesis by auto
  next
    case False
    obtain rc so t where t: "Socket_continueWrites W None s = Some (rc, so, t)" "pending_ok t" "generous t"
      "conserves {} s t" "todo_bytes t < todo_bytes s"
      using round_progress [OF Suc.prems(1-3) False] .
    obtain s' where "rounds W n t = Some s'" "items (write_pending (mod_s s')) = []"
      "\<forall>k. outgoing s' k = outgoing t k @ todo t k"
      using Suc.IH [OF t(2,3)] t(5) Suc.prems(3,4) conserves_shrinks(2) [OF t(4) Suc.prems(1) t(2)] by force
    with t(1) conserves_empty [OF t(4)] show ?thesis by (intro exI [of _ s']) simp
  qed
qed

theorem pending_writes_drain_witness:
  "\<exists>s s'. items (write_pending (mod_s s)) = [7] \<and> rounds {7} 2 s = Some s' \<and>
     items (write_pending (mod_s s')) = [] \<and> outgoing s' 7 = [0x30, 3, 7, 8, 9]"
proof -
  let ?s = "demo_net [Accepts 3, Accepts 1, Accepts 5]"
  obtain s where s: "Socket_putdatas 7 100 2 [(\<lparr>iov_base = 200, iov_len = 3\<rparr>, True)] ?s = Some (-22, s)"
    "outgoing s 7 = [0x30, 3, 7]" "accepting s 7 = map Accepts [1, 5]" "items (write_pending (mod_s s)) = [7]"
    using demo_put [of "[Accepts 1, Accepts 5]"] by auto
  from putdatas_cases [OF demo_pending(1) demo_submit, of "[Accepts 3, Accepts 1, Accepts 5]"] s(1)
  obtain n where n: "pending_ok s" "todo s = (\<lambda>_. [])(7 := drop n [0x30, 3, 7, 8, 9])"
      "outgoing s = (outgoing ?s)(7 := outgoing ?s 7 @ take n [0x30, 3, 7, 8, 9])"
    by cases (auto simp: demo_pending(3))
  have "take n [0x30, 3, 7, 8, 9 :: byte] = [0x30, 3, 7]" using n(3) s(2) by (simp add: demo_net_def)
  then have todo: "todo s = (\<lambda>_. [])(7 := [8, 9])"
    using n(2) append_take_drop_id [of n "[0x30, 3, 7, 8, 9 :: byte]"] by simp
  have g: "generous s"
    unfolding generous_def todo using s(3) by (auto intro!: exI [of _ "[1, 5]"])
  have "todo_bytes s \<le> 2" by (simp add: todo_bytes_def s(4) todo)
  from pending_writes_drain [OF n(1) g _ this, of "{7}"] s(2,4) todo show ?thesis by fastforce
qed

end
