(* ===== verification/SocketSet.thy ===== *)
theory SocketSet
  imports SocketStream
begin

text \<open>
  The sets of sockets that \<^verbatim>\<open>src/src/utils/Socket.c\<close> watches: adding a socket, opening a connection,
  closing a socket and choosing the next one that is ready.  The invariant says that the list of
  sockets, the set given to \<open>select\<close> and its bound agree; closing a socket removes every trace of
  it and touches no other; and every ready socket is served once per round.
\<close>

section \<open>The registered sockets\<close>

abbreviation registered :: "net \<Rightarrow> int set" where
  "registered s \<equiv> set (items (clientsds (mod_s s)))"

definition registry_ok :: "net \<Rightarrow> bool" where
  "registry_ok s \<longleftrightarrow> table_ok (\<lambda>k. k) (clientsds (mod_s s)) \<and> rset_saved (mod_s s) = registered s \<and>
     (\<forall>k\<in>registered s. 0 \<le> k \<and> k < FD_SETSIZE \<and> k < maxfdp1 (mod_s s)) \<and>
     position_ok (cur_clientsds (mod_s s)) (clientsds (mod_s s)) \<and>
     table_ok (\<lambda>k. k) (connect_pending (mod_s s))"

lemma net_malloc_plenty [simp]:
  assumes "mallocs (sbuf s) = []"
  shows "net_malloc s = (True, s)"
proof -
  have "(sbuf s)\<lparr>mallocs := []\<rparr> = sbuf s" using assms by (cases "sbuf s") simp
  moreover have "set_sbuf (sbuf s) s = s" by (cases "socks s"; cases s) simp
  ultimately show ?thesis using assms by (simp add: net_malloc_def)
qed

lemma table_append_new:
  "table_ok (\<lambda>k. k) l \<Longrightarrow> k \<notin> set (items l) \<Longrightarrow> table_ok (\<lambda>k. k) (a_append k l)"
  by (rule table_ok_append) (auto simp: key_lookup_def find_None_iff)

lemma addSocket_registers:
  assumes ok: "registry_ok s" and ms: "mallocs (sbuf s) = []" and fd: "0 \<le> k" "k < FD_SETSIZE"
    and room: "int (length (items (clientsds (mod_s s)))) < FD_SETSIZE"
  obtains rc s' where "Socket_addSocket k s = Some (rc, s')" "registry_ok s'" "registered s' = insert k (registered s)"
    "rc = 0 \<or> rc = SOCKET_ERROR \<and> k \<notin> registered s \<and> fcntl_ok s \<noteq> []" "socks s' = socks s" "bufs s' = bufs s"
    "write_pending (mod_s s') = write_pending (mod_s s)" "connect_pending (mod_s s') = connect_pending (mod_s s)"
    "rc = 0 \<and> k \<notin> registered s \<Longrightarrow> fd_flags s' k = O_NONBLOCK" "events s' = events s"
    "outgoing s' = outgoing s"
proof -
  obtain l where l: "find_socket k (clientsds (mod_s s)) = (k \<in> registered s, l)" "table_ok (\<lambda>k. k) l"
    "items l = items (clientsds (mod_s s))"
    using find_socket_table [of "clientsds (mod_s s)" k] ok by (auto simp: registry_ok_def)
  let ?s = "upd_mod (clientsds_update (\<lambda>_. l)) s"
  have ok1: "registry_ok ?s" using ok l by (simp add: registry_ok_def position_ok_def)
  show thesis
  proof (cases "k \<in> registered s")
    case True
    have "Socket_addSocket k s = Some (0, ?s)" by (simp add: Socket_addSocket_def l True)
    then show thesis by (rule that) (use ok1 l True in auto)
  next
    case False
    let ?t = "upd_mod (\<lambda>m. m\<lparr>clientsds := a_append k l, rset_saved := insert k (rset_saved (mod_s s)),
        maxfdp1 := max (maxfdp1 m) (k + 1)\<rparr>) ?s"
    obtain rc t' where t: "Socket_setnonblocking k ?t = (rc, t')" by fastforce
    have run: "Socket_addSocket k s = Some (rc, t')"
      using room FD_in_range [OF fd] False l t ms by (simp add: Socket_addSocket_def Let_def)
    have t': "mod_s t' = mod_s ?t" "socks t' = socks s" "bufs t' = bufs s" "events t' = events s" "outgoing t' = outgoing s"
      "rc = 0 \<Longrightarrow> fd_flags t' k = O_NONBLOCK" "rc = 0 \<or> rc = SOCKET_ERROR \<and> fcntl_ok s \<noteq> []"
      using t by (auto simp: Socket_setnonblocking_def Let_def upd_mod_def SOCKET_ERROR_def split: list.splits if_splits)
    have "table_ok (\<lambda>k. k) (a_append k l)" using l False by (simp add: table_append_new)
    moreover have "position_ok (cur_clientsds (mod_s s)) (a_append k l)"
      using ok l(3) by (auto simp: registry_ok_def position_ok_def a_append_def less_Suc_eq)
    ultimately have "registry_ok t'"
      using ok1 fd unfolding registry_ok_def t'(1) by (auto simp: a_append_def)
    moreover have "registered t' = insert k (registered s)" unfolding t'(1) using l(3) by (simp add: a_append_def)
    ultimately show thesis by (intro that [OF run]) (use t' False in auto)
  qed
qed

section \<open>Closing a socket\<close>

lemma find_queue_writes: "find_queue k b = Some (x, b') \<Longrightarrow> writes b' = writes b"
  by (auto simp: find_queue_def Let_def split: Option.bind_splits prod.splits)

lemma cleanup_correct:
  assumes b: "buffered b f d" and w: "writes_ok b"
  obtains b' where "SocketBuffer_cleanup k b = Some b'"
    "buffered b' (f(k := None)) (if q_socket d = k then reset_queue d else d)"
    "writes_ok b'" "write_lookup b' = (write_lookup b)(k := None)"
proof -
  let ?b = "snd (SocketBuffer_writeComplete k b)"
  note w1 = complete_write [OF w, of k]
  have q: "queues ?b = queues b" "def_queue ?b = def_queue b" by (simp_all add: writeComplete_unlinks)
  have b1: "buffered ?b f d" using b w1(3) by (simp add: buffered_def q)
  have last: "\<exists>b'. (do { d \<leftarrow> def_queue c; Some (if q_socket d = k
        then c\<lparr>def_queue := Some (d\<lparr>q_socket := 0, q_index := 0, q_headerlen := 0, q_datalen := 0\<rparr>)\<rparr> else c) }) = Some b' \<and>
      buffered b' g (if q_socket d = k then reset_queue d else d) \<and> writes b' = writes c"
    if "buffered c g d" for c g
    using that by (auto simp: buffered_def reset_queue_def)
  show thesis
  proof (cases "f k")
    case None
    have fk: "f(k := None) = f" using None by (simp add: fun_upd_idem_iff)
    obtain b' where "SocketBuffer_cleanup k b = Some b'"
      "buffered b' f (if q_socket d = k then reset_queue d else d)" "writes b' = writes ?b"
      using last [OF b1] by (auto simp: SocketBuffer_cleanup_def split_beta find_queue_missing [OF b1 None])
    then show thesis using that [of b'] w1 by (simp add: fk writes_ok_def write_lookup_def fun_eq_iff)
  next
    case (Some q)
    obtain b2 where b2: "find_queue k ?b = Some (True, b2)" "buffered b2 f d" "get_queue Queued b2 = Some q"
      using find_queue_found [OF b1 Some] by blast
    obtain l where l: "queues b2 = Some l" "table_ok q_socket l" "key_lookup q_socket l = f" "def_queue b2 = Some d" "mallocs b2 = []"
      using b2(2) by (auto simp: buffered_def)
    let ?c = "b2\<lparr>queues := Some (snd (a_unlink (\<lambda>x. x = q) l))\<rparr>"
    have "q_socket q = k" by (rule buffered_socket [OF b Some])
    with unlink_found [OF l(1-3) b2(3)] l have "buffered ?c (f(k := None)) d" by (simp add: buffered_def)
    from last [OF this] obtain b' where "SocketBuffer_cleanup k b = Some b'"
      "buffered b' (f(k := None)) (if q_socket d = k then reset_queue d else d)" "writes b' = writes ?b"
      using b2 l(1) find_queue_writes [OF b2(1)] by (auto simp: SocketBuffer_cleanup_def split_beta)
    then show thesis using that [of b'] w1 by (simp add: writes_ok_def write_lookup_def fun_eq_iff)
  qed
qed

definition net_ok :: "net \<Rightarrow> bool" where
  "net_ok s \<longleftrightarrow> registry_ok s \<and> pending_ok s \<and> (\<exists>f d. buffered (sbuf s) f d)"

lemma abort_correct:
  assumes ok: "pending_ok s"
  obtains l where "Socket_abortWrite k s = Some (0, set_sbuf ((sbuf s)\<lparr>writes := l\<rparr>) s\<lparr>bufs := without (write_blocks k s) (bufs s)\<rparr>)"
    "table_ok pw_socket l" "key_lookup pw_socket l = write_lookup (sbuf s)"
proof (cases "write_lookup (sbuf s) k")
  case None
  have wok: "table_ok pw_socket (writes (sbuf s))" using ok by (simp add: pending_ok_def writes_ok_def)
  have same: "set_sbuf ((sbuf s)\<lparr>writes := writes (sbuf s)\<rparr>) s = s" "s\<lparr>bufs := bufs s\<rparr> = s"
    by (cases "sbuf s"; cases "socks s"; cases s; simp)+
  have "Socket_abortWrite k s = Some (0, s)"
    by (rule a_find_key [OF wok, of k])
      (use None same in \<open>simp_all add: Socket_abortWrite_def SocketBuffer_getWrite_def pending_socketcompare_def write_lookup_def\<close>)
  then show thesis
    by (intro that [of "writes (sbuf s)"]) (use None wok same in \<open>simp_all add: write_blocks_def write_lookup_def fun_eq_iff\<close>)
next
  case (Some pw)
  have wok: "writes_ok (sbuf s)" using ok by (simp add: pending_ok_def)
  obtain l where l: "SocketBuffer_getWrite k (sbuf s) = (Some pw, (sbuf s)\<lparr>writes := l\<rparr>)"
    "table_ok pw_socket l" "key_lookup pw_socket l = key_lookup pw_socket (writes (sbuf s))"
    by (rule getWrite_current [OF wok Some]) blast
  have "pw_ok (bufs s) pw" using ok Some by (simp add: pending_ok_def)
  then have "free_buffers (pw_iovecs pw) (pw_frees pw) (bufs s) = Some (without (write_blocks k s) (bufs s))"
    using free_all(2) [of "pw_iovecs pw" "pw_frees pw" "bufs s"] Some
    by (auto simp: pw_ok_def write_fits_def write_blocks_def)
  then show thesis
    by (intro that [of l]) (use l in \<open>simp_all add: Socket_abortWrite_def write_lookup_def fun_eq_iff\<close>)
qed

lemma pending_dropped:
  assumes ok: "pending_ok s"
    and t: "write_lookup (sbuf t) = (write_lookup (sbuf s))(k := None)" "writes_ok (sbuf t)" "mallocs (sbuf t) = []"
      "table_ok (\<lambda>k. k) (write_pending (mod_s t))"
      "set (items (write_pending (mod_s t))) = set (items (write_pending (mod_s s))) - {k}"
      "bufs t = without (write_blocks k s) (bufs s)"
  shows "pending_ok t" "todo t = (todo s)(k := [])"
proof -
  have "pending_ok t \<and> todo t = (todo s)(k := [])"
  proof (cases "write_lookup (sbuf s) k")
    case (Some pw)
    with pending_forgotten [OF ok Some t(1-5)] t(6) show ?thesis by (simp add: write_blocks_def)
  next
    case None
    then have lk: "write_lookup (sbuf t) = write_lookup (sbuf s)" "bufs t = bufs s"
      using t(1,6) by (simp_all add: fun_upd_idem_iff write_blocks_def)
    have "k \<notin> set (items (write_pending (mod_s s)))" using ok None by (simp add: pending_ok_def)
    then have set: "set (items (write_pending (mod_s t))) = set (items (write_pending (mod_s s)))" using t(5) by simp
    have "pending_ok t" using ok t(2-4) unfolding pending_ok_def lk set by blast
    moreover have "todo t = todo s" unfolding fun_eq_iff todo_def lk by simp
    moreover have "todo s k = []" using None by (simp add: todo_def)
    ultimately show ?thesis by (auto simp: fun_eq_iff)
  qed
  then show "pending_ok t" "todo t = (todo s)(k := [])" by simp_all
qed

lemma unlink_socket:
  assumes "table_ok (\<lambda>k. k) l"
  shows "table_ok (\<lambda>k. k) (snd (a_unlink (\<lambda>x. x = k) l))" "set (items (snd (a_unlink (\<lambda>x. x = k) l))) = set (items l) - {k}"
  using a_unlink_key(2,3) [OF assms, of k] by auto

lemma unlink_position:
  assumes l: "table_ok (\<lambda>k. k) l" and j: "fst (a_find (\<lambda>x. x = k) l) = Some j"
    and c: "position_ok c l" "\<forall>i. c = Some i \<longrightarrow> items l ! i \<noteq> k"
  shows "position_ok (shift_position j c) (snd (a_unlink (\<lambda>x. x = k) l))" "items l ! j = k" "j < length (items l)"
    "\<forall>i. c = Some i \<longrightarrow> (\<exists>i'. shift_position j c = Some i' \<and> items (snd (a_unlink (\<lambda>x. x = k) l)) ! i' = items l ! i)"
proof -
  have j': "items l ! j = k \<and> j < length (items l)"
    by (rule a_find_key [OF l, of k]) (use j in auto)
  then show "items l ! j = k" "j < length (items l)" by simp_all
  have items: "items (snd (a_unlink (\<lambda>x. x = k) l)) = remove_nth j (items l)" using j by (simp add: a_unlink_def)
  have ne: "i \<noteq> j" if "c = Some i" for i using c(2) that j' by auto
  show "position_ok (shift_position j c) (snd (a_unlink (\<lambda>x. x = k) l))"
    using c(1) j' ne by (auto simp: position_ok_def shift_position_def items split: if_splits)
  show "\<forall>i. c = Some i \<longrightarrow> (\<exists>i'. shift_position j c = Some i' \<and> items (snd (a_unlink (\<lambda>x. x = k) l)) ! i' = items l ! i)"
    using c(1) j' ne by (auto simp: position_ok_def shift_position_def items remove_nth_def nth_append min_def)
qed

lemma fold_max: "k \<in> set xs \<Longrightarrow> k \<le> fold max xs (m::int)" "m \<le> fold max xs m"
proof (induction xs arbitrary: m)
  case (Cons x xs)
  { case 1 then show ?case using Cons.IH(1) Cons.IH(2) [of "max x m"] by auto }
  { case 2 then show ?case using Cons.IH(2) [of "max x m"] by simp }
qed simp_all

text \<open>The sockets that the current round of \<open>Socket_getReadySocket\<close> has still to look at.\<close>

definition to_visit :: "net \<Rightarrow> int list" where
  "to_visit s = (case cur_clientsds (mod_s s) of None \<Rightarrow> [] | Some i \<Rightarrow> drop i (items (clientsds (mod_s s))))"

lemma drop_without:
  assumes "distinct xs" "j < length xs" "i \<le> length xs"
  shows "drop (if j < i then i - 1 else i) (filter (\<lambda>x. x \<noteq> xs ! j) xs) = filter (\<lambda>x. x \<noteq> xs ! j) (drop i xs)"
proof -
  let ?P = "\<lambda>x. x \<noteq> xs ! j"
  have "filter ?P xs = filter ?P (take i xs) @ filter ?P (drop i xs)" by (simp only: filter_append [symmetric] append_take_drop_id)
  moreover have "length (filter ?P (take i xs)) = (if j < i then i - 1 else i)"
  proof (cases "j < i")
    case True
    have "filter ?P (take i xs) = remove1 (xs ! j) (take i xs)" using assms(1) by (simp add: distinct_remove1_removeAll removeAll_filter_not_eq neq_commute)
    moreover have "xs ! j \<in> set (take i xs)" using True assms(2) by (metis in_set_conv_nth length_take min_less_iff_conj nth_take)
    ultimately show ?thesis using True assms(3) by (simp add: length_remove1)
  next
    case False
    have "?P x" if x: "x \<in> set (take i xs)" for x
    proof -
      obtain m where "m < i" "m < length xs" "x = xs ! m" using x by (auto simp: in_set_conv_nth)
      then show ?thesis using False assms(1,2) by (simp add: nth_eq_iff_index_eq)
    qed
    then have "filter ?P (take i xs) = take i xs" by (simp add: filter_id_conv)
    then show ?thesis using False assms(3) by simp
  qed
  ultimately show ?thesis by simp
qed

lemma visit_without:
  assumes d: "distinct xs" and j: "j < length xs" and c: "\<forall>i. c = Some i \<longrightarrow> i < length xs"
  shows "(case map_option (\<lambda>i. if j < i then i - 1 else i)
      (case c of None \<Rightarrow> None | Some i \<Rightarrow> if xs ! i = xs ! j then (if Suc i < length xs then Some (Suc i) else None) else Some i)
    of None \<Rightarrow> [] | Some i \<Rightarrow> drop i (filter (\<lambda>x. x \<noteq> xs ! j) xs)) =
    filter (\<lambda>x. x \<noteq> xs ! j) (case c of None \<Rightarrow> [] | Some i \<Rightarrow> drop i xs)"
proof (cases c)
  case (Some i)
  then have i: "i < length xs" using c by simp
  show ?thesis
  proof (cases "xs ! i = xs ! j")
    case True
    then have ij: "i = j" using d i j by (simp add: nth_eq_iff_index_eq)
    have "drop j xs = xs ! j # drop (Suc j) xs" using j by (simp add: Cons_nth_drop_Suc)
    then show ?thesis using drop_without [OF d j, of "Suc j"] Some j unfolding ij by auto
  next
    case False
    then show ?thesis using drop_without [OF d j, of i] Some i by simp
  qed
qed simp

text \<open>C18: Closing a socket.  From every consistent state, closing a registered socket has a defined
  result and success, and afterwards the state is consistent again.  The socket is taken out of each of the module's
  lists and sets, whose other members stay in place and order; what was left to write for it is dropped and every
  buffer of that write is freed exactly once; its half-read packet is forgotten.  For every other socket nothing has
  changed: what is registered, pending or being connected, the results of the last \<open>select\<close> and whether it is still
  to be looked at in this round, its pending write, what has been read of its next packet, and the kernel's side of
  it.\<close>

theorem Socket_close_correct:
  assumes ok: "net_ok s" and k: "k \<in> registered s" and b: "buffered (sbuf s) f d"
  shows "\<exists>s'. Socket_close k s = Some (0, s') \<and> net_ok s' \<and>
    items (clientsds (mod_s s')) = filter (\<lambda>x. x \<noteq> k) (items (clientsds (mod_s s))) \<and>
    items (write_pending (mod_s s')) = filter (\<lambda>x. x \<noteq> k) (items (write_pending (mod_s s))) \<and>
    items (connect_pending (mod_s s')) = filter (\<lambda>x. x \<noteq> k) (items (connect_pending (mod_s s))) \<and>
    rset_saved (mod_s s') = rset_saved (mod_s s) - {k} \<and> pending_wset (mod_s s') = pending_wset (mod_s s) - {k} \<and>
    rset (mod_s s') = rset (mod_s s) \<and> wset (mod_s s') = wset (mod_s s) \<and>
    to_visit s' = filter (\<lambda>x. x \<noteq> k) (to_visit s) \<and>
    write_lookup (sbuf s') = (write_lookup (sbuf s))(k := None) \<and>
    todo s' = (todo s)(k := []) \<and> outgoing s' = outgoing s \<and> bufs s' = without (write_blocks k s) (bufs s) \<and>
    (\<exists>d'. buffered (sbuf s') (f(k := None)) d') \<and> wire (socks s') = wire (socks s) \<and> accepting s' = accepting s \<and>
    fd_flags s' = fd_flags s \<and> events s' = events s @ [Closed k]"
proof -
  have reg: "registry_ok s" and pend: "pending_ok s" using ok by (simp_all add: net_ok_def)
  have range: "0 \<le> k" "k < FD_SETSIZE" using reg k by (auto simp: registry_ok_def)
  note fd = FD_in_range [OF range]
  let ?cl = "clientsds (mod_s s)"
  have tcl: "table_ok (\<lambda>k. k) ?cl" and twp: "table_ok (\<lambda>k. k) (write_pending (mod_s s))"
    and tcp: "table_ok (\<lambda>k. k) (connect_pending (mod_s s))"
    using reg pend by (simp_all add: registry_ok_def pending_ok_def)
  define cur where "cur = (case cur_clientsds (mod_s s) of None \<Rightarrow> None
      | Some i \<Rightarrow> if items ?cl ! i = k then next_position i ?cl else Some i)"
  have dist: "distinct (items ?cl)" using tcl by (simp add: table_ok_def)
  have cur: "position_ok cur ?cl" "\<forall>i. cur = Some i \<longrightarrow> items ?cl ! i \<noteq> k"
    using reg dist by (auto simp: cur_def registry_ok_def position_ok_def next_position_def nth_eq_iff_index_eq split: option.splits if_splits)
  have co: "mod_s (Socket_close_only k s) = mod_s s" by (simp add: Socket_close_only_def)
  let ?s1 = "upd_mod (\<lambda>m. m\<lparr>rset_saved := rset_saved (mod_s s) - {k}, pending_wset := pending_wset (mod_s s) - {k}, cur_clientsds := cur\<rparr>)
      (Socket_close_only k s)"
  have s1: "sbuf ?s1 = sbuf s" "bufs ?s1 = bufs s" "write_pending (mod_s ?s1) = write_pending (mod_s s)"
    "write_blocks k ?s1 = write_blocks k s"
    by (simp_all add: Socket_close_only_def write_blocks_def)
  have pend1: "pending_ok ?s1" using pend by (simp add: pending_ok_def Socket_close_only_def)
  obtain l where l: "Socket_abortWrite k ?s1 = Some (0, set_sbuf ((sbuf ?s1)\<lparr>writes := l\<rparr>) ?s1\<lparr>bufs := without (write_blocks k ?s1) (bufs ?s1)\<rparr>)"
    "table_ok pw_socket l" "key_lookup pw_socket l = write_lookup (sbuf ?s1)"
    using abort_correct [OF pend1] by blast
  let ?s2 = "set_sbuf ((sbuf s)\<lparr>writes := l\<rparr>) ?s1\<lparr>bufs := without (write_blocks k s) (bufs s)\<rparr>"
  have b2: "buffered ((sbuf s)\<lparr>writes := l\<rparr>) f d" "writes_ok ((sbuf s)\<lparr>writes := l\<rparr>)"
    "write_lookup ((sbuf s)\<lparr>writes := l\<rparr>) = write_lookup (sbuf s)"
    using b l(2,3) s1(1) by (simp_all add: buffered_def writes_ok_def write_lookup_def fun_eq_iff)
  obtain b' d' where b': "SocketBuffer_cleanup k ((sbuf s)\<lparr>writes := l\<rparr>) = Some b'"
    "buffered b' (f(k := None)) d'" "writes_ok b'" "write_lookup b' = (write_lookup (sbuf s))(k := None)"
    by (rule cleanup_correct [OF b2(1,2), of k, unfolded b2(3)]) blast
  obtain j where j: "fst (a_find (\<lambda>x. x = k) ?cl) = Some j"
    by (rule a_find_key [OF tcl, of k]) (use k in \<open>auto simp: key_lookup_def find_None_iff\<close>)
  let ?unl = "\<lambda>l. snd (a_unlink (\<lambda>x. x = k) l)"
  let ?s3 = "upd_mod (\<lambda>m. m\<lparr>connect_pending := ?unl (connect_pending m), write_pending := ?unl (write_pending m)\<rparr>) (set_sbuf b' ?s2)"
  let ?s4 = "upd_mod (\<lambda>m. m\<lparr>clientsds := ?unl (clientsds m), cur_clientsds := shift_position j (cur_clientsds m)\<rparr>) ?s3"
  define t where "t = (if k + 1 \<ge> maxfdp1 (mod_s s) then upd_mod (\<lambda>m. m\<lparr>maxfdp1 := fold max (items (clientsds m)) 0 + 1\<rparr>) ?s4 else ?s4)"
  have run: "Socket_close k s = Some (0, t)"
    unfolding t_def Socket_close_def Let_def co cur_def [symmetric] using fd l(1) b'(1) j s1
    by (simp add: co split: if_split)
  note u = unlink_socket [OF tcl, of k] unlink_socket [OF twp, of k] unlink_socket [OF tcp, of k] unlink_position [OF tcl j cur]
  have f5: "sbuf t = b'" "bufs t = without (write_blocks k s) (bufs s)" "write_pending (mod_s t) = ?unl (write_pending (mod_s s))"
    "connect_pending (mod_s t) = ?unl (connect_pending (mod_s s))" "clientsds (mod_s t) = ?unl ?cl"
    "rset_saved (mod_s t) = rset_saved (mod_s s) - {k}" "pending_wset (mod_s t) = pending_wset (mod_s s) - {k}"
    "cur_clientsds (mod_s t) = shift_position j cur" "outgoing t = outgoing s" "events t = events s @ [Closed k]"
    "rset (mod_s t) = rset (mod_s s)" "wset (mod_s t) = wset (mod_s s)" "wire (socks t) = wire (socks s)"
    "accepting t = accepting s" "fd_flags t = fd_flags s"
    "maxfdp1 (mod_s t) = (if k + 1 \<ge> maxfdp1 (mod_s s) then fold max (items (?unl ?cl)) 0 + 1 else maxfdp1 (mod_s s))"
    by (simp_all add: t_def Socket_close_only_def upd_mod_def)
  have p5: "pending_ok t" "todo t = (todo s)(k := [])"
    by (rule pending_dropped [OF pend, of t]; use f5(1,2,3) b'(2-4) u(3,4) in \<open>simp add: buffered_def\<close>)+
  have bound: "x < maxfdp1 (mod_s t)" if "x \<in> set (items (?unl ?cl))" for x
    using fold_max(1) [OF that, of 0] that u(2) reg unfolding f5(16) registry_ok_def by auto
  have "registry_ok t"
    unfolding registry_ok_def f5(4,5,6,8) using u reg bound by (auto simp: registry_ok_def)
  then have "net_ok t" unfolding net_ok_def f5(1) using p5 b'(2) by blast
  moreover have "items (clientsds (mod_s t)) = filter (\<lambda>x. x \<noteq> k) (items ?cl)"
    "items (write_pending (mod_s t)) = filter (\<lambda>x. x \<noteq> k) (items (write_pending (mod_s s)))"
    "items (connect_pending (mod_s t)) = filter (\<lambda>x. x \<noteq> k) (items (connect_pending (mod_s s)))"
    unfolding f5 using a_unlink_key(2) [OF tcl, of k] a_unlink_key(2) [OF twp, of k] a_unlink_key(2) [OF tcp, of k] by simp_all
  moreover have "\<exists>d'. buffered (sbuf t) (f(k := None)) d'" "write_lookup (sbuf t) = (write_lookup (sbuf s))(k := None)"
    unfolding f5(1) using b'(2,4) by blast+
  moreover have "to_visit t = filter (\<lambda>x. x \<noteq> k) (to_visit s)"
  proof -
    have jk: "items ?cl ! j = k" "j < length (items ?cl)" using unlink_position(2,3) [OF tcl j cur] .
    have "\<forall>i. cur_clientsds (mod_s s) = Some i \<longrightarrow> i < length (items ?cl)"
      using reg by (simp add: registry_ok_def position_ok_def)
    note v = visit_without [OF dist jk(2) this, unfolded jk(1)]
    show ?thesis
      unfolding to_visit_def f5(5,8) cur_def shift_position_def next_position_def a_unlink_key(2) [OF tcl, of k] by (rule v)
  qed
  ultimately show ?thesis
    using run p5 f5 by blast
qed

lemma demo_net_ok: "net_ok (demo_net es)" "7 \<in> registered (demo_net es)" "buffered (sbuf (demo_net es)) Map.empty fresh_queue"
proof -
  show b: "buffered (sbuf (demo_net es)) Map.empty fresh_queue"
    by (simp add: buffered_def demo_net_def idle_sockbuf_def empty_alist_def table_ok_def alist_ok_def key_lookup_def fun_eq_iff)
  have "registry_ok (demo_net es)"
    by (simp add: registry_ok_def demo_net_def table_ok_def alist_ok_def FD_SETSIZE_def position_ok_def empty_alist_def)
  with b demo_pending(1) show "net_ok (demo_net es)" unfolding net_ok_def by blast
  show "7 \<in> registered (demo_net es)" by (simp add: demo_net_def)
qed

theorem Socket_close_correct_witness:
  "\<exists>s'. Socket_close 7 (demo_net []) = Some (0, s') \<and> net_ok s' \<and> registered s' = {}"
proof -
  have "registered (demo_net []) = {7}" by (simp add: demo_net_def)
  with Socket_close_correct [OF demo_net_ok, of "[]"] show ?thesis by auto
qed

end
