(* ===== verification/SocketReady.thy ===== *)
theory SocketReady
  imports SocketSet
begin

text \<open>
  Choosing the next socket that is ready (\<open>Socket_getReadySocket\<close> of \<^verbatim>\<open>src/src/utils/Socket.c\<close>): one
  round, that is one call of \<open>select\<close> and the calls that hand out its results, serves every ready
  socket exactly once, in the order of the list, and no other.
\<close>

text \<open>A socket is served when the last \<open>select\<close> found it writable, and it is either waiting for its
  connection or readable with nothing left to write.\<close>

definition ready_now :: "net \<Rightarrow> int \<Rightarrow> bool" where
  "ready_now s k \<longleftrightarrow> k \<in> wset (mod_s s) \<and>
     (k \<in> set (items (connect_pending (mod_s s))) \<or> k \<in> rset (mod_s s) \<and> k \<notin> set (items (write_pending (mod_s s))))"

text \<open>Looking at sockets moves the cursors of the two lists, and takes the sockets \<open>P\<close> from those that wait for
  their connection.\<close>

definition looked :: "int set \<Rightarrow> net \<Rightarrow> net \<Rightarrow> bool" where
  "looked P s s' \<longleftrightarrow> (\<exists>cp wp. s' = upd_mod (\<lambda>m. m\<lparr>connect_pending := cp, write_pending := wp\<rparr>) s \<and>
     table_ok (\<lambda>k. k) cp \<and> table_ok (\<lambda>k. k) wp \<and> items wp = items (write_pending (mod_s s)) \<and>
     set (items cp) = set (items (connect_pending (mod_s s))) - P)"

definition lists_ok :: "net \<Rightarrow> bool" where
  "lists_ok s \<longleftrightarrow> table_ok (\<lambda>k. k) (connect_pending (mod_s s)) \<and> table_ok (\<lambda>k. k) (write_pending (mod_s s))"

abbreviation set_lists :: "int alist \<Rightarrow> int alist \<Rightarrow> net \<Rightarrow> net" where
  "set_lists cp wp s \<equiv> upd_mod (\<lambda>m. m\<lparr>connect_pending := cp, write_pending := wp\<rparr>) s"

lemma set_lists_same: "set_lists (connect_pending (mod_s s)) (write_pending (mod_s s)) s = s"
proof -
  have "(mod_s s)\<lparr>connect_pending := connect_pending (mod_s s), write_pending := write_pending (mod_s s)\<rparr> = mod_s s"
    by (cases "mod_s s") simp
  then show ?thesis unfolding upd_mod_def by (cases s) simp
qed

lemma looked_refl: "lists_ok s \<Longrightarrow> looked {} s s"
  unfolding looked_def
  by (rule exI [of _ "connect_pending (mod_s s)"], rule exI [of _ "write_pending (mod_s s)"])
    (simp add: lists_ok_def set_lists_same)

lemma lookedI:
  "table_ok (\<lambda>k. k) cp \<Longrightarrow> table_ok (\<lambda>k. k) wp \<Longrightarrow> items wp = items (write_pending (mod_s s)) \<Longrightarrow>
   set (items cp) = set (items (connect_pending (mod_s s))) - P \<Longrightarrow> looked P s (set_lists cp wp s)"
  unfolding looked_def by blast

lemma looked_trans:
  assumes "looked P s t" "looked Q t u"
  shows "looked (P \<union> Q) s u"
proof -
  obtain cp wp cp' wp' where t: "t = set_lists cp wp s" "u = set_lists cp' wp' t" and
    r: "table_ok (\<lambda>k. k) cp'" "table_ok (\<lambda>k. k) wp'" "items wp' = items wp" "items wp = items (write_pending (mod_s s))"
      "set (items cp') = set (items cp) - Q" "set (items cp) = set (items (connect_pending (mod_s s))) - P"
    using assms unfolding looked_def by auto
  have "u = set_lists cp' wp' s" unfolding t by (cases "mod_s s") (simp add: upd_mod_def)
  then show ?thesis using lookedI [OF r(1,2), of s "P \<union> Q"] r by auto
qed

lemma looked_fields:
  assumes "looked P s s'"
  shows "clientsds (mod_s s') = clientsds (mod_s s)" "rset (mod_s s') = rset (mod_s s)" "wset (mod_s s') = wset (mod_s s)"
    "cur_clientsds (mod_s s') = cur_clientsds (mod_s s)" "lists_ok s'" "registry_ok s \<Longrightarrow> registry_ok s'"
    "k \<notin> P \<Longrightarrow> ready_now s' k = ready_now s k"
proof -
  obtain cp wp where t: "s' = set_lists cp wp s" and
    r: "table_ok (\<lambda>k. k) cp" "table_ok (\<lambda>k. k) wp" "items wp = items (write_pending (mod_s s))"
      "set (items cp) = set (items (connect_pending (mod_s s))) - P"
    using assms unfolding looked_def by blast
  show "clientsds (mod_s s') = clientsds (mod_s s)" "rset (mod_s s') = rset (mod_s s)" "wset (mod_s s') = wset (mod_s s)"
    "cur_clientsds (mod_s s') = cur_clientsds (mod_s s)" by (simp_all add: t)
  show "lists_ok s'" using r(1,2) by (simp add: t lists_ok_def)
  show "registry_ok s'" if "registry_ok s" using that r(1) by (simp add: t registry_ok_def)
  show "ready_now s' k = ready_now s k" if "k \<notin> P" using that r(3,4) by (simp add: t ready_now_def)
qed

lemma isReady_correct:
  assumes ok: "lists_ok s" and k: "0 \<le> k" "k < FD_SETSIZE"
  shows "\<exists>s'. isReady k (rset (mod_s s)) (wset (mod_s s)) s = Some (ready_now s k, s') \<and>
    looked (if ready_now s k then {k} else {}) s s'"
proof -
  obtain l where l: "find_socket k (connect_pending (mod_s s)) = (k \<in> set (items (connect_pending (mod_s s))), l)"
    "table_ok (\<lambda>k. k) l" "items l = items (connect_pending (mod_s s))"
    using find_socket_table [of "connect_pending (mod_s s)" k] ok by (auto simp: lists_ok_def)
  obtain w where w: "find_socket k (write_pending (mod_s s)) = (k \<in> set (items (write_pending (mod_s s))), w)"
    "table_ok (\<lambda>k. k) w" "items w = items (write_pending (mod_s s))"
    using find_socket_table [of "write_pending (mod_s s)" k] ok by (auto simp: lists_ok_def)
  note fd = FD_in_range [OF k]
  note u = unlink_socket [OF l(2), of k]
  have wok: "table_ok (\<lambda>k. k) (write_pending (mod_s s))" using ok by (simp add: lists_ok_def)
  let ?R = "rset (mod_s s)" and ?W = "wset (mod_s s)"
  have cp: "upd_mod (connect_pending_update (\<lambda>_. c)) s = set_lists c (write_pending (mod_s s)) s" for c
    by (cases "mod_s s") (simp add: upd_mod_def)
  have both: "upd_mod (write_pending_update (\<lambda>_. w)) (set_lists l c s) = set_lists l w s" for c
    by (cases "mod_s s") (simp add: upd_mod_def)
  have unl: "upd_mod (connect_pending_update (\<lambda>l. snd (a_unlink (\<lambda>x. x = k) l))) (set_lists l c s) =
      set_lists (snd (a_unlink (\<lambda>x. x = k) l)) c s" for c
    by (cases "mod_s s") (simp add: upd_mod_def)
  consider (connecting) "k \<in> ?W" "k \<in> set (items (connect_pending (mod_s s)))"
    | (idle) "k \<in> ?W" "k \<notin> set (items (connect_pending (mod_s s)))" "k \<in> ?R"
    | (not) "k \<notin> ?W \<or> k \<notin> ?R" "\<not> (k \<in> ?W \<and> k \<in> set (items (connect_pending (mod_s s))))" by blast
  then show ?thesis
  proof cases
    case connecting
    then have "isReady k ?R ?W s = Some (True, set_lists (snd (a_unlink (\<lambda>x. x = k) l)) (write_pending (mod_s s)) s)"
      using fd l(1) by (simp add: isReady_def cp unl)
    then show ?thesis using connecting u wok l(3) by (auto simp: ready_now_def intro!: lookedI)
  next
    case idle
    then have "isReady k ?R ?W s = Some (k \<notin> set (items (write_pending (mod_s s))), set_lists l w s)"
      using fd l(1) w(1) by (simp add: isReady_def cp Socket_noPendingWrites_def both)
    then show ?thesis using idle l w by (auto simp: ready_now_def intro!: lookedI)
  next
    case not
    then have "isReady k ?R ?W s = Some (False, set_lists l (write_pending (mod_s s)) s)"
      using fd l(1) by (auto simp: isReady_def cp)
    then show ?thesis using not l wok by (auto simp: ready_now_def intro!: lookedI)
  qed
qed

lemma first_ready_correct:
  assumes "lists_ok s" "\<forall>k\<in>set ks. 0 \<le> k \<and> k < FD_SETSIZE"
  shows "\<exists>c s'. first_ready (rset (mod_s s)) (wset (mod_s s)) i ks s = Some (c, s') \<and>
    (case c of
       None \<Rightarrow> filter (ready_now s) ks = [] \<and> looked {} s s'
     | Some j \<Rightarrow> i \<le> j \<and> j < i + length ks \<and> ready_now s (ks ! (j - i)) \<and>
         filter (ready_now s) (take (j - i) ks) = [] \<and> looked {ks ! (j - i)} s s')"
  using assms
proof (induction ks arbitrary: i s)
  case Nil
  then show ?case by (simp add: looked_refl)
next
  case (Cons k ks)
  obtain t where t: "isReady k (rset (mod_s s)) (wset (mod_s s)) s = Some (ready_now s k, t)"
    "looked (if ready_now s k then {k} else {}) s t"
    using isReady_correct [of s k] Cons.prems by auto
  show ?case
  proof (cases "ready_now s k")
    case True
    with t show ?thesis by auto
  next
    case False
    with t have lk: "looked {} s t" by simp
    note f = looked_fields [OF lk]
    have same: "ready_now t = ready_now s" using f(7) by auto
    obtain c s' where c: "first_ready (rset (mod_s t)) (wset (mod_s t)) (Suc i) ks t = Some (c, s')"
      "case c of None \<Rightarrow> filter (ready_now t) ks = [] \<and> looked {} t s'
       | Some j \<Rightarrow> Suc i \<le> j \<and> j < Suc i + length ks \<and> ready_now t (ks ! (j - Suc i)) \<and>
         filter (ready_now t) (take (j - Suc i) ks) = [] \<and> looked {ks ! (j - Suc i)} t s'"
      using Cons.IH [OF f(5), of "Suc i"] Cons.prems(2) by auto
    have run: "first_ready (rset (mod_s s)) (wset (mod_s s)) i (k # ks) s = Some (c, s')"
      using t(1) False c(1) f(2,3) by simp
    show ?thesis
    proof (cases c)
      case None
      with run c(2) same False looked_trans [OF lk, of "{}" s'] show ?thesis by auto
    next
      case (Some j)
      then have "Suc i \<le> j" using c(2) by simp
      then have "j - i = Suc (j - Suc i)" by simp
      with Some run c(2) same False looked_trans [OF lk, of "{ks ! (j - Suc i)}" s'] show ?thesis by auto
    qed
  qed
qed

text \<open>The sockets that the current round has still to hand out.\<close>

definition waiting :: "net \<Rightarrow> int list" where
  "waiting s = (case cur_clientsds (mod_s s) of None \<Rightarrow> [] | Some i \<Rightarrow> filter (ready_now s) (drop i (items (clientsds (mod_s s)))))"

lemma deliver_cur [simp]: "deliver_ready c (upd_mod (cur_clientsds_update (\<lambda>_. x)) s) = deliver_ready c s"
  by (cases "mod_s s") (simp add: deliver_ready_def upd_mod_def split: option.split)

lemma hand_out:
  assumes reg: "registry_ok s" and l: "lists_ok s" and w: "filter (ready_now s) (drop i (items (clientsds (mod_s s)))) = k # ks"
  shows "\<exists>j s1 s'. ready_from (Some i) s = Some (Some j, s1) \<and> deliver_ready (Some j) s1 = Some (k, 0, s') \<and>
    registry_ok s' \<and> lists_ok s' \<and> waiting s' = ks \<and> clientsds (mod_s s') = clientsds (mod_s s) \<and>
    write_pending (mod_s s') = write_pending (mod_s s1) \<and> looked {k} s s1"
proof -
  let ?xs = "items (clientsds (mod_s s))"
  have range: "\<forall>k\<in>set (drop i ?xs). 0 \<le> k \<and> k < FD_SETSIZE"
    using reg by (auto simp: registry_ok_def dest: in_set_dropD)
  have dist: "distinct ?xs" using reg by (simp add: registry_ok_def table_ok_def)
  obtain c s1 where c: "ready_from (Some i) s = Some (c, s1)"
    "case c of None \<Rightarrow> filter (ready_now s) (drop i ?xs) = [] \<and> looked {} s s1
     | Some j \<Rightarrow> i \<le> j \<and> j < i + length (drop i ?xs) \<and> ready_now s (drop i ?xs ! (j - i)) \<and>
         filter (ready_now s) (take (j - i) (drop i ?xs)) = [] \<and> looked {drop i ?xs ! (j - i)} s s1"
    using first_ready_correct [OF l range, of i] by (auto simp: ready_from_def)
  from c(2) w obtain j where cj: "c = Some j" by (cases c) auto
  define n where "n = j - i"
  have n: "j = i + n" "n < length (drop i ?xs)" "ready_now s (drop i ?xs ! n)" "filter (ready_now s) (take n (drop i ?xs)) = []"
    "looked {drop i ?xs ! n} s s1"
    using c(2) cj by (auto simp: n_def)
  have "filter (ready_now s) (drop i ?xs) = filter (ready_now s) (take n (drop i ?xs) @ drop i ?xs ! n # drop (Suc n) (drop i ?xs))"
    using id_take_nth_drop [OF n(2)] by simp
  also have "\<dots> = drop i ?xs ! n # filter (ready_now s) (drop (Suc j) ?xs)"
    using n by (simp add: add.commute)
  finally have k: "k = ?xs ! j" "ks = filter (ready_now s) (drop (Suc j) ?xs)" "drop i ?xs ! n = k" "j < length ?xs"
    using w n(1,2) by auto
  note f = looked_fields [OF n(5) [unfolded k(3)]]
  let ?s' = "upd_mod (cur_clientsds_update (\<lambda>_. next_position j (clientsds (mod_s s1)))) s1"
  have r1: "registry_ok s1" using f(6) reg by simp
  have "ready_now s1 x = ready_now s x" if "x \<in> set (drop (Suc j) ?xs)" for x
  proof -
    have "x \<noteq> ?xs ! j" using that dist k(4) by (auto simp: in_set_conv_nth nth_eq_iff_index_eq)
    then show ?thesis using f(7) k(1) by simp
  qed
  then have "filter (ready_now s1) (drop (Suc j) ?xs) = ks" unfolding k(2) by (simp cong: filter_cong)
  moreover have "ready_now ?s' = ready_now s1" by (simp add: ready_now_def fun_eq_iff)
  ultimately have "waiting ?s' = ks"
    by (auto simp: waiting_def f(1) next_position_def)
  moreover have "registry_ok ?s'" "lists_ok ?s'"
    using r1 f(5) by (simp_all add: registry_ok_def lists_ok_def)
  moreover have "deliver_ready (Some j) s1 = Some (k, 0, ?s')" by (simp add: deliver_ready_def f(1) k(1))
  ultimately show ?thesis using c(1) cj f(1) n(5) k(3) by (intro exI [of _ j] exI [of _ s1] exI [of _ ?s']) simp
qed

lemma looked_items: "looked P s t \<Longrightarrow> items (write_pending (mod_s t)) = items (write_pending (mod_s s))"
proof -
  assume "looked P s t"
  then obtain cp wp where "t = set_lists cp wp s" "items wp = items (write_pending (mod_s s))"
    unfolding looked_def by blast
  then show ?thesis by simp
qed

lemma serve_next:
  assumes reg: "registry_ok s" and l: "lists_ok s" and w: "waiting s = k # ks"
  obtains s' where "Socket_getReadySocket e1 e2 s = Some (k, 0, s')" "registry_ok s'" "lists_ok s'" "waiting s' = ks"
    "clientsds (mod_s s') = clientsds (mod_s s)" "items (write_pending (mod_s s')) = items (write_pending (mod_s s))"
proof -
  obtain i where i: "cur_clientsds (mod_s s) = Some i" using w by (auto simp: waiting_def split: option.splits)
  then have wi: "filter (ready_now s) (drop i (items (clientsds (mod_s s)))) = k # ks" using w by (simp add: waiting_def)
  then have ne: "items (clientsds (mod_s s)) \<noteq> []" by auto
  obtain j s1 s' where h: "ready_from (Some i) s = Some (Some j, s1)" "deliver_ready (Some j) s1 = Some (k, 0, s')"
    "registry_ok s'" "lists_ok s'" "waiting s' = ks" "clientsds (mod_s s') = clientsds (mod_s s)"
    "write_pending (mod_s s') = write_pending (mod_s s1)" "looked {k} s s1"
    using hand_out [OF reg l wi] by blast
  have same: "items (write_pending (mod_s s')) = items (write_pending (mod_s s))"
    using looked_items [OF h(8)] h(7) by simp
  have "Socket_getReadySocket e1 e2 s = Some (k, 0, s')"
    using ne by (simp add: Socket_getReadySocket_def i h(1,2))
  then show thesis using that [OF _ h(3-6) same] by blast
qed

definition view :: "Sockets \<Rightarrow> Sockets" where
  "view m = m\<lparr>write_pending := empty_alist, pending_wset := {}\<rparr>"

lemma continue_view:
  "continue_pending W c so rc1 s = Some (rc, so', s') \<Longrightarrow> view (mod_s s') = view (mod_s s)"
proof (induction W c so rc1 s arbitrary: rc so' s' rule: continue_pending.induct)
  case (1 W c so rc1 s)
  show ?case
  proof (cases c)
    case None
    with 1 show ?thesis by (simp add: continue_pending.simps [of W None])
  next
    case (Some i)
    let ?k = "items (write_pending (mod_s s)) ! i"
    have i: "\<not> i \<ge> length (items (write_pending (mod_s s)))" using 1(3) Some
      by (auto simp: continue_pending.simps [of W "Some i"])
    obtain isset rc2 t where t: "FD_ISSET ?k W = Some isset"
      "(if isset then Socket_continueWrite ?k s else Some (0, s)) = Some (rc2, t)"
      using 1(3) i unfolding Some continue_pending.simps [of W "Some i"]
      by (auto simp: Let_def split: Option.bind_splits)
    have m: "mod_s t = mod_s s" using t(2) continueWrite_mod by (auto split: if_splits)
    show ?thesis
    proof (cases "rc2 = 0")
      case True
      with 1(3) i t have "continue_pending W (next_position i (write_pending (mod_s t))) so rc1 t = Some (rc, so', s')"
        unfolding Some by (simp add: continue_pending.simps [of W "Some i"] SOCKET_ERROR_def)
      from 1(2) [OF Some i refl t(1,2) refl refl refl _ , of rc so' s'] this True show ?thesis
        by (simp add: m SOCKET_ERROR_def)
    next
      case False
      let ?w = "pending_wset (mod_s t)" 
      obtain x b where b: "SocketBuffer_writeComplete ?k (sbuf t) = (x, b)" by fastforce
      obtain w where w: "FD_CLR ?k ?w = Some w" using t(1)
        by (auto simp: FD_CLR_def FD_ISSET_def split: if_splits)
      let ?l = "remove_at i (write_pending (mod_s t))"
      let ?u = "upd_mod (\<lambda>m. m\<lparr>write_pending := ?l, pending_wset := w\<rparr>) (set_sbuf b t)"
      let ?v = "?u\<lparr>events := events ?u @ (if writeAvailable ?u \<and> rc2 > 0 then [Write_available ?k] else []) @
                   (if writecomplete ?u then [Write_complete ?k rc2] else [])\<rparr>"
      let ?so = "if rc2 = SOCKET_ERROR then Some ?k else so" and ?rc = "if rc2 = SOCKET_ERROR then SOCKET_ERROR else rc1"
      have "continue_pending W (cursor ?l) ?so ?rc ?v = Some (rc, so', s')"
        using 1(3) i t w False unfolding Some continue_pending.simps [of W "Some i"]
        by (simp add: Let_def b split del: if_split)
      from 1(1) [OF Some i refl t(1,2) refl refl refl False refl b [symmetric] w refl refl refl this]
      show ?thesis by (simp add: m view_def)
    qed
  qed
qed

lemma continueWrites_view:
  "Socket_continueWrites W so s = Some (rc, so', s') \<Longrightarrow> view (mod_s s') = view (mod_s s)"
  unfolding Socket_continueWrites_def by (rule continue_view)

lemma view_fields:
  assumes "view m = view m'"
  shows "clientsds m = clientsds m'" "rset m = rset m'" "rset_saved m = rset_saved m'" "maxfdp1 m = maxfdp1 m'"
    "connect_pending m = connect_pending m'" "cur_clientsds m = cur_clientsds m'"
  using arg_cong [OF assms, of clientsds] arg_cong [OF assms, of rset] arg_cong [OF assms, of rset_saved]
    arg_cong [OF assms, of maxfdp1] arg_cong [OF assms, of connect_pending] arg_cong [OF assms, of cur_clientsds]
  by (simp_all add: view_def)

text \<open>The sockets that a sequence of calls hands out; the result 0 says that there is none.\<close>

fun serve :: "(select_event \<times> select_event) list \<Rightarrow> net \<Rightarrow> (int list \<times> net) option" where
  "serve [] s = Some ([], s)"
| "serve ((e1, e2) # es) s = do {
     (k, rc, s) \<leftarrow> Socket_getReadySocket e1 e2 s;
     (ks, s) \<leftarrow> serve es s;
     Some (if k = 0 then ks else k # ks, s)
   }"

lemma serve_rest:
  assumes "registry_ok s" "lists_ok s" "waiting s = ks" "length es = length ks" "0 \<notin> set ks"
  shows "\<exists>s'. serve es s = Some (ks, s') \<and> registry_ok s' \<and> lists_ok s' \<and> waiting s' = [] \<and>
    clientsds (mod_s s') = clientsds (mod_s s) \<and> items (write_pending (mod_s s')) = items (write_pending (mod_s s))"
  using assms
proof (induction es arbitrary: s ks)
  case (Cons e es)
  obtain k ks' where ks: "ks = k # ks'" "waiting s = k # ks'" using Cons.prems(3,4) by (cases ks) auto
  obtain e1 e2 where e: "e = (e1, e2)" by (cases e)
  obtain t where t: "Socket_getReadySocket e1 e2 s = Some (k, 0, t)" "registry_ok t" "lists_ok t" "waiting t = ks'"
    "clientsds (mod_s t) = clientsds (mod_s s)" "items (write_pending (mod_s t)) = items (write_pending (mod_s s))"
    by (rule serve_next [OF Cons.prems(1,2) ks(2), of e1 e2]) blast
  obtain s' where "serve es t = Some (ks', s')" "registry_ok s'" "lists_ok s'" "waiting s' = []"
    "clientsds (mod_s s') = clientsds (mod_s t)" "items (write_pending (mod_s s')) = items (write_pending (mod_s t))"
    using Cons.IH [OF t(2-4)] Cons.prems(4,5) ks(1) by auto
  with t ks(1) e Cons.prems(5) show ?case by auto
qed auto

lemma none_waiting:
  assumes "registry_ok s" "lists_ok s" "waiting s = []"
  shows "\<exists>s1. ready_from (cur_clientsds (mod_s s)) s = Some (None, s1) \<and> looked {} s s1"
proof (cases "cur_clientsds (mod_s s)")
  case None
  then show ?thesis using looked_refl [OF assms(2)] by (auto simp: ready_from_def)
next
  case (Some i)
  have range: "\<forall>k\<in>set (drop i (items (clientsds (mod_s s)))). 0 \<le> k \<and> k < FD_SETSIZE"
    using assms(1) by (auto simp: registry_ok_def dest: in_set_dropD)
  obtain c s1 where c: "first_ready (rset (mod_s s)) (wset (mod_s s)) i (drop i (items (clientsds (mod_s s)))) s = Some (c, s1)"
    "case c of None \<Rightarrow> looked {} s s1
     | Some j \<Rightarrow> i \<le> j \<and> j < i + length (drop i (items (clientsds (mod_s s)))) \<and> ready_now s (drop i (items (clientsds (mod_s s))) ! (j - i))"
    using first_ready_correct [OF assms(2) range, of i] by (auto split: option.splits)
  have no: "filter (ready_now s) (drop i (items (clientsds (mod_s s)))) = []" using assms(3) Some by (simp add: waiting_def)
  have "c = None"
  proof (rule ccontr)
    assume "c \<noteq> None"
    then obtain j where j: "c = Some j" by blast
    then have "j - i < length (drop i (items (clientsds (mod_s s))))" "ready_now s (drop i (items (clientsds (mod_s s))) ! (j - i))"
      using c(2) by auto
    moreover have "\<forall>x\<in>set (drop i (items (clientsds (mod_s s)))). \<not> ready_now s x" using no by (simp add: filter_empty_conv)
    ultimately show False using nth_mem by blast
  qed
  with c Some show ?thesis by (simp add: ready_from_def)
qed

lemma pending_looked:
  assumes "looked P s t" "pending_ok s"
  shows "pending_ok t" "refused t = refused s"
proof -
  obtain cp wp where t: "t = set_lists cp wp s" "table_ok (\<lambda>k. k) wp" "items wp = items (write_pending (mod_s s))"
    using assms(1) unfolding looked_def by blast
  have e: "sbuf t = sbuf s" "bufs t = bufs s" "accepting t = accepting s" "write_pending (mod_s t) = wp" unfolding t(1) by simp_all
  show "pending_ok t" using assms(2) t(2,3) unfolding pending_ok_def e by (elim conjE, intro conjI) simp_all
  show "refused t = refused s" unfolding refused_def e fun_eq_iff by simp
qed

text \<open>The first call of a round: it reads the results of \<open>select\<close> into the sets, goes on with the pending
  writes and then looks for a ready socket from the start of the list.\<close>

lemma round_begins:
  assumes ok: "net_ok s" and w: "waiting s = []" and ne: "items (clientsds (mod_s s)) \<noteq> []" and fine: "\<forall>k. \<not> refused s k"
  obtains u n1 where "registry_ok u" "lists_ok u" "clientsds (mod_s u) = clientsds (mod_s s)"
    "waiting u = []" "finite (wset (mod_s u))"
    "\<forall>k\<in>registered s. ready_now u k \<longleftrightarrow>
       k \<in> w2 \<and> (k \<in> set (items (connect_pending (mod_s s))) \<or> k \<in> r \<and> k \<notin> set (items (write_pending (mod_s u))))"
    "Socket_getReadySocket (Ready r wr) (Ready x w2) s =
       (if n1 = (0::int) \<and> card (wset (mod_s u)) = 0 then Some (0, 0, u)
        else do { (cur, s) \<leftarrow> ready_from (Some 0) u; deliver_ready cur s })"
proof -
  have reg: "registry_ok s" and pend: "pending_ok s" using ok by (simp_all add: net_ok_def)
  then have lists: "lists_ok s" by (simp add: registry_ok_def pending_ok_def lists_ok_def)
  obtain s1 where s1: "ready_from (cur_clientsds (mod_s s)) s = Some (None, s1)" "looked {} s s1"
    using none_waiting [OF reg lists w] by blast
  note f = looked_fields [OF s1(2)]
  obtain cp wp where cp: "s1 = set_lists cp wp s" "set (items cp) = set (items (connect_pending (mod_s s)))"
    using s1(2) unfolding looked_def by auto
  let ?m = "mod_s (upd_mod (cur_clientsds_update (\<lambda>_. None)) s1)"
  let ?rs = "below (maxfdp1 ?m) (rset_saved ?m \<inter> r)"
  let ?pw = "below (maxfdp1 ?m) (pending_wset ?m \<inter> wr)"
  let ?s4 = "upd_mod (rset_update (\<lambda>_. ?rs)) (upd_mod (rset_update (\<lambda>_. rset_saved ?m)) (upd_mod (cur_clientsds_update (\<lambda>_. None)) s1))"
  have same: "sbuf ?s4 = sbuf s1" "bufs ?s4 = bufs s1" "write_pending (mod_s ?s4) = write_pending (mod_s s1)"
    "accepting ?s4 = accepting s1" by simp_all
  have p4: "pending_ok ?s4" using pending_looked(1) [OF s1(2) pend] unfolding pending_ok_def same .
  have f4: "\<not> refused ?s4 k" for k
    using fine unfolding pending_looked(2) [OF s1(2) pend, symmetric] refused_def same by blast
  obtain so t where t: "Socket_continueWrites ?pw None ?s4 = Some (0, so, t)" "pending_ok t"
  proof (rule continueWrites_all [OF p4, of ?pw None])
    fix rc so t E
    assume a: "Socket_continueWrites ?pw None ?s4 = Some (rc, so, t)" "pending_ok t" "\<forall>k\<in>E. refused ?s4 k" "rc = (if E = {} then 0 else - 1)"
    then have "E = {}" using f4 by blast
    with a that [of so t] show thesis by simp
  qed
  note v = view_fields [OF continueWrites_view [OF t(1)], simplified]
  let ?ws = "below (maxfdp1 (mod_s t)) (rset_saved (mod_s t) \<inter> w2)"
  let ?u = "upd_mod (wset_update (\<lambda>_. ?ws)) t"
  have fields: "clientsds (mod_s t) = clientsds (mod_s s)" "rset (mod_s t) = ?rs" "rset_saved (mod_s t) = rset_saved (mod_s s)"
    "maxfdp1 (mod_s t) = maxfdp1 (mod_s s)" "connect_pending (mod_s t) = cp" "cur_clientsds (mod_s t) = None"
    using v cp(1) by simp_all
  have rs: "?rs = below (maxfdp1 (mod_s s)) (rset_saved (mod_s s) \<inter> r)" using cp(1) by simp
  have mx: "maxfdp1 ?m \<noteq> 0"
  proof -
    obtain k where "k \<in> registered s" using ne by (cases "items (clientsds (mod_s s))") auto
    with reg show ?thesis using cp(1) by (fastforce simp: registry_ok_def)
  qed
  have "table_ok (\<lambda>k. k) cp" using f(5) cp(1) by (simp add: lists_ok_def)
  then have ru: "registry_ok ?u" "lists_ok ?u" "waiting ?u = []"
    using reg t(2) fields by (simp_all add: registry_ok_def lists_ok_def waiting_def position_ok_def pending_ok_def)
  have fin: "finite (wset (mod_s ?u))" using reg by (simp add: fields below_def registry_ok_def)
  have "ready_now ?u k \<longleftrightarrow>
       k \<in> w2 \<and> (k \<in> set (items (connect_pending (mod_s s))) \<or> k \<in> r \<and> k \<notin> set (items (write_pending (mod_s ?u))))"
    if "k \<in> registered s" for k
    using that reg cp(2) rs by (auto simp: ready_now_def fields below_def registry_ok_def)
  moreover have "Socket_getReadySocket (Ready r wr) (Ready x w2) s =
       (if int (card ?rs + card ?pw) = 0 \<and> card (wset (mod_s ?u)) = 0 then Some (0, 0, ?u)
        else do { (cur, s) \<leftarrow> ready_from (Some 0) ?u; deliver_ready cur s })"
    using ne s1(1) mx t(1) by (simp add: Socket_getReadySocket_def Let_def SOCKET_ERROR_def)
  ultimately show thesis using ru fin fields(1) by (intro that [of ?u "int (card ?rs + card ?pw)"]) simp_all
qed

text \<open>C17: One round of the event loop is fair.  A call of \<open>Socket_getReadySocket\<close> that starts a round,
  whatever \<open>select\<close> then finds readable and writable, and the calls after it, return every ready socket
  exactly once and in the order of the list, and no other socket; a socket is ready when it is writable
  and either its connection was pending or it is readable and its earlier writes are finished.  Only
  when all have been handed out does a call return to \<open>select\<close>.  The claim is of calls that no other thread
  disturbs while the first \<open>select\<close> waits with the mutex released.\<close>

theorem ready_sockets_served_once:
  assumes ok: "net_ok s" and w: "waiting s = []" and ne: "items (clientsds (mod_s s)) \<noteq> []" and fine: "\<forall>k. \<not> refused s k"
    and zero: "0 \<notin> registered s"
  shows "\<exists>R. distinct R \<and> (\<forall>es. length es = length R - 1 \<longrightarrow> (\<exists>s'.
    serve ((Ready r wr, Ready x w2) # es) s = Some (R, s') \<and> waiting s' = [] \<and> clientsds (mod_s s') = clientsds (mod_s s) \<and>
    R = filter (\<lambda>k. k \<in> w2 \<and> (k \<in> set (items (connect_pending (mod_s s))) \<or>
          k \<in> r \<and> k \<notin> set (items (write_pending (mod_s s'))))) (items (clientsds (mod_s s)))))"
proof (rule round_begins [OF ok w ne fine, where r = r and wr = wr and x = x and ?w2.0 = w2])
  fix u n1
  let ?xs = "items (clientsds (mod_s s))"
  let ?P = "\<lambda>s'. \<lambda>k. k \<in> w2 \<and> (k \<in> set (items (connect_pending (mod_s s))) \<or> k \<in> r \<and> k \<notin> set (items (write_pending (mod_s s'))))"
  assume u: "registry_ok u" "lists_ok u" "clientsds (mod_s u) = clientsds (mod_s s)" "waiting u = []" "finite (wset (mod_s u))"
    "\<forall>k\<in>registered s. ready_now u k \<longleftrightarrow> ?P u k"
    and run: "Socket_getReadySocket (Ready r wr) (Ready x w2) s =
       (if n1 = (0::int) \<and> card (wset (mod_s u)) = 0 then Some (0, 0, u)
        else do { (cur, s) \<leftarrow> ready_from (Some 0) u; deliver_ready cur s })"
  define R where "R = filter (ready_now u) ?xs"
  have R: "R = filter (?P u) ?xs" unfolding R_def by (rule filter_cong) (use u(6) in auto)
  have dist: "distinct R" using ok by (simp add: R_def net_ok_def registry_ok_def table_ok_def)
  have "\<exists>s'. serve ((Ready r wr, Ready x w2) # es) s = Some (R, s') \<and> waiting s' = [] \<and>
      clientsds (mod_s s') = clientsds (mod_s s) \<and> R = filter (?P s') ?xs" if es: "length es = length R - 1" for es
  proof (cases R)
    case Nil
    have "\<exists>s'. Socket_getReadySocket (Ready r wr) (Ready x w2) s = Some (0, 0, s') \<and> waiting s' = [] \<and>
      clientsds (mod_s s') = clientsds (mod_s s) \<and> items (write_pending (mod_s s')) = items (write_pending (mod_s u))"
    proof (cases "n1 = 0 \<and> card (wset (mod_s u)) = 0")
      case True
      with run u(3,4) show ?thesis by auto
    next
      case False
      let ?v = "upd_mod (cur_clientsds_update (\<lambda>_. Some 0)) u"
      have rv: "ready_now ?v = ready_now u" by (simp add: ready_now_def fun_eq_iff)
      have "registry_ok ?v" "lists_ok ?v" "waiting ?v = []"
        using u(1-3) ne Nil by (simp_all add: registry_ok_def lists_ok_def position_ok_def waiting_def rv R_def)
      then obtain v1 where v1: "ready_from (Some 0) ?v = Some (None, v1)" "looked {} ?v v1"
        using none_waiting [of ?v] by auto
      obtain c u1 where c: "ready_from (Some 0) u = Some (c, u1)"
        "case c of None \<Rightarrow> looked {} u u1 | Some j \<Rightarrow> j < length ?xs \<and> ready_now u (?xs ! j)"
        using first_ready_correct [OF u(2), of ?xs 0] u(1,3)
        by (auto simp: ready_from_def registry_ok_def split: option.splits)
      have "c = None"
      proof (cases c)
        case (Some j)
        then have "?xs ! j \<in> set R" using c(2) by (simp add: R_def)
        then show ?thesis using Nil by simp
      qed simp
      with run False c looked_items [of "{}" u u1] looked_fields(1) [of "{}" u u1] u(3) show ?thesis
        by (auto simp: deliver_ready_def waiting_def)
    qed
    then show ?thesis using Nil es R by auto
  next
    case (Cons k ks)
    then have k: "ready_now u k" "k \<noteq> 0" "0 \<notin> set ks" 
    proof -
      have "set R \<subseteq> {k \<in> registered s. ready_now u k}" by (auto simp: R_def)
      with Cons zero show "ready_now u k" "k \<noteq> 0" "0 \<notin> set ks" by auto
    qed
    have "wset (mod_s u) \<noteq> {}" using k(1) by (auto simp: ready_now_def)
    then have "card (wset (mod_s u)) \<noteq> 0" using u(5) by simp
    moreover obtain j s1 t where t: "ready_from (Some 0) u = Some (Some j, s1)" "deliver_ready (Some j) s1 = Some (k, 0, t)"
      "registry_ok t" "lists_ok t" "waiting t = ks" "clientsds (mod_s t) = clientsds (mod_s u)"
      "write_pending (mod_s t) = write_pending (mod_s s1)" "looked {k} u s1"
      using hand_out [OF u(1,2), of 0 k ks] Cons u(3) by (auto simp: R_def)
    ultimately have first: "Socket_getReadySocket (Ready r wr) (Ready x w2) s = Some (k, 0, t)" using run by simp
    obtain s' where s': "serve es t = Some (ks, s')" "waiting s' = []"
      "clientsds (mod_s s') = clientsds (mod_s t)" "items (write_pending (mod_s s')) = items (write_pending (mod_s t))"
      using serve_rest [OF t(3-5) _ k(3), of es] es Cons by auto
    have "items (write_pending (mod_s s')) = items (write_pending (mod_s u))" using s'(4) t(7) looked_items [OF t(8)] by simp
    with first s' k(2) Cons t(6) u(3) R show ?thesis by auto
  qed
  then show ?thesis using dist by blast
qed

theorem ready_sockets_served_once_witness:
  "\<exists>s'. serve [(Ready {7} {}, Ready {} {7})] (demo_net []) = Some ([7], s') \<and> waiting s' = []"
proof -
  let ?s = "demo_net []"
  have cl: "items (clientsds (mod_s ?s)) = [7]" by (simp add: demo_net_def)
  have r: "\<forall>k. \<not> refused ?s k" by (simp add: refused_def demo_net_def)
  have w: "waiting ?s = []" by (simp add: waiting_def demo_net_def)
  obtain R where R: "\<forall>es. length es = length R - 1 \<longrightarrow> (\<exists>s'.
    serve ((Ready {7} {}, Ready {} {7}) # es) ?s = Some (R, s') \<and> waiting s' = [] \<and> clientsds (mod_s s') = clientsds (mod_s ?s) \<and>
    R = filter (\<lambda>k. k \<in> {7} \<and> (k \<in> set (items (connect_pending (mod_s ?s))) \<or>
          k \<in> {7} \<and> k \<notin> set (items (write_pending (mod_s s'))))) [7])"
    using ready_sockets_served_once [OF demo_net_ok(1) w _ r, of "{7}" "{}" "{}" "{7}"] cl by auto
  have "length R - 1 = 0"
    using R [rule_format, of "replicate (length R - 1) (Select_fails, Select_fails)"] by (auto split: if_splits)
  then obtain s' where s': "serve [(Ready {7} {}, Ready {} {7})] ?s = Some (R, s')" "waiting s' = []"
    using R by auto
  have "R = [7]" using s'(1)
    by (auto simp: Socket_getReadySocket_def demo_net_def ready_from_def Socket_continueWrites_def empty_alist_def
        continue_pending.simps [of _ None] isReady_def find_socket_def a_find_def below_def FD_ISSET_def FD_SETSIZE_def
        Socket_noPendingWrites_def deliver_ready_def upd_mod_def SOCKET_ERROR_def Let_def)
  with s' show ?thesis by blast
qed

end
