(* ===== verification/Memory.thy ===== *)
theory Memory
  imports SocketReady
begin

text \<open>
  Blocks of memory for strings and packets: allocation, C strings, and when one memory still holds
  everything another one held.  The addresses \<open>malloc\<close> answers with are not under \<^verbatim>\<open>src/\<close>: the allocator
  is an argument, of which the theorems assume only that the block it finds is free.
\<close>

section \<open>Allocation\<close>

text \<open>The addresses a block takes up; also an empty block has an address of its own.\<close>

definition span :: "ptr \<Rightarrow> nat \<Rightarrow> ptr set" where
  "span p n = {p..<p + max n 1}"

definition room :: "bufmem \<Rightarrow> ptr \<Rightarrow> nat \<Rightarrow> bool" where
  "room h p n \<longleftrightarrow> p \<noteq> NULL \<and> (\<forall>q k. extent h q = Some k \<longrightarrow> span q k \<inter> span p n = {})"

type_synonym alloc = "bufmem \<Rightarrow> nat \<Rightarrow> ptr"

definition buf_allocator :: "alloc \<Rightarrow> bool" where
  "buf_allocator alloc \<longleftrightarrow> (\<forall>h n. finite (dom (extent h)) \<longrightarrow> room h (alloc h n) n)"

text \<open>One that does: the address behind all blocks.\<close>

definition next_room :: alloc where
  "next_room h n = Suc (Max (insert 0 ((\<lambda>q. q + the (extent h q)) ` dom (extent h))))"

lemma next_room_allocator: "buf_allocator next_room"
proof -
  have "span q k \<inter> span (next_room h n) n = {}" if "finite (dom (extent h))" "extent h q = Some k" for h n q k
  proof -
    have "q + k \<in> insert 0 ((\<lambda>q. q + the (extent h q)) ` dom (extent h))"
      using that(2) by (auto intro!: image_eqI [of _ _ q])
    then have "q + k < next_room h n" using that(1) by (auto simp: next_room_def less_Suc_eq_le)
    then show ?thesis by (auto simp: span_def)
  qed
  then show ?thesis by (auto simp: buf_allocator_def room_def) (simp add: next_room_def)
qed

definition alloc_buf :: "alloc \<Rightarrow> nat \<Rightarrow> bufmem \<Rightarrow> ptr \<times> bufmem" where
  "alloc_buf alloc n h =
     (let p = alloc h n
      in (p, \<lparr>cells = (\<lambda>a. if a \<in> {p..<p + n} then None else cells h a), extent = (extent h)(p \<mapsto> n)\<rparr>))"

text \<open>\<open>memcpy\<close> of \<open>bs\<close> to the address \<open>p\<close>, inside a block.\<close>

definition fill :: "ptr \<Rightarrow> byte list \<Rightarrow> bufmem \<Rightarrow> bufmem" where
  "fill p bs h = h\<lparr>cells := \<lambda>a. if a \<in> {p..<p + length bs} then Some (bs ! (a - p)) else cells h a\<rparr>"

definition place :: "alloc \<Rightarrow> byte list \<Rightarrow> bufmem \<Rightarrow> ptr \<times> bufmem" where
  "place alloc bs h = (let (p, h) = alloc_buf alloc (length bs) h in (p, fill p bs h))"

text \<open>The string at an address: the bytes of the block before the first null byte.\<close>

definition read_cstr :: "bufmem \<Rightarrow> ptr \<Rightarrow> byte list option" where
  "read_cstr h p = do {
     n \<leftarrow> extent h p;
     let cs = takeWhile (\<lambda>c. c \<noteq> Some 0) (map (cells h) [p..<p + n]);
     if length cs = n then None else those cs
   }"

section \<open>Well-formed memory\<close>

definition live :: "bufmem \<Rightarrow> ptr set" where
  "live h = {a. \<exists>q k. extent h q = Some k \<and> a \<in> {q..<q + k}}"

definition heap_ok :: "bufmem \<Rightarrow> bool" where
  "heap_ok h \<longleftrightarrow> finite (dom (extent h)) \<and> extent h NULL = None \<and>
     (\<forall>p n q k. extent h p = Some n \<and> extent h q = Some k \<and> p \<noteq> q \<longrightarrow> span p n \<inter> span q k = {}) \<and>
     (\<forall>a. cells h a \<noteq> None \<longrightarrow> a \<in> live h)"

text \<open>Every block of \<open>h\<close> is still there, with its bytes.\<close>

definition extends :: "bufmem \<Rightarrow> bufmem \<Rightarrow> bool" where
  "extends h h' \<longleftrightarrow> (\<forall>q k. extent h q = Some k \<longrightarrow> extent h' q = Some k) \<and> (\<forall>a\<in>live h. cells h' a = cells h a)"

lemma extends_refl [simp]: "extends h h"
  by (simp add: extends_def)

lemma live_extends: "extends h h' \<Longrightarrow> live h \<subseteq> live h'"
  by (auto simp: extends_def live_def)

lemma extends_trans: "extends h h' \<Longrightarrow> extends h' h'' \<Longrightarrow> extends h h''"
  using live_extends [of h h'] by (auto simp: extends_def)

lemma extends_extent: "extends h h' \<Longrightarrow> extent h p = Some n \<Longrightarrow> extent h' p = Some n"
  by (simp add: extends_def)

lemma extends_cells:
  assumes "heap_ok h" "extends h h'" "cells h a \<noteq> None"
  shows "cells h' a = cells h a"
  using assms by (auto simp: heap_ok_def extends_def)

lemma extends_read:
  assumes ok: "heap_ok h" and ext: "extends h h'" and r: "read_buf h p n = Some bs"
  shows "read_buf h' p n = Some bs"
proof -
  have r': "map (cells h) [p..<p + n] = map Some bs" using r by (simp add: read_buf_def those_Some)
  have "map (cells h') [p..<p + n] = map (cells h) [p..<p + n]"
  proof (rule map_cong)
    fix a
    assume "a \<in> set [p..<p + n]"
    then have "cells h a \<in> set (map Some bs)" unfolding r' [symmetric] by simp
    then show "cells h' a = cells h a" using extends_cells [OF ok ext, of a] by auto
  qed simp
  then show ?thesis using r' by (simp add: read_buf_def)
qed

lemma extends_cstr:
  assumes "extends h h'" "read_cstr h p = Some s"
  shows "read_cstr h' p = Some s"
proof -
  obtain n where n: "extent h p = Some n" using assms(2) by (auto simp: read_cstr_def split: Option.bind_splits)
  have "map (cells h') [p..<p + n] = map (cells h) [p..<p + n]"
    using assms(1) n unfolding extends_def live_def by (intro map_cong) force+
  moreover have "extent h' p = Some n" using extends_extent [OF assms(1) n] .
  ultimately show ?thesis using assms(2) n unfolding read_cstr_def by (simp del: map_eq_conv)
qed

lemma read_cstr_live: "read_cstr h p = Some s \<Longrightarrow> extent h p \<noteq> None"
  by (auto simp: read_cstr_def split: Option.bind_splits)

section \<open>Allocating and freeing\<close>

lemma span_nonempty [simp]: "p \<in> span p n"
  by (simp add: span_def)

lemma span_block: "{p..<p + n} \<subseteq> span p n"
  by (auto simp: span_def)

lemma room_fresh:
  assumes "room h p n"
  shows "extent h p = None" "{p..<p + n} \<inter> live h = {}"
proof -
  show "extent h p = None"
  proof (cases "extent h p")
    case (Some k)
    with assms have "span p k \<inter> span p n = {}" by (auto simp: room_def)
    then show ?thesis using span_nonempty by blast
  qed simp
  have "\<not> (a \<in> {q..<q + k})" if "a \<in> {p..<p + n}" "extent h q = Some k" for a q k
    using assms that span_block [of p n] span_block [of q k] unfolding room_def by blast
  then show "{p..<p + n} \<inter> live h = {}" by (auto simp: live_def)
qed

lemma place_block:
  assumes al: "buf_allocator alloc" and ok: "heap_ok h" and pl: "place alloc bs h = (p, h')"
  shows "heap_ok h'" "extends h h'" "extent h p = None" "p \<noteq> NULL" "read_buf h' p (length bs) = Some bs"
    "extent h' = (extent h)(p \<mapsto> length bs)"
    "\<And>a. cells h' a = (if a \<in> {p..<p + length bs} then Some (bs ! (a - p)) else cells h a)"
proof -
  have p: "p = alloc h (length bs)" and h': "extent h' = (extent h)(p \<mapsto> length bs)"
    and c: "cells h' a = (if a \<in> {p..<p + length bs} then Some (bs ! (a - p)) else cells h a)" for a
    using pl by (auto simp: place_def alloc_buf_def fill_def Let_def)
  show "extent h' = (extent h)(p \<mapsto> length bs)" "\<And>a. cells h' a = (if a \<in> {p..<p + length bs} then Some (bs ! (a - p)) else cells h a)"
    by (fact h', fact c)
  have r: "room h p (length bs)" using al ok p by (simp add: buf_allocator_def heap_ok_def)
  note fresh = room_fresh [OF r]
  show "extent h p = None" by (fact fresh(1))
  show "p \<noteq> NULL" using r by (simp add: room_def)
  show "extends h h'" using fresh by (auto simp: extends_def h' c)
  have "map (cells h') [p..<p + length bs] = map Some bs"
    by (rule nth_equalityI) (simp_all add: c)
  then show "read_buf h' p (length bs) = Some bs" by (simp add: read_buf_def)
  have new: "{p..<p + length bs} \<subseteq> live h'" by (auto simp: live_def h')
  have "live h \<subseteq> live h'" using \<open>extends h h'\<close> by (rule live_extends)
  then have cl: "a \<in> live h'" if "cells h' a \<noteq> None" for a
    using that new ok by (auto simp: c heap_ok_def split: if_splits)
  have dis: "span q n \<inter> span q' k = {}" if "extent h' q = Some n" "extent h' q' = Some k" "q \<noteq> q'" for q n q' k
    using that ok r unfolding h' heap_ok_def room_def by (auto split: if_splits)
  show "heap_ok h'" using ok r cl dis unfolding heap_ok_def by (auto simp: h' room_def)
qed

lemma without_extent [simp]: "extent (without ps h) p = (if p \<in> set ps then None else extent h p)"
  by (simp add: without_def)

lemma without_cells: "cells (without ps h) a = (if a \<in> (\<Union>p\<in>set ps. block h p) then None else cells h a)"
  by (simp add: without_def)

lemma block_live: "block h p \<subseteq> live h"
proof (cases "extent h p")
  case (Some n)
  show ?thesis
  proof
    fix a
    assume "a \<in> block h p"
    then have "a \<in> {p..<p + n}" using Some by (simp add: block_def)
    with Some show "a \<in> live h" unfolding live_def by blast
  qed
qed (simp add: block_def)

lemma block_span: "extent h p = Some n \<Longrightarrow> block h p \<subseteq> span p n"
  using span_block by (auto simp: block_def)

lemma blocks_disjoint:
  assumes "heap_ok h" "p \<noteq> q"
  shows "block h p \<inter> block h q = {}"
proof (cases "extent h p")
  case (Some n)
  show ?thesis
  proof (cases "extent h q")
    case (Some k)
    with \<open>extent h p = Some n\<close> assms have "span p n \<inter> span q k = {}" by (auto simp: heap_ok_def)
    with block_span [OF Some] block_span [OF \<open>extent h p = Some n\<close>] show ?thesis by blast
  qed (simp add: block_def)
qed (simp add: block_def)

lemma live_blocks: "live h = (\<Union>p. block h p)"
proof
  show "live h \<subseteq> (\<Union>p. block h p)"
  proof
    fix a
    assume "a \<in> live h"
    then obtain q k where "extent h q = Some k" "a \<in> {q..<q + k}" by (auto simp: live_def)
    then have "a \<in> block h q" by (simp add: block_def)
    then show "a \<in> (\<Union>p. block h p)" by blast
  qed
qed (use block_live in blast)

lemma heap_without:
  assumes ok: "heap_ok h"
  shows "heap_ok (without ps h)"
proof -
  have "a \<in> live (without ps h)" if c: "cells (without ps h) a \<noteq> None" for a
  proof -
    have a: "a \<notin> (\<Union>p\<in>set ps. block h p)" "cells h a \<noteq> None" using c by (auto simp: without_cells split: if_splits)
    then obtain q k where q: "extent h q = Some k" "a \<in> {q..<q + k}" using ok by (auto simp: heap_ok_def live_def)
    then have "a \<in> block h q" by (simp add: block_def)
    then have "q \<notin> set ps" using a(1) by blast
    then show ?thesis using q by (auto simp: live_def)
  qed
  moreover have "finite (dom (extent (without ps h)))"
    by (rule finite_subset [of _ "dom (extent h)"]) (use ok in \<open>auto simp: heap_ok_def split: if_splits\<close>)
  moreover have "extent (without ps h) NULL = None" using ok by (simp add: heap_ok_def)
  moreover have "span p n \<inter> span q k = {}"
    if "extent (without ps h) p = Some n" "extent (without ps h) q = Some k" "p \<noteq> q" for p n q k
    using that ok unfolding heap_ok_def by (auto split: if_splits)
  ultimately show ?thesis unfolding heap_ok_def by blast
qed

text \<open>Freeing blocks that were not there before leaves everything that was.\<close>

lemma extends_without:
  assumes ok: "heap_ok h'" and ext: "extends h h'" and new: "\<forall>p\<in>set ps. extent h p = None"
  shows "extends h (without ps h')"
proof -
  have "a \<notin> block h' p" if "a \<in> live h" "p \<in> set ps" for a p
  proof -
    obtain q k where q: "extent h q = Some k" "a \<in> {q..<q + k}" using \<open>a \<in> live h\<close> by (auto simp: live_def)
    then have "extent h' q = Some k" using ext by (rule_tac extends_extent)
    then have "a \<in> block h' q" using q by (simp add: block_def)
    moreover have "q \<noteq> p" using q new that by auto
    ultimately show ?thesis using blocks_disjoint [OF ok, of q p] by blast
  qed
  then show ?thesis using ext new by (auto simp: extends_def without_cells)
qed

text \<open>Two memories with the same blocks, one an extension of the other, are equal.\<close>

lemma extends_same:
  assumes "heap_ok h" "heap_ok h'" "extends h h'" "extent h' = extent h"
  shows "h' = h"
proof -
  have "live h' = live h" by (simp add: live_def assms(4))
  then have "cells h' a = cells h a" for a
  proof (cases "a \<in> live h")
    case False
    then have "cells h a = None" "cells h' a = None" using assms(1,2) \<open>live h' = live h\<close> unfolding heap_ok_def by blast+
    then show ?thesis by simp
  qed (use assms(3) in \<open>simp add: extends_def\<close>)
  then show ?thesis using assms(4) by (cases h; cases h') (auto simp: fun_eq_iff)
qed

text \<open>A new block before anything is stored in it, and storing into a block.\<close>

lemma alloc_block:
  assumes al: "buf_allocator alloc" and ok: "heap_ok h" and pl: "alloc_buf alloc n h = (p, h')"
  shows "heap_ok h'" "extends h h'" "extent h p = None" "p \<noteq> NULL" "{p..<p + n} \<inter> live h = {}"
    "extent h' = (extent h)(p \<mapsto> n)" "cells h' = cells h"
proof -
  have p: "p = alloc h n" and h': "extent h' = (extent h)(p \<mapsto> n)"
    and c: "cells h' a = (if a \<in> {p..<p + n} then None else cells h a)" for a
    using pl by (auto simp: alloc_buf_def Let_def)
  show "extent h' = (extent h)(p \<mapsto> n)" by (fact h')
  have r: "room h p n" using al ok p by (simp add: buf_allocator_def heap_ok_def)
  note fresh = room_fresh [OF r]
  show "extent h p = None" "{p..<p + n} \<inter> live h = {}" by (fact fresh)+
  show "p \<noteq> NULL" using r by (simp add: room_def)
  have "cells h a = None" if "a \<in> {p..<p + n}" for a
    using ok fresh(2) that unfolding heap_ok_def by blast
  then show cs: "cells h' = cells h" by (auto simp: c)
  show ext: "extends h h'" using fresh by (auto simp: extends_def h' cs)
  have "a \<in> live h'" if "cells h' a \<noteq> None" for a
    using that ok live_extends [OF ext] unfolding cs heap_ok_def by blast
  moreover have "span q m \<inter> span q' k = {}" if "extent h' q = Some m" "extent h' q' = Some k" "q \<noteq> q'" for q m q' k
    using that ok r unfolding h' heap_ok_def room_def by (auto split: if_splits)
  ultimately show "heap_ok h'" using ok r unfolding heap_ok_def by (auto simp: h' room_def)
qed

lemma heap_ok_cells:
  assumes "heap_ok h" "extent h' = extent h" "\<forall>a. cells h' a \<noteq> None \<longrightarrow> a \<in> live h"
  shows "heap_ok h'"
proof -
  have "live h' = live h" by (simp add: live_def assms(2))
  then show ?thesis using assms unfolding heap_ok_def by simp
qed

lemma liveI: "extent h p = Some n \<Longrightarrow> p \<le> a \<Longrightarrow> a < p + n \<Longrightarrow> a \<in> live h"
  unfolding live_def by auto

lemma empty_block_not_live:
  assumes "heap_ok h" "extent h p = Some 0"
  shows "p \<notin> live h"
proof
  assume "p \<in> live h"
  then obtain q k where q: "extent h q = Some k" "p \<in> {q..<q + k}" by (auto simp: live_def)
  then have "q \<noteq> p" using assms(2) by auto
  with assms q(1) have "span p 0 \<inter> span q k = {}" unfolding heap_ok_def by auto
  moreover have "p \<in> span q k" using q(2) span_block by blast
  ultimately show False using span_nonempty by blast
qed

end
