(* ===== verification/Wire.thy ===== *)
theory Wire
  imports Prelude
begin

unbundle bit_operations_syntax

text \<open>
  The primitives with which \<^verbatim>\<open>src/src/MQTTPacket.c\<close> reads and writes packets: the bit fields of the
  header byte, the variable byte integers, the big-endian integers, strings and binary data.
  Writing goes through a \<open>char **\<close> into a freshly allocated buffer, which is the record \<open>wbuf\<close>: a
  write past the end has no result, and the cells not yet written stay uninitialised.  Reading
  goes through a position in a list of bytes.
\<close>

section \<open>The header byte\<close>

text \<open>The union \<open>Header\<close>: from the low bit, \<open>retain : 1\<close>, \<open>qos : 2\<close>, \<open>dup : 1\<close>, \<open>type : 4\<close>.  An
  assignment to a bit field keeps the low bits of the value.\<close>

type_synonym Header = byte

definition h_retain :: "Header \<Rightarrow> int" where "h_retain h = uint (h AND 1)"
definition h_qos :: "Header \<Rightarrow> int" where "h_qos h = uint (drop_bit 1 h AND 3)"
definition h_dup :: "Header \<Rightarrow> int" where "h_dup h = uint (drop_bit 3 h AND 1)"
definition h_type :: "Header \<Rightarrow> int" where "h_type h = uint (drop_bit 4 h)"

definition set_retain :: "int \<Rightarrow> Header \<Rightarrow> Header" where
  "set_retain r h = (h AND 0xFE) OR (word_of_int r AND 1)"
definition set_qos :: "int \<Rightarrow> Header \<Rightarrow> Header" where
  "set_qos q h = (h AND 0xF9) OR push_bit 1 (word_of_int q AND 3)"
definition set_dup :: "int \<Rightarrow> Header \<Rightarrow> Header" where
  "set_dup d h = (h AND 0xF7) OR push_bit 3 (word_of_int d AND 1)"
definition set_type :: "int \<Rightarrow> Header \<Rightarrow> Header" where
  "set_type t h = (h AND 0x0F) OR push_bit 4 (word_of_int t)"

section \<open>Writing\<close>

record wbuf =
  w_mem :: mem
  w_pos :: nat

definition malloc_buf :: "nat \<Rightarrow> wbuf" where
  "malloc_buf n = \<lparr>w_mem = raw_mem n, w_pos = 0\<rparr>"

text \<open>\<open>memcpy( *pptr, bs, len); *pptr += len\<close>.\<close>

definition put_bytes :: "byte list \<Rightarrow> wbuf \<Rightarrow> wbuf option" where
  "put_bytes bs w = do {
     m \<leftarrow> store_bytes (w_mem w) (w_pos w) bs;
     Some (w\<lparr>w_mem := m, w_pos := w_pos w + length bs\<rparr>)
   }"

definition writeChar :: "byte \<Rightarrow> wbuf \<Rightarrow> wbuf option" where
  "writeChar c w = put_bytes [c] w"

definition writeInt :: "int \<Rightarrow> wbuf \<Rightarrow> wbuf option" where
  "writeInt anInt w = do {
     w \<leftarrow> put_bytes [word_of_int (anInt sdiv 256)] w;
     put_bytes [word_of_int (anInt smod 256)] w
   }"

definition writeInt4 :: "int \<Rightarrow> wbuf \<Rightarrow> wbuf option" where
  "writeInt4 anInt w = do {
     w \<leftarrow> put_bytes [word_of_int (anInt sdiv 16777216)] w;
     let anInt = anInt smod 16777216;
     w \<leftarrow> put_bytes [word_of_int (anInt sdiv 65536)] w;
     let anInt = anInt smod 65536;
     w \<leftarrow> put_bytes [word_of_int (anInt sdiv 256)] w;
     put_bytes [word_of_int (anInt smod 256)] w
   }"

text \<open>A C string is the list of the bytes in front of its terminator; \<open>strlen\<close> stops at the first
  zero byte.\<close>

definition strlen :: "byte list \<Rightarrow> nat" where
  "strlen s = length (takeWhile (\<lambda>b. b \<noteq> 0) s)"

definition writeUTF :: "byte list \<Rightarrow> wbuf \<Rightarrow> wbuf option" where
  "writeUTF s w = do {
     let len = strlen s;
     w \<leftarrow> writeInt (int len) w;
     put_bytes (take len s) w
   }"

text \<open>\<open>datalen\<close> bytes of \<open>data\<close>; a negative length, or one past the end of \<open>data\<close>, has no result.\<close>

definition writeData :: "byte list \<Rightarrow> int \<Rightarrow> wbuf \<Rightarrow> wbuf option" where
  "writeData data datalen w =
     (if datalen < 0 \<or> nat datalen > length data then None
      else do { w \<leftarrow> writeInt datalen w; put_bytes (take (nat datalen) data) w })"

record MQTTLenString =
  ls_len :: int
  ls_data :: "byte list"

definition writeMQTTLenString :: "MQTTLenString \<Rightarrow> wbuf \<Rightarrow> wbuf option" where
  "writeMQTTLenString s w =
     (if ls_len s < 0 \<or> nat (ls_len s) > length (ls_data s) then None
      else do { w \<leftarrow> writeInt (ls_len s) w; put_bytes (take (nat (ls_len s)) (ls_data s)) w })"

section \<open>Variable byte integers\<close>

text \<open>The digits are stored behind the current position, which the caller then advances by the
  result.  Without a buffer the digits are only counted.\<close>

function MQTTPacket_encode_loop :: "wbuf option \<Rightarrow> nat \<Rightarrow> nat \<Rightarrow> (nat \<times> wbuf option) option" where
  "MQTTPacket_encode_loop buf rc len =
     (let d = word_of_nat (len mod 128) :: byte;
          len = len div 128;
          d = (if len > 0 then d OR 0x80 else d)
      in do {
        buf \<leftarrow> (case buf of
                  None \<Rightarrow> Some None
                | Some w \<Rightarrow> do {
                    m \<leftarrow> store_bytes (w_mem w) (w_pos w + rc) [d];
                    Some (Some (w\<lparr>w_mem := m\<rparr>))
                  });
        if len > 0 then MQTTPacket_encode_loop buf (rc + 1) len else Some (rc + 1, buf)
      })"
  by pat_completeness auto

termination
  by (relation "measure (\<lambda>(_, _, len). len)") auto

declare MQTTPacket_encode_loop.simps [simp del]

definition MQTTPacket_encode :: "wbuf option \<Rightarrow> nat \<Rightarrow> (nat \<times> wbuf option) option" where
  "MQTTPacket_encode buf len = MQTTPacket_encode_loop buf 0 len"

text \<open>\<open>*pptr += MQTTPacket_encode( *pptr, len)\<close>.\<close>

definition write_vbi :: "nat \<Rightarrow> wbuf \<Rightarrow> wbuf option" where
  "write_vbi len w = do {
     (rc, buf) \<leftarrow> MQTTPacket_encode (Some w) len;
     w \<leftarrow> buf;
     Some (w\<lparr>w_pos := w_pos w + rc\<rparr>)
   }"

definition MQTTPacket_VBIlen :: "int \<Rightarrow> int" where
  "MQTTPacket_VBIlen rem_len =
     (if rem_len < 128 then 1
      else if rem_len < 16384 then 2
      else if rem_len < 2097152 then 3
      else 4)"

section \<open>Reading\<close>

text \<open>A read gives the value and the new position.\<close>

definition nth_opt :: "'a list \<Rightarrow> nat \<Rightarrow> 'a option" where
  "nth_opt xs i = (if i < length xs then Some (xs ! i) else None)"

definition readChar :: "byte list \<Rightarrow> nat \<Rightarrow> (byte \<times> nat) option" where
  "readChar data pos = do { c \<leftarrow> nth_opt data pos; Some (c, pos + 1) }"

definition readInt :: "byte list \<Rightarrow> nat \<Rightarrow> (int \<times> nat) option" where
  "readInt data pos = do {
     a \<leftarrow> nth_opt data pos;
     b \<leftarrow> nth_opt data (pos + 1);
     Some (256 * uint a + uint b, pos + 2)
   }"

text \<open>\<open>readUTFlen\<close>: the string if there is one, \<open>*len\<close> (unchanged when it is not read) and the
  position.  The copy of the string is allocated.\<close>

definition readUTFlen ::
  "byte list \<Rightarrow> nat \<Rightarrow> int \<Rightarrow> mallocs \<Rightarrow> (byte list option \<times> int \<times> nat \<times> mallocs) option" where
  "readUTFlen data pos len ms =
     (if length data - pos > 1 then do {
        (len, pos) \<leftarrow> readInt data pos;
        if pos + nat len \<le> length data then
          let (ok, ms) = next_malloc ms in
          if \<not> ok then Some (None, len, pos, ms)
          else Some (Some (take (nat len) (drop pos data)), len, pos + nat len, ms)
        else Some (None, len, pos, ms)
      }
      else Some (None, len, pos, ms))"

section \<open>What has been written\<close>

text \<open>A buffer of \<open>n\<close> bytes into which exactly \<open>bs\<close> has been written.\<close>

definition wrote :: "nat \<Rightarrow> byte list \<Rightarrow> wbuf" where
  "wrote n bs = \<lparr>w_mem = map Some bs @ replicate (n - length bs) None, w_pos = length bs\<rparr>"

lemma malloc_buf_wrote [buf_simps]: "malloc_buf n = wrote n []"
  by (simp add: malloc_buf_def wrote_def raw_mem_def)

lemma put_bytes_wrote [buf_simps]:
  "length bs + length cs \<le> n \<Longrightarrow> put_bytes cs (wrote n bs) = Some (wrote n (bs @ cs))"
  by (auto simp: put_bytes_def store_bytes_def wrote_def min_def)

lemma put_bytes_overflow: "length bs + length cs > n \<Longrightarrow> length bs \<le> n \<Longrightarrow> put_bytes cs (wrote n bs) = None"
  by (simp add: put_bytes_def store_bytes_def wrote_def)

lemma wrote_full: "those (w_mem (wrote (length bs) bs)) = Some bs"
  by (simp add: wrote_def)

text \<open>The bytes each primitive writes.\<close>

definition be16 :: "int \<Rightarrow> byte list" where
  "be16 i = [word_of_int (i div 256), word_of_int (i mod 256)]"

definition be32 :: "int \<Rightarrow> byte list" where
  "be32 i = [word_of_int (i div 16777216), word_of_int (i div 65536 mod 256),
     word_of_int (i div 256 mod 256), word_of_int (i mod 256)]"

lemma length_be [simp]: "length (be16 i) = 2" "length (be32 i) = 4"
  by (simp_all add: be16_def be32_def)

lemma sdiv_nonneg: "0 \<le> a \<Longrightarrow> 0 < b \<Longrightarrow> a sdiv b = a div (b :: int)"
  and smod_nonneg: "0 \<le> a \<Longrightarrow> 0 < b \<Longrightarrow> a smod b = a mod (b :: int)"
  by (simp_all add: signed_divide_int_def signed_modulo_int_def sgn_if zmod_zmult2_eq minus_mult_div_eq_mod
      minus_div_mult_eq_mod)

lemma writeChar_wrote [buf_simps]:
  "length bs < n \<Longrightarrow> writeChar c (wrote n bs) = Some (wrote n (bs @ [c]))"
  by (simp add: writeChar_def buf_simps)

lemma writeInt_wrote [buf_simps]:
  "0 \<le> i \<Longrightarrow> length bs + 2 \<le> n \<Longrightarrow> writeInt i (wrote n bs) = Some (wrote n (bs @ be16 i))"
  by (simp add: writeInt_def buf_simps sdiv_nonneg smod_nonneg be16_def)

lemma writeInt4_wrote [buf_simps]:
  assumes "0 \<le> i" "length bs + 4 \<le> n"
  shows "writeInt4 i (wrote n bs) = Some (wrote n (bs @ be32 i))"
proof -
  have "i mod 16777216 div 65536 = i div 65536 mod 256"
    using zmod_zmult2_eq [of 256 i 65536] by simp
  moreover have "i mod 65536 div 256 = i div 256 mod 256"
    using zmod_zmult2_eq [of 256 i 256] by simp
  moreover have "i mod 16777216 mod 65536 = i mod 65536" "i mod 65536 mod 256 = i mod 256"
    by (simp_all add: mod_mod_cancel)
  ultimately have parts: "i sdiv 16777216 = i div 16777216" "i smod 16777216 sdiv 65536 = i div 65536 mod 256"
    "i smod 16777216 smod 65536 sdiv 256 = i div 256 mod 256" "i smod 16777216 smod 65536 smod 256 = i mod 256"
    using assms(1) by (simp_all only: sdiv_nonneg smod_nonneg pos_mod_sign zero_less_numeral)
  show ?thesis
    unfolding writeInt4_def Let_def parts be32_def using assms(2) by (simp add: put_bytes_wrote)
qed

lemma writeUTF_wrote [buf_simps]:
  "length bs + 2 + strlen s \<le> n \<Longrightarrow>
   writeUTF s (wrote n bs) = Some (wrote n (bs @ be16 (int (strlen s)) @ take (strlen s) s))"
  by (simp add: writeUTF_def Let_def buf_simps strlen_def length_takeWhile_le min_def)

lemma writeData_wrote [buf_simps]:
  "0 \<le> len \<Longrightarrow> nat len \<le> length data \<Longrightarrow> length bs + 2 + nat len \<le> n \<Longrightarrow>
   writeData data len (wrote n bs) = Some (wrote n (bs @ be16 len @ take (nat len) data))"
  by (simp add: writeData_def buf_simps)

lemma writeMQTTLenString_wrote [buf_simps]:
  "0 \<le> ls_len s \<Longrightarrow> nat (ls_len s) \<le> length (ls_data s) \<Longrightarrow> length bs + 2 + nat (ls_len s) \<le> n \<Longrightarrow>
   writeMQTTLenString s (wrote n bs) =
     Some (wrote n (bs @ be16 (ls_len s) @ take (nat (ls_len s)) (ls_data s)))"
  by (simp add: writeMQTTLenString_def buf_simps)

subsection \<open>The variable byte integer\<close>

text \<open>The encoding of the standard: 7 bits a byte, low digits first, the top bit says that more follow.\<close>

function vbi :: "nat \<Rightarrow> byte list" where
  "vbi n = (if n < 128 then [word_of_nat n] else (word_of_nat (n mod 128) OR 0x80) # vbi (n div 128))"
  by pat_completeness auto

termination
  by (relation "measure id") auto

declare vbi.simps [simp del]

lemma vbi_not_Nil [simp]: "vbi n \<noteq> []"
  by (subst vbi.simps) simp

lemma length_vbi:
  assumes "n < 268435456"
  shows "length (vbi n) = nat (MQTTPacket_VBIlen (int n))"
proof -
  have a: "length (vbi n) = 1" if "n < 128" for n
    using that by (simp add: vbi.simps)
  have b: "length (vbi n) = 2" if "128 \<le> n" "n < 16384" for n
    using that by (simp add: vbi.simps [of n] a)
  have c: "length (vbi n) = 3" if "16384 \<le> n" "n < 2097152" for n
    using that by (simp add: vbi.simps [of n] b)
  have d: "length (vbi n) = 4" if "2097152 \<le> n" "n < 268435456" for n
    using that by (simp add: vbi.simps [of n] c)
  show ?thesis
    using a [of n] b [of n] c [of n] d [of n] assms by (auto simp: MQTTPacket_VBIlen_def)
qed

lemma length_vbi_le: "n < 268435456 \<Longrightarrow> length (vbi n) \<le> 4"
  using length_vbi [of n] by (simp add: MQTTPacket_VBIlen_def)

lemma encode_loop_counts: "MQTTPacket_encode_loop None rc n = Some (rc + length (vbi n), None)"
proof (induction n arbitrary: rc rule: vbi.induct)
  case (1 n)
  then show ?case
    by (cases "n < 128") (simp_all add: MQTTPacket_encode_loop.simps [of None rc n] vbi.simps [of n] Let_def)
qed

definition at_pos :: "nat \<Rightarrow> nat \<Rightarrow> byte list \<Rightarrow> wbuf" where
  "at_pos n p xs = \<lparr>w_mem = map Some xs @ replicate (n - length xs) None, w_pos = p\<rparr>"

lemma at_pos_simps [simp]:
  "w_pos (at_pos n p xs) = p"
  "(at_pos n p xs)\<lparr>w_mem := w_mem (at_pos n p ys)\<rparr> = at_pos n p ys"
  "(at_pos n p xs)\<lparr>w_pos := length xs\<rparr> = wrote n xs"
  by (simp_all add: at_pos_def wrote_def)

lemma at_pos_store:
  "p + rc = length xs \<Longrightarrow> length xs < n \<Longrightarrow>
   store_bytes (w_mem (at_pos n p xs)) (p + rc) [d] = Some (w_mem (at_pos n p (xs @ [d])))"
  by (auto simp: store_bytes_def at_pos_def)

lemma encode_loop_writes:
  assumes "p + rc = length xs" "length xs + length (vbi len) \<le> n"
  shows "MQTTPacket_encode_loop (Some (at_pos n p xs)) rc len =
     Some (rc + length (vbi len), Some (at_pos n p (xs @ vbi len)))"
  using assms
proof (induction len arbitrary: xs rc rule: vbi.induct)
  case (1 len)
  have n: "length xs < n" using "1.prems"(2) by (cases "vbi len") auto
  note st = at_pos_store [OF "1.prems"(1) n]
  show ?case
  proof (cases "len < 128")
    case True
    then show ?thesis
      by (simp add: MQTTPacket_encode_loop.simps [of _ rc len] vbi.simps [of len] Let_def st)
  next
    case False
    let ?d = "word_of_nat (len mod 128) OR 0x80 :: byte"
    have "MQTTPacket_encode_loop (Some (at_pos n p (xs @ [?d]))) (Suc rc) (len div 128) =
       Some (Suc rc + length (vbi (len div 128)), Some (at_pos n p ((xs @ [?d]) @ vbi (len div 128))))"
      using "1.prems" False by (intro "1.IH") (simp_all add: vbi.simps [of len])
    with False show ?thesis
      by (simp add: MQTTPacket_encode_loop.simps [of _ rc len] vbi.simps [of len] Let_def st)
  qed
qed

lemma encode_counts [buf_simps]: "MQTTPacket_encode None n = Some (length (vbi n), None)"
  by (simp add: MQTTPacket_encode_def encode_loop_counts)

lemma write_vbi_wrote [buf_simps]:
  assumes "length bs + length (vbi len) \<le> n"
  shows "write_vbi len (wrote n bs) = Some (wrote n (bs @ vbi len))"
proof -
  have same: "wrote n bs = at_pos n (length bs) bs" for bs by (simp add: wrote_def at_pos_def)
  have "MQTTPacket_encode (Some (wrote n bs)) len = Some (length (vbi len), Some (at_pos n (length bs) (bs @ vbi len)))"
    using encode_loop_writes [of "length bs" 0 bs len n] assms by (simp add: MQTTPacket_encode_def same)
  then show ?thesis by (simp add: write_vbi_def) (simp add: wrote_def at_pos_def)
qed

subsection \<open>Reading back\<close>

lemma be16_value: "0 \<le> i \<Longrightarrow> i < 65536 \<Longrightarrow>
  256 * uint (word_of_int (i div 256) :: byte) + uint (word_of_int (i mod 256) :: byte) = i"
  by (simp add: uint_word_of_int)

lemma nth_opt_append [simp]:
  "nth_opt (xs @ ys) (length xs + k) = nth_opt ys k" "nth_opt (xs @ ys) (length xs) = nth_opt ys 0"
  "nth_opt (x # xs) 0 = Some x" "nth_opt (x # xs) (Suc k) = nth_opt xs k"
  by (simp_all add: nth_opt_def nth_append)

lemma readInt_be16:
  assumes "0 \<le> i" "i < 65536"
  shows "readInt (xs @ be16 i @ ys) (length xs) = Some (i, length xs + 2)"
proof -
  have "nth_opt (xs @ be16 i @ ys) (length xs + 1) = Some (word_of_int (i mod 256))"
    using nth_opt_append(1) [of xs "be16 i @ ys" 1] by (simp add: be16_def nth_opt_def)
  moreover have "nth_opt (xs @ be16 i @ ys) (length xs) = Some (word_of_int (i div 256))"
    by (simp add: be16_def nth_opt_def nth_append)
  ultimately show ?thesis
    using be16_value [OF assms] by (simp add: readInt_def)
qed

lemma readUTFlen_string:
  assumes "length s < 65536"
  shows "readUTFlen (xs @ be16 (int (length s)) @ s @ ys) (length xs) len0 [] =
    Some (Some s, int (length s), length xs + 2 + length s, [])"
  using assms readInt_be16 [of "int (length s)" xs "s @ ys"]
  by (simp add: readUTFlen_def)

lemma readInt_range: "readInt data pos = Some (i, pos') \<Longrightarrow> 0 \<le> i \<and> i < 65536 \<and> pos' = pos + 2"
proof -
  assume "readInt data pos = Some (i, pos')"
  then obtain a b :: byte where "i = 256 * uint a + uint b" "pos' = pos + 2"
    by (auto simp: readInt_def split: Option.bind_splits)
  moreover have "uint a < 256" "uint b < 256" "0 \<le> uint a" "0 \<le> uint b"
    using uint_lt2p [of a] uint_lt2p [of b] by simp_all
  ultimately show ?thesis by linarith
qed

lemma readInt_defined: "pos + 2 \<le> length data \<Longrightarrow> \<exists>i. readInt data pos = Some (i, pos + 2)"
  by (simp add: readInt_def nth_opt_def)

text \<open>\<open>readUTFlen\<close> never reads outside the data, whatever the length field says.\<close>

lemma readUTFlen_safe: "\<exists>s len' pos' ms'. readUTFlen data pos len ms = Some (s, len', pos', ms') \<and>
   (pos \<le> length data \<longrightarrow> pos \<le> pos' \<and> pos' \<le> length data)"
proof (cases "length data - pos > 1")
  case True
  then have "pos + 2 \<le> length data" by simp
  then obtain i where i: "readInt data pos = Some (i, pos + 2)" using readInt_defined by blast
  with True show ?thesis by (auto simp: readUTFlen_def split: prod.split)
qed (simp add: readUTFlen_def)

subsection \<open>The header byte\<close>

lemma byte_eqI:
  assumes "\<And>n. n \<in> {0, 1, 2, 3, 4, 5, 6, 7 :: nat} \<Longrightarrow> bit a n = bit (b :: byte) n"
  shows "a = b"
proof (rule bit_word_eqI)
  fix n assume "n < LENGTH(8)"
  then have "n \<in> {0, 1, 2, 3, 4, 5, 6, 7}" by auto
  with assms show "bit a n = bit b n" .
qed

lemma low_bits:
  "uint (word_of_int q AND 1 :: byte) = q mod 2" "uint (word_of_int q AND 3 :: byte) = q mod 4"
  "uint (word_of_int q AND 15 :: byte) = q mod 16"
proof -
  have low: "uint (word_of_int q :: byte) AND mask k = q mod 2 ^ k" if "k \<le> 8" for k
    using that by (simp add: unsigned_of_int flip: take_bit_eq_mask take_bit_eq_mod)
  from low [of 1] low [of 2] low [of 4]
  show "uint (word_of_int q AND 1 :: byte) = q mod 2" "uint (word_of_int q AND 3 :: byte) = q mod 4"
    "uint (word_of_int q AND 15 :: byte) = q mod 16"
    by (simp_all add: unsigned_and_eq mask_eq_exp_minus_1)
qed

lemma beyond_byte [simp]: "\<not> bit (h :: byte) 8" "\<not> bit (h :: byte) 9" "\<not> bit (h :: byte) 10" "\<not> bit (h :: byte) 11"
  by (auto dest: bit_imp_le_length)

lemma header_fields:
  "drop_bit 4 (set_type t h) = word_of_int t AND 15" "drop_bit 1 (set_type t h) AND 3 = drop_bit 1 h AND 3"
  "drop_bit 3 (set_type t h) AND 1 = drop_bit 3 h AND 1" "set_type t h AND 1 = h AND 1"
  "drop_bit 4 (set_qos q h) = drop_bit 4 h" "drop_bit 1 (set_qos q h) AND 3 = word_of_int q AND 3"
  "drop_bit 3 (set_qos q h) AND 1 = drop_bit 3 h AND 1" "set_qos q h AND 1 = h AND 1"
  "drop_bit 4 (set_dup d h) = drop_bit 4 h" "drop_bit 1 (set_dup d h) AND 3 = drop_bit 1 h AND 3"
  "drop_bit 3 (set_dup d h) AND 1 = word_of_int d AND 1" "set_dup d h AND 1 = h AND 1"
  "drop_bit 4 (set_retain r h) = drop_bit 4 h" "drop_bit 1 (set_retain r h) AND 3 = drop_bit 1 h AND 3"
  "drop_bit 3 (set_retain r h) AND 1 = drop_bit 3 h AND 1" "set_retain r h AND 1 = word_of_int r AND 1"
  unfolding set_type_def set_qos_def set_dup_def set_retain_def
  by (rule byte_eqI; unfold bit_or_iff bit_and_iff bit_push_bit_iff bit_drop_bit_eq comp_def; auto)+

end
