(* ===== verification/Properties.thy ===== *)
theory Properties
  imports Wire
begin

text \<open>
  \<^verbatim>\<open>src/src/MQTTProperties.c\<close>: the MQTT 5 property lists.  The definitions follow the code (table of
  property types, appending to a growing array, writing to the wire, copying); the theorems show
  that a list built by \<open>MQTTProperties_add\<close> always knows its own encoded length, so that the buffer
  the packet builders allocate with \<open>MQTTProperties_len\<close> is filled exactly.
\<close>

section \<open>Data\<close>

datatype MQTTPropertyTypes =
    TYPE_BYTE | TYPE_TWO_BYTE_INTEGER | TYPE_FOUR_BYTE_INTEGER | TYPE_VARIABLE_BYTE_INTEGER
  | TYPE_BINARY_DATA | TYPE_UTF_8_ENCODED_STRING | TYPE_UTF_8_STRING_PAIR

text \<open>\<open>enum MQTTPropertyCodes\<close> with its values.\<close>

datatype MQTTPropertyCodes =
    PAYLOAD_FORMAT_INDICATOR | MESSAGE_EXPIRY_INTERVAL | CONTENT_TYPE | RESPONSE_TOPIC
  | CORRELATION_DATA | SUBSCRIPTION_IDENTIFIER | SESSION_EXPIRY_INTERVAL
  | ASSIGNED_CLIENT_IDENTIFER | SERVER_KEEP_ALIVE | AUTHENTICATION_METHOD | AUTHENTICATION_DATA
  | REQUEST_PROBLEM_INFORMATION | WILL_DELAY_INTERVAL | REQUEST_RESPONSE_INFORMATION
  | RESPONSE_INFORMATION | SERVER_REFERENCE | REASON_STRING | RECEIVE_MAXIMUM
  | TOPIC_ALIAS_MAXIMUM | TOPIC_ALIAS | MAXIMUM_QOS | RETAIN_AVAILABLE | USER_PROPERTY
  | MAXIMUM_PACKET_SIZE | WILDCARD_SUBSCRIPTION_AVAILABLE | SUBSCRIPTION_IDENTIFIERS_AVAILABLE
  | SHARED_SUBSCRIPTION_AVAILABLE

fun property_code :: "MQTTPropertyCodes \<Rightarrow> int" where
  "property_code PAYLOAD_FORMAT_INDICATOR = 1"
| "property_code MESSAGE_EXPIRY_INTERVAL = 2"
| "property_code CONTENT_TYPE = 3"
| "property_code RESPONSE_TOPIC = 8"
| "property_code CORRELATION_DATA = 9"
| "property_code SUBSCRIPTION_IDENTIFIER = 11"
| "property_code SESSION_EXPIRY_INTERVAL = 17"
| "property_code ASSIGNED_CLIENT_IDENTIFER = 18"
| "property_code SERVER_KEEP_ALIVE = 19"
| "property_code AUTHENTICATION_METHOD = 21"
| "property_code AUTHENTICATION_DATA = 22"
| "property_code REQUEST_PROBLEM_INFORMATION = 23"
| "property_code WILL_DELAY_INTERVAL = 24"
| "property_code REQUEST_RESPONSE_INFORMATION = 25"
| "property_code RESPONSE_INFORMATION = 26"
| "property_code SERVER_REFERENCE = 28"
| "property_code REASON_STRING = 31"
| "property_code RECEIVE_MAXIMUM = 33"
| "property_code TOPIC_ALIAS_MAXIMUM = 34"
| "property_code TOPIC_ALIAS = 35"
| "property_code MAXIMUM_QOS = 36"
| "property_code RETAIN_AVAILABLE = 37"
| "property_code USER_PROPERTY = 38"
| "property_code MAXIMUM_PACKET_SIZE = 39"
| "property_code WILDCARD_SUBSCRIPTION_AVAILABLE = 40"
| "property_code SUBSCRIPTION_IDENTIFIERS_AVAILABLE = 41"
| "property_code SHARED_SUBSCRIPTION_AVAILABLE = 42"

definition namesToTypes :: "(MQTTPropertyCodes \<times> MQTTPropertyTypes) list" where
  "namesToTypes =
    [(PAYLOAD_FORMAT_INDICATOR, TYPE_BYTE),
     (MESSAGE_EXPIRY_INTERVAL, TYPE_FOUR_BYTE_INTEGER),
     (CONTENT_TYPE, TYPE_UTF_8_ENCODED_STRING),
     (RESPONSE_TOPIC, TYPE_UTF_8_ENCODED_STRING),
     (CORRELATION_DATA, TYPE_BINARY_DATA),
     (SUBSCRIPTION_IDENTIFIER, TYPE_VARIABLE_BYTE_INTEGER),
     (SESSION_EXPIRY_INTERVAL, TYPE_FOUR_BYTE_INTEGER),
     (ASSIGNED_CLIENT_IDENTIFER, TYPE_UTF_8_ENCODED_STRING),
     (SERVER_KEEP_ALIVE, TYPE_TWO_BYTE_INTEGER),
     (AUTHENTICATION_METHOD, TYPE_UTF_8_ENCODED_STRING),
     (AUTHENTICATION_DATA, TYPE_BINARY_DATA),
     (REQUEST_PROBLEM_INFORMATION, TYPE_BYTE),
     (WILL_DELAY_INTERVAL, TYPE_FOUR_BYTE_INTEGER),
     (REQUEST_RESPONSE_INFORMATION, TYPE_BYTE),
     (RESPONSE_INFORMATION, TYPE_UTF_8_ENCODED_STRING),
     (SERVER_REFERENCE, TYPE_UTF_8_ENCODED_STRING),
     (REASON_STRING, TYPE_UTF_8_ENCODED_STRING),
     (RECEIVE_MAXIMUM, TYPE_TWO_BYTE_INTEGER),
     (TOPIC_ALIAS_MAXIMUM, TYPE_TWO_BYTE_INTEGER),
     (TOPIC_ALIAS, TYPE_TWO_BYTE_INTEGER),
     (MAXIMUM_QOS, TYPE_BYTE),
     (RETAIN_AVAILABLE, TYPE_BYTE),
     (USER_PROPERTY, TYPE_UTF_8_STRING_PAIR),
     (MAXIMUM_PACKET_SIZE, TYPE_FOUR_BYTE_INTEGER),
     (WILDCARD_SUBSCRIPTION_AVAILABLE, TYPE_BYTE),
     (SUBSCRIPTION_IDENTIFIERS_AVAILABLE, TYPE_BYTE),
     (SHARED_SUBSCRIPTION_AVAILABLE, TYPE_BYTE)]"

text \<open>The union of the values.  Reading another member than the one that was stored has no
  result.  The identifier is an enum, which a C program can set to any number.\<close>

datatype prop_value =
    VByte byte
  | VInteger2 "16 word"
  | VInteger4 "32 word"
  | VStrings MQTTLenString MQTTLenString

record MQTTProperty =
  prop_id :: int
  prop_val :: prop_value

text \<open>\<open>array\<close> is null or holds the entries stored so far, in room for \<open>max_count\<close> of them.\<close>

record MQTTProperties =
  pr_count :: nat
  pr_max_count :: nat
  pr_length :: int
  pr_array :: "MQTTProperty list option"

definition MQTTProperties_initializer :: MQTTProperties where
  "MQTTProperties_initializer = \<lparr>pr_count = 0, pr_max_count = 0, pr_length = 0, pr_array = None\<rparr>"

definition MQTT_INVALID_PROPERTY_ID :: int where [codes]: "MQTT_INVALID_PROPERTY_ID = -2"

section \<open>The operations\<close>

text \<open>The type of a property, \<open>None\<close> for the code's -1.\<close>

definition MQTTProperty_getType :: "int \<Rightarrow> MQTTPropertyTypes option" where
  "MQTTProperty_getType v = map_option snd (find (\<lambda>(name, _). property_code name = v) namesToTypes)"

definition MQTTProperties_len :: "MQTTProperties option \<Rightarrow> int" where
  "MQTTProperties_len props =
     (case props of None \<Rightarrow> 1 | Some p \<Rightarrow> pr_length p + MQTTPacket_VBIlen (pr_length p))"

text \<open>\<open>datadup\<close>: a copy of the string's data, null (no bytes) when there is no memory.\<close>

definition datadup :: "mallocs \<Rightarrow> MQTTLenString \<Rightarrow> (byte list \<times> mallocs) option" where
  "datadup ms s =
     (let (ok, ms) = next_malloc ms in
      if \<not> ok then Some ([], ms)
      else if ls_len s < 0 \<or> nat (ls_len s) > length (ls_data s) then None
      else Some (take (nat (ls_len s)) (ls_data s), ms))"

text \<open>The switch of \<open>MQTTProperties_add\<close>: the length of the value and the entry with its strings
  copied.\<close>

definition add_value ::
  "MQTTPropertyTypes \<Rightarrow> MQTTProperty \<Rightarrow> mallocs \<Rightarrow> (int \<times> MQTTProperty \<times> mallocs) option" where
  "add_value type prop ms =
     (case type of
        TYPE_BYTE \<Rightarrow> Some (1, prop, ms)
      | TYPE_TWO_BYTE_INTEGER \<Rightarrow> Some (2, prop, ms)
      | TYPE_FOUR_BYTE_INTEGER \<Rightarrow> Some (4, prop, ms)
      | TYPE_VARIABLE_BYTE_INTEGER \<Rightarrow>
          (case prop_val prop of
             VInteger4 v \<Rightarrow> Some (MQTTPacket_VBIlen (sint v), prop, ms)
           | _ \<Rightarrow> None)
      | _ \<Rightarrow>
          (case prop_val prop of
             VStrings d v \<Rightarrow> do {
               (dd, ms) \<leftarrow> datadup ms d;
               if type = TYPE_UTF_8_STRING_PAIR then do {
                 (vd, ms) \<leftarrow> datadup ms v;
                 Some (2 + ls_len d + (2 + ls_len v),
                       prop\<lparr>prop_val := VStrings (d\<lparr>ls_data := dd\<rparr>) (v\<lparr>ls_data := vd\<rparr>)\<rparr>, ms)
               }
               else Some (2 + ls_len d, prop\<lparr>prop_val := VStrings (d\<lparr>ls_data := dd\<rparr>) v\<rparr>, ms)
             }
           | _ \<Rightarrow> None))"

text \<open>The array after making room: a null array is allocated with room for ten entries, a full one
  grows by ten.\<close>

definition grow_array :: "MQTTProperties \<Rightarrow> mallocs \<Rightarrow> MQTTProperties \<times> mallocs" where
  "grow_array props ms =
     (case pr_array props of
        None \<Rightarrow>
          let (ok, ms) = next_malloc ms
          in (props\<lparr>pr_max_count := 10, pr_array := (if ok then Some [] else None)\<rparr>, ms)
      | Some a \<Rightarrow>
          if pr_count props = pr_max_count props then
            let (ok, ms) = next_malloc ms
            in (props\<lparr>pr_max_count := pr_max_count props + 10, pr_array := (if ok then Some a else None)\<rparr>, ms)
          else (props, ms))"

definition MQTTProperties_add ::
  "MQTTProperties \<Rightarrow> MQTTProperty \<Rightarrow> mallocs \<Rightarrow> (int \<times> MQTTProperties \<times> mallocs) option" where
  "MQTTProperties_add props prop ms =
     (case MQTTProperty_getType (prop_id prop) of
        None \<Rightarrow> Some (MQTT_INVALID_PROPERTY_ID, props, ms)
      | Some type \<Rightarrow>
          let (props, ms) = grow_array props ms in
          case pr_array props of
            None \<Rightarrow> Some (PAHO_MEMORY_ERROR, props, ms)
          | Some a \<Rightarrow>
              if pr_count props \<noteq> length a \<or> pr_count props \<ge> pr_max_count props then None
              else do {
                (len, prop, ms) \<leftarrow> add_value type prop ms;
                Some (0, props\<lparr>pr_array := Some (a @ [prop]), pr_count := pr_count props + 1,
                               pr_length := pr_length props + (len + 1)\<rparr>, ms)
              })"

text \<open>The result counts the identifier byte; for an unknown identifier it is 0 and nothing is
  written.\<close>

definition MQTTProperty_write :: "MQTTProperty \<Rightarrow> wbuf \<Rightarrow> (int \<times> wbuf) option" where
  "MQTTProperty_write prop w =
     (case MQTTProperty_getType (prop_id prop) of
        None \<Rightarrow> Some (-1 + 1, w)
      | Some type \<Rightarrow> do {
          w \<leftarrow> writeChar (word_of_int (prop_id prop)) w;
          (case (type, prop_val prop) of
             (TYPE_BYTE, VByte b) \<Rightarrow> do { w \<leftarrow> writeChar b w; Some (1 + 1, w) }
           | (TYPE_TWO_BYTE_INTEGER, VInteger2 i) \<Rightarrow> do { w \<leftarrow> writeInt (uint i) w; Some (2 + 1, w) }
           | (TYPE_FOUR_BYTE_INTEGER, VInteger4 i) \<Rightarrow> do { w \<leftarrow> writeInt4 (sint i) w; Some (4 + 1, w) }
           | (TYPE_VARIABLE_BYTE_INTEGER, VInteger4 i) \<Rightarrow> do {
               w' \<leftarrow> write_vbi (unat i) w;
               Some (int (w_pos w') - int (w_pos w) + 1, w')
             }
           | (TYPE_BINARY_DATA, VStrings d v) \<Rightarrow> do {
               w \<leftarrow> writeMQTTLenString d w; Some (ls_len d + 2 + 1, w) }
           | (TYPE_UTF_8_ENCODED_STRING, VStrings d v) \<Rightarrow> do {
               w \<leftarrow> writeMQTTLenString d w; Some (ls_len d + 2 + 1, w) }
           | (TYPE_UTF_8_STRING_PAIR, VStrings d v) \<Rightarrow> do {
               w \<leftarrow> writeMQTTLenString d w;
               w \<leftarrow> writeMQTTLenString v w;
               Some (ls_len d + ls_len v + 4 + 1, w)
             }
           | _ \<Rightarrow> None)
        })"

text \<open>The loop of \<open>MQTTProperties_write\<close> over the entries that are left: \<open>len\<close> so far.\<close>

fun write_entries :: "MQTTProperty list \<Rightarrow> int \<Rightarrow> wbuf \<Rightarrow> (int \<times> wbuf) option" where
  "write_entries [] len w = Some (len, w)"
| "write_entries (p # ps) len w = do {
     (rc, w) \<leftarrow> MQTTProperty_write p w;
     if rc < 0 then Some (rc, w) else write_entries ps (len + rc) w
   }"

definition MQTTProperties_write :: "MQTTProperties option \<Rightarrow> wbuf \<Rightarrow> (int \<times> wbuf) option" where
  "MQTTProperties_write properties w =
     (case properties of
        None \<Rightarrow> do { w \<leftarrow> write_vbi 0 w; Some (1, w) }
      | Some ps \<Rightarrow>
          if pr_length ps < 0 then None
          else do {
          w \<leftarrow> write_vbi (nat (pr_length ps)) w;
          (case pr_array ps of
             None \<Rightarrow> if pr_count ps = 0 then Some (1, w) else None
           | Some a \<Rightarrow> if pr_count ps > length a then None
                      else write_entries (take (pr_count ps) a) 1 w)
        })"

text \<open>\<open>MQTTProperties_copy\<close> logs an entry it cannot add and goes on.\<close>

fun copy_entries ::
  "MQTTProperty list \<Rightarrow> MQTTProperties \<Rightarrow> mallocs \<Rightarrow> (MQTTProperties \<times> mallocs) option" where
  "copy_entries [] result ms = Some (result, ms)"
| "copy_entries (p # ps) result ms = do {
     (rc, result, ms) \<leftarrow> MQTTProperties_add result p ms;
     copy_entries ps result ms
   }"

definition MQTTProperties_copy :: "MQTTProperties \<Rightarrow> mallocs \<Rightarrow> (MQTTProperties \<times> mallocs) option" where
  "MQTTProperties_copy props ms =
     (case pr_array props of
        None \<Rightarrow> if pr_count props = 0 then Some (MQTTProperties_initializer, ms) else None
      | Some a \<Rightarrow> if pr_count props > length a then None
                 else copy_entries (take (pr_count props) a) MQTTProperties_initializer ms)"

section \<open>The encoding\<close>

definition lenstring_ok :: "MQTTLenString \<Rightarrow> bool" where
  "lenstring_ok s \<longleftrightarrow> 0 \<le> ls_len s \<and> ls_len s < 65536 \<and> nat (ls_len s) \<le> length (ls_data s)"

definition lenstring_bytes :: "MQTTLenString \<Rightarrow> byte list" where
  "lenstring_bytes s = be16 (ls_len s) @ take (nat (ls_len s)) (ls_data s)"

text \<open>The bytes the standard prescribes for a value, and the values the code can send.\<close>

fun value_bytes :: "MQTTPropertyTypes \<Rightarrow> prop_value \<Rightarrow> byte list" where
  "value_bytes TYPE_BYTE (VByte b) = [b]"
| "value_bytes TYPE_TWO_BYTE_INTEGER (VInteger2 i) = be16 (uint i)"
| "value_bytes TYPE_FOUR_BYTE_INTEGER (VInteger4 i) = be32 (uint i)"
| "value_bytes TYPE_VARIABLE_BYTE_INTEGER (VInteger4 i) = vbi (unat i)"
| "value_bytes TYPE_BINARY_DATA (VStrings d v) = lenstring_bytes d"
| "value_bytes TYPE_UTF_8_ENCODED_STRING (VStrings d v) = lenstring_bytes d"
| "value_bytes TYPE_UTF_8_STRING_PAIR (VStrings d v) = lenstring_bytes d @ lenstring_bytes v"
| "value_bytes _ _ = []"

fun value_ok :: "MQTTPropertyTypes \<Rightarrow> prop_value \<Rightarrow> bool" where
  "value_ok TYPE_BYTE (VByte b) = True"
| "value_ok TYPE_TWO_BYTE_INTEGER (VInteger2 i) = True"
| "value_ok TYPE_FOUR_BYTE_INTEGER (VInteger4 i) = (uint i < 2147483648)"
| "value_ok TYPE_VARIABLE_BYTE_INTEGER (VInteger4 i) = (unat i < 268435456)"
| "value_ok TYPE_BINARY_DATA (VStrings d v) = lenstring_ok d"
| "value_ok TYPE_UTF_8_ENCODED_STRING (VStrings d v) = lenstring_ok d"
| "value_ok TYPE_UTF_8_STRING_PAIR (VStrings d v) = (lenstring_ok d \<and> lenstring_ok v)"
| "value_ok _ _ = False"

definition prop_bytes :: "MQTTProperty \<Rightarrow> byte list" where
  "prop_bytes p = (case MQTTProperty_getType (prop_id p) of None \<Rightarrow> []
     | Some type \<Rightarrow> word_of_int (prop_id p) # value_bytes type (prop_val p))"

definition sendable :: "MQTTProperty \<Rightarrow> bool" where
  "sendable p = (case MQTTProperty_getType (prop_id p) of None \<Rightarrow> False
     | Some type \<Rightarrow> value_ok type (prop_val p))"

lemma sendable_type: "sendable p \<Longrightarrow> \<exists>type. MQTTProperty_getType (prop_id p) = Some type \<and> value_ok type (prop_val p)"
  by (auto simp: sendable_def split: option.splits)

lemma sint_small:
  assumes "uint (i :: 32 word) < 2147483648"
  shows "sint i = uint i"
proof -
  have "- 2147483648 \<le> uint i" using uint_ge_0 [of i] by linarith
  with assms show ?thesis by (simp add: sint_uint signed_take_bit_int_eq_self_iff)
qed

lemma sint_small_nat:
  assumes "unat (i :: 32 word) < 2147483648"
  shows "sint i = uint i"
proof (rule sint_small)
  have "uint i = int (unat i)" by simp
  with assms show "uint i < 2147483648" by linarith
qed

lemma lenstring_written [buf_simps]:
  "lenstring_ok s \<Longrightarrow> length bs + length (lenstring_bytes s) \<le> n \<Longrightarrow>
   writeMQTTLenString s (wrote n bs) = Some (wrote n (bs @ lenstring_bytes s))"
  by (simp add: writeMQTTLenString_wrote lenstring_ok_def lenstring_bytes_def)

lemma length_lenstring [simp]: "lenstring_ok s \<Longrightarrow> length (lenstring_bytes s) = nat (ls_len s) + 2"
  by (simp add: lenstring_ok_def lenstring_bytes_def)

lemma lenstring_nonneg: "lenstring_ok s \<Longrightarrow> 0 \<le> ls_len s"
  by (simp add: lenstring_ok_def)

lemma property_written:
  assumes s: "sendable p" and room: "length bs + length (prop_bytes p) \<le> n"
  shows "MQTTProperty_write p (wrote n bs) = Some (int (length (prop_bytes p)), wrote n (bs @ prop_bytes p))"
proof -
  obtain type where t: "MQTTProperty_getType (prop_id p) = Some type" "value_ok type (prop_val p)"
    using sendable_type [OF s] by blast
  have pb: "prop_bytes p = word_of_int (prop_id p) # value_bytes type (prop_val p)"
    using t(1) by (simp add: prop_bytes_def)
  have pos: "w_pos (wrote n xs) = length xs" for xs
    by (simp add: wrote_def)
  show ?thesis
    using t room unfolding pb
    by (cases type; cases "prop_val p")
      (auto simp: MQTTProperty_write_def buf_simps sint_small pos lenstring_nonneg)
qed

lemma entries_written:
  assumes "\<forall>p\<in>set ps. sendable p" "length bs + length (concat (map prop_bytes ps)) \<le> n"
  shows "write_entries ps len (wrote n bs) =
    Some (len + int (length (concat (map prop_bytes ps))), wrote n (bs @ concat (map prop_bytes ps)))"
  using assms
proof (induction ps arbitrary: bs len)
  case (Cons p ps)
  have "MQTTProperty_write p (wrote n bs) = Some (int (length (prop_bytes p)), wrote n (bs @ prop_bytes p))"
    using Cons.prems by (intro property_written) auto
  with Cons.IH [of "bs @ prop_bytes p" "len + int (length (prop_bytes p))"] Cons.prems show ?case
    by (simp add: add.assoc)
qed simp

section \<open>Lists built by MQTTProperties_add\<close>

definition entries :: "MQTTProperties \<Rightarrow> MQTTProperty list" where
  "entries props = (case pr_array props of None \<Rightarrow> [] | Some a \<Rightarrow> a)"

definition props_body :: "MQTTProperties \<Rightarrow> byte list" where
  "props_body props = concat (map prop_bytes (entries props))"

definition props_ok :: "MQTTProperties \<Rightarrow> bool" where
  "props_ok props \<longleftrightarrow> pr_count props = length (entries props) \<and>
     (pr_array props \<noteq> None \<longrightarrow> pr_count props \<le> pr_max_count props) \<and>
     pr_length props = int (length (props_body props)) \<and> (\<forall>p\<in>set (entries props). sendable p)"

lemma props_ok_initializer: "props_ok MQTTProperties_initializer" "entries MQTTProperties_initializer = []"
  by (simp_all add: props_ok_def MQTTProperties_initializer_def entries_def props_body_def)

lemma datadup_ok:
  "lenstring_ok s \<Longrightarrow> datadup [] s = Some (take (nat (ls_len s)) (ls_data s), [])"
  by (simp add: datadup_def lenstring_ok_def)

lemma lenstring_copied:
  assumes "lenstring_ok s"
  shows "lenstring_ok (s\<lparr>ls_data := take (nat (ls_len s)) (ls_data s)\<rparr>)"
    "lenstring_bytes (s\<lparr>ls_data := take (nat (ls_len s)) (ls_data s)\<rparr>) = lenstring_bytes s"
  using assms by (simp_all add: lenstring_ok_def lenstring_bytes_def)

lemma VBIlen_pos: "0 < MQTTPacket_VBIlen n"
  by (simp add: MQTTPacket_VBIlen_def)

text \<open>An appended entry has the bytes of the original, though its strings are fresh copies.\<close>

lemma value_added:
  assumes "value_ok type (prop_val p)"
  shows "\<exists>p'. add_value type p [] = Some (int (length (value_bytes type (prop_val p))), p', []) \<and>
    prop_id p' = prop_id p \<and> value_ok type (prop_val p') \<and>
    value_bytes type (prop_val p') = value_bytes type (prop_val p)"
  using assms
  by (cases type; cases "prop_val p")
    (auto simp: add_value_def datadup_ok lenstring_copied sint_small_nat length_vbi lenstring_nonneg
      less_imp_le [OF VBIlen_pos])

lemma array_grown:
  assumes "props_ok props"
  shows "\<exists>props'. grow_array props [] = (props', []) \<and> pr_array props' = Some (entries props) \<and>
    pr_count props' = length (entries props) \<and> pr_count props' < pr_max_count props' \<and>
    pr_length props' = pr_length props"
  using assms by (auto simp: grow_array_def props_ok_def entries_def split: option.splits)

lemma property_added:
  assumes ok: "props_ok props" and p: "sendable p"
  shows "\<exists>props' p'. MQTTProperties_add props p [] = Some (0, props', []) \<and> props_ok props' \<and>
    entries props' = entries props @ [p'] \<and> prop_bytes p' = prop_bytes p \<and> sendable p'"
proof -
  obtain type where t: "MQTTProperty_getType (prop_id p) = Some type" "value_ok type (prop_val p)"
    using sendable_type [OF p] by blast
  obtain g where g: "grow_array props [] = (g, [])" "pr_array g = Some (entries props)"
    "pr_count g = length (entries props)" "pr_count g < pr_max_count g" "pr_length g = pr_length props"
    using array_grown [OF ok] by blast
  obtain p' where p': "add_value type p [] = Some (int (length (value_bytes type (prop_val p))), p', [])"
    "prop_id p' = prop_id p" "value_ok type (prop_val p')"
    "value_bytes type (prop_val p') = value_bytes type (prop_val p)"
    using value_added [OF t(2)] by blast
  have bytes: "prop_bytes p' = prop_bytes p" "sendable p'" "length (prop_bytes p) = Suc (length (value_bytes type (prop_val p)))"
    using t p' by (simp_all add: prop_bytes_def sendable_def)
  let ?r = "g\<lparr>pr_array := Some (entries props @ [p']), pr_count := pr_count g + 1,
      pr_length := pr_length g + (int (length (value_bytes type (prop_val p))) + 1)\<rparr>"
  have "MQTTProperties_add props p [] = Some (0, ?r, [])"
    using t(1) g p'(1) by (simp add: MQTTProperties_add_def)
  moreover have "entries ?r = entries props @ [p']" by (simp add: entries_def)
  moreover from this have "props_ok ?r"
    using ok g bytes by (auto simp: props_ok_def props_body_def)
  ultimately show ?thesis using bytes by blast
qed

lemma entries_copied:
  assumes "props_ok props" "\<forall>p\<in>set ps. sendable p"
  shows "\<exists>props' ps'. copy_entries ps props [] = Some (props', []) \<and> props_ok props' \<and>
    entries props' = entries props @ ps' \<and> map prop_bytes ps' = map prop_bytes ps"
  using assms
proof (induction ps arbitrary: props)
  case (Cons p ps)
  obtain props1 p1 where 1: "MQTTProperties_add props p [] = Some (0, props1, [])" "props_ok props1"
    "entries props1 = entries props @ [p1]" "prop_bytes p1 = prop_bytes p"
    using property_added [OF Cons.prems(1), of p] Cons.prems(2) by auto
  obtain props2 ps2 where 2: "copy_entries ps props1 [] = Some (props2, [])" "props_ok props2"
    "entries props2 = entries props1 @ ps2" "map prop_bytes ps2 = map prop_bytes ps"
    using Cons.IH [OF 1(2)] Cons.prems(2) by auto
  show ?case
    using 1 2 by (intro exI [of _ props2] exI [of _ "p1 # ps2"]) simp
qed auto

lemma list_written:
  assumes ok: "props_ok props" and small: "length (props_body props) < 268435456"
  shows "MQTTProperties_write (Some props) (malloc_buf (nat (MQTTProperties_len (Some props)))) =
    Some (1 + int (length (props_body props)),
      wrote (nat (MQTTProperties_len (Some props))) (vbi (length (props_body props)) @ props_body props))"
    "nat (MQTTProperties_len (Some props)) = length (vbi (length (props_body props)) @ props_body props)"
proof -
  have len: "nat (MQTTProperties_len (Some props)) = length (vbi (length (props_body props)) @ props_body props)"
    using ok length_vbi [OF small] VBIlen_pos [of "int (length (props_body props))"]
    by (simp add: MQTTProperties_len_def props_ok_def nat_add_distrib)
  then show "nat (MQTTProperties_len (Some props)) = length (vbi (length (props_body props)) @ props_body props)" .
  show "MQTTProperties_write (Some props) (malloc_buf (nat (MQTTProperties_len (Some props)))) =
    Some (1 + int (length (props_body props)),
      wrote (nat (MQTTProperties_len (Some props))) (vbi (length (props_body props)) @ props_body props))"
    using ok unfolding len
    by (auto simp: MQTTProperties_write_def buf_simps entries_written props_ok_def props_body_def entries_def
        split: option.splits)
qed

section \<open>The properties of the module\<close>

text \<open>C13: Build a property list from nothing by adding any sequence of properties whose identifiers
  are in the table and whose values fit their type.  Every addition succeeds, and writing the list
  into a buffer of exactly \<open>MQTTProperties_len\<close> bytes never leaves the buffer, leaves no byte of it
  unwritten and produces what the standard prescribes: the length of the properties as a variable
  byte integer followed by identifier and value of each property in the order of the additions.\<close>

theorem properties_fill_their_buffer:
  assumes "\<forall>p\<in>set ps. sendable p" "length (concat (map prop_bytes ps)) < 268435456"
  shows "\<exists>props w rc. copy_entries ps MQTTProperties_initializer [] = Some (props, []) \<and>
    pr_length props = int (length (concat (map prop_bytes ps))) \<and>
    MQTTProperties_write (Some props) (malloc_buf (nat (MQTTProperties_len (Some props)))) = Some (rc, w) \<and>
    those (w_mem w) = Some (vbi (length (concat (map prop_bytes ps))) @ concat (map prop_bytes ps))"
proof -
  obtain props ps' where c: "copy_entries ps MQTTProperties_initializer [] = Some (props, [])" "props_ok props"
    "entries props = ps'" "map prop_bytes ps' = map prop_bytes ps"
    using entries_copied [OF props_ok_initializer(1) assms(1)] by (auto simp: props_ok_initializer)
  then have props_body: "props_body props = concat (map prop_bytes ps)" by (simp add: props_body_def)
  let ?out = "vbi (length (props_body props)) @ props_body props"
  note written = list_written [OF c(2), unfolded props_body, OF assms(2), folded props_body]
  have "those (w_mem (wrote (nat (MQTTProperties_len (Some props))) ?out)) = Some ?out"
    unfolding written(2) by (rule wrote_full)
  with written(1) c(1,2) show ?thesis
    unfolding props_body [symmetric] props_ok_def by blast
qed

definition demo_property :: "byte list \<Rightarrow> MQTTProperty" where
  "demo_property s = \<lparr>prop_id = 38, prop_val = VStrings \<lparr>ls_len = int (length s), ls_data = s\<rparr> \<lparr>ls_len = 1, ls_data = [65]\<rparr>\<rparr>"

theorem properties_fill_their_buffer_witness:
  "\<exists>props w rc. copy_entries [demo_property [66, 67], \<lparr>prop_id = 34, prop_val = VInteger2 300\<rparr>]
      MQTTProperties_initializer [] = Some (props, []) \<and>
    MQTTProperties_write (Some props) (malloc_buf (nat (MQTTProperties_len (Some props)))) = Some (rc, w) \<and>
    those (w_mem w) = Some [11, 38, 0, 2, 66, 67, 0, 1, 65, 34, 1, 44]"
proof -
  let ?ps = "[demo_property [66, 67], \<lparr>prop_id = 34, prop_val = VInteger2 300\<rparr>]"
  have "\<forall>p\<in>set ?ps. sendable p"
    by (simp add: sendable_def demo_property_def MQTTProperty_getType_def namesToTypes_def lenstring_ok_def)
  moreover have bytes: "concat (map prop_bytes ?ps) = [38, 0, 2, 66, 67, 0, 1, 65, 34, 1, 44]"
    by (simp add: prop_bytes_def demo_property_def MQTTProperty_getType_def namesToTypes_def lenstring_bytes_def be16_def)
  moreover have "vbi (length [38, 0, 2, 66, 67, 0, 1, 65, 34, 1, 44 :: byte]) = [11]"
    by (simp add: vbi.simps)
  moreover have "length [38, 0, 2, 66, 67, 0, 1, 65, 34, 1, 44 :: byte] < 268435456" by simp
  ultimately show ?thesis
    using properties_fill_their_buffer [of ?ps] unfolding bytes by (simp only: append_Cons append_Nil) blast
qed

text \<open>C14: Copying a list (as the client does when it queues a message) gives an independent list with
  the same count and the same encoding; below the limit of the length field, \<open>MQTTProperties_write\<close> puts the same
  bytes into a buffer for the copy as into one for the original.\<close>

theorem properties_copy_same_bytes:
  assumes "props_ok props"
  shows "\<exists>copy. MQTTProperties_copy props [] = Some (copy, []) \<and> props_ok copy \<and>
    pr_count copy = pr_count props \<and> pr_length copy = pr_length props \<and> props_body copy = props_body props \<and>
    (length (props_body props) < 268435456 \<longrightarrow>
      (\<exists>rc w. MQTTProperties_write (Some props) (malloc_buf (nat (MQTTProperties_len (Some props)))) = Some (rc, w) \<and>
        MQTTProperties_write (Some copy) (malloc_buf (nat (MQTTProperties_len (Some copy)))) = Some (rc, w) \<and>
        those (w_mem w) = Some (vbi (length (props_body props)) @ props_body props)))"
proof -
  obtain copy ps where c: "copy_entries (entries props) MQTTProperties_initializer [] = Some (copy, [])"
    "props_ok copy" "entries copy = ps" "map prop_bytes ps = map prop_bytes (entries props)"
    using entries_copied [OF props_ok_initializer(1), of "entries props"] assms
    by (auto simp: props_ok_initializer props_ok_def)
  have "length ps = length (entries props)" using c(4) by (metis length_map)
  with c assms have same: "pr_count copy = pr_count props" "pr_length copy = pr_length props" "props_body copy = props_body props"
    by (simp_all add: props_ok_def props_body_def)
  have "\<exists>rc w. MQTTProperties_write (Some props) (malloc_buf (nat (MQTTProperties_len (Some props)))) = Some (rc, w) \<and>
      MQTTProperties_write (Some copy) (malloc_buf (nat (MQTTProperties_len (Some copy)))) = Some (rc, w) \<and>
      those (w_mem w) = Some (vbi (length (props_body props)) @ props_body props)"
    if small: "length (props_body props) < 268435456"
  proof -
    let ?out = "vbi (length (props_body props)) @ props_body props"
    note w = list_written [OF assms small]
    have "length (props_body copy) < 268435456" using small same(3) by simp
    note w' = list_written [OF c(2) this, unfolded same(3)]
    have "those (w_mem (wrote (nat (MQTTProperties_len (Some props))) ?out)) = Some ?out"
      unfolding w(2) by (rule wrote_full)
    then show ?thesis using w w' by simp
  qed
  moreover have "MQTTProperties_copy props [] = Some (copy, [])"
    using c(1) assms by (auto simp: MQTTProperties_copy_def props_ok_def entries_def split: option.splits)
  ultimately show ?thesis using c(2) same by (intro exI [of _ copy]) simp
qed

theorem properties_copy_same_bytes_witness:
  "\<exists>copy. MQTTProperties_copy \<lparr>pr_count = 1, pr_max_count = 10, pr_length = 3,
      pr_array = Some [\<lparr>prop_id = 34, prop_val = VInteger2 300\<rparr>]\<rparr> [] = Some (copy, []) \<and>
    pr_length copy = 3 \<and> props_body copy = [34, 1, 44]"
  using properties_copy_same_bytes [of "\<lparr>pr_count = 1, pr_max_count = 10, pr_length = 3,
      pr_array = Some [\<lparr>prop_id = 34, prop_val = VInteger2 300\<rparr>]\<rparr>"]
  by (auto simp: props_ok_def entries_def props_body_def sendable_def prop_bytes_def MQTTProperty_getType_def
      namesToTypes_def be16_def)

text \<open>The properties of the standard: the type of the value that an identifier announces.\<close>

definition standard_type :: "int \<Rightarrow> MQTTPropertyTypes option" where
  "standard_type v =
     (if v \<in> {1, 23, 25, 36, 37, 40, 41, 42} then Some TYPE_BYTE
      else if v \<in> {19, 33, 34, 35} then Some TYPE_TWO_BYTE_INTEGER
      else if v \<in> {2, 17, 24, 39} then Some TYPE_FOUR_BYTE_INTEGER
      else if v = 11 then Some TYPE_VARIABLE_BYTE_INTEGER
      else if v \<in> {9, 22} then Some TYPE_BINARY_DATA
      else if v \<in> {3, 8, 18, 21, 26, 28, 31} then Some TYPE_UTF_8_ENCODED_STRING
      else if v = 38 then Some TYPE_UTF_8_STRING_PAIR
      else None)"

lemma standard_codes: "standard_type v \<noteq> None \<longleftrightarrow> v \<in> range property_code"
proof
  assume "standard_type v \<noteq> None"
  then have "v \<in> {1, 2, 3, 8, 9, 11, 17, 18, 19, 21, 22, 23, 24, 25, 26, 28, 31, 33, 34, 35, 36, 37, 38, 39, 40, 41, 42}"
    by (auto simp: standard_type_def split: if_splits)
  also have "\<dots> = property_code ` set [PAYLOAD_FORMAT_INDICATOR, MESSAGE_EXPIRY_INTERVAL, CONTENT_TYPE, RESPONSE_TOPIC,
      CORRELATION_DATA, SUBSCRIPTION_IDENTIFIER, SESSION_EXPIRY_INTERVAL, ASSIGNED_CLIENT_IDENTIFER, SERVER_KEEP_ALIVE,
      AUTHENTICATION_METHOD, AUTHENTICATION_DATA, REQUEST_PROBLEM_INFORMATION, WILL_DELAY_INTERVAL,
      REQUEST_RESPONSE_INFORMATION, RESPONSE_INFORMATION, SERVER_REFERENCE, REASON_STRING, RECEIVE_MAXIMUM,
      TOPIC_ALIAS_MAXIMUM, TOPIC_ALIAS, MAXIMUM_QOS, RETAIN_AVAILABLE, USER_PROPERTY, MAXIMUM_PACKET_SIZE,
      WILDCARD_SUBSCRIPTION_AVAILABLE, SUBSCRIPTION_IDENTIFIERS_AVAILABLE, SHARED_SUBSCRIPTION_AVAILABLE]"
    by simp
  finally show "v \<in> range property_code" by blast
next
  assume "v \<in> range property_code"
  then obtain c where "v = property_code c" by blast
  then show "standard_type v \<noteq> None" by (cases c) (simp_all add: standard_type_def)
qed

text \<open>C15: The table of types is that of the standard: it lists every identifier once, and the type it gives is
  the type that the standard gives it; every other number has none.  Adding a property with such a number is refused
  without touching the list.\<close>

theorem property_types_complete:
  "distinct (map (\<lambda>(name, _). property_code name) namesToTypes) \<and>
   (\<forall>v. MQTTProperty_getType v = standard_type v) \<and>
   (\<forall>p props ms. standard_type (prop_id p) = None \<longrightarrow>
      MQTTProperties_add props p ms = Some (MQTT_INVALID_PROPERTY_ID, props, ms))"
proof (intro conjI allI impI)
  show "distinct (map (\<lambda>(name, _). property_code name) namesToTypes)" by (simp add: namesToTypes_def)
  show types: "MQTTProperty_getType v = standard_type v" for v
  proof (cases "v \<in> range property_code")
    case True
    then obtain c where "v = property_code c" by blast
    then show ?thesis by (cases c) (simp_all add: MQTTProperty_getType_def namesToTypes_def standard_type_def)
  next
    case False
    then have "MQTTProperty_getType v = None" by (auto simp: MQTTProperty_getType_def find_None_iff)
    then show ?thesis using False standard_codes [of v] by simp
  qed
  fix p :: MQTTProperty and props ms
  assume "standard_type (prop_id p) = None"
  then show "MQTTProperties_add props p ms = Some (MQTT_INVALID_PROPERTY_ID, props, ms)"
    by (simp add: MQTTProperties_add_def types)
qed

theorem property_types_complete_witness:
  "MQTTProperties_add MQTTProperties_initializer \<lparr>prop_id = 7, prop_val = VByte 1\<rparr> []
     = Some (MQTT_INVALID_PROPERTY_ID, MQTTProperties_initializer, []) \<and>
   MQTTProperty_getType 17 = Some TYPE_FOUR_BYTE_INTEGER \<and> MQTTProperty_getType 35 = Some TYPE_TWO_BYTE_INTEGER"
  using property_types_complete by (simp add: standard_type_def)

text \<open>A four byte integer of 2^31 or more is converted to a negative \<open>int\<close> and loses its upper
  bytes: the session expiry interval 0xFFFFFFFF (never) is sent as 255 seconds.\<close>

lemma four_byte_integer_truncated:
  "MQTTProperty_write \<lparr>prop_id = property_code SESSION_EXPIRY_INTERVAL, prop_val = VInteger4 0xFFFFFFFF\<rparr> (malloc_buf 5)
    = Some (5, wrote 5 [17, 0, 0, 0, 255])"
proof -
  have eq: "[17, 0, 0, 0, - 1 :: byte] = [17, 0, 0, 0, 255]" by simp
  have "MQTTProperty_write \<lparr>prop_id = property_code SESSION_EXPIRY_INTERVAL, prop_val = VInteger4 0xFFFFFFFF\<rparr> (malloc_buf 5)
    = Some (5, wrote 5 [17, 0, 0, 0, - 1])"
    by (simp add: MQTTProperty_write_def MQTTProperty_getType_def namesToTypes_def malloc_buf_wrote
        writeChar_def writeInt4_def put_bytes_wrote signed_divide_int_def signed_modulo_int_def)
  then show ?thesis unfolding eq .
qed

end
