(* ===== verification/Packet.thy ===== *)
theory Packet
  imports Properties SocketRead
begin

text \<open>
  \<^verbatim>\<open>src/src/MQTTPacket.c\<close>: the packets.  The parsers work on the bytes behind the fixed header; the
  builders allocate buffers, fill them and hand them to the socket layer; the factory reads one
  packet from a connection.  The functions of the connection (\<open>WebSocket_getch\<close>,
  \<open>WebSocket_getdata\<close>, \<open>WebSocket_putdatas\<close>) are arguments, so that the definitions serve both a
  plain TCP connection, where they are the functions of \<^verbatim>\<open>SocketRead\<close>, and an upgraded one.
\<close>

section \<open>Packet types\<close>

definition CONNECT :: int where [codes]: "CONNECT = 1"
definition CONNACK :: int where [codes]: "CONNACK = 2"
definition PUBLISH :: int where [codes]: "PUBLISH = 3"
definition PUBACK :: int where [codes]: "PUBACK = 4"
definition PUBREC :: int where [codes]: "PUBREC = 5"
definition PUBREL :: int where [codes]: "PUBREL = 6"
definition PUBCOMP :: int where [codes]: "PUBCOMP = 7"
definition SUBSCRIBE :: int where [codes]: "SUBSCRIBE = 8"
definition SUBACK :: int where [codes]: "SUBACK = 9"
definition DISCONNECT :: int where [codes]: "DISCONNECT = 14"
definition AUTH :: int where [codes]: "AUTH = 15"

record Publish =
  pub_header :: Header
  pub_topic :: "byte list"
  pub_topiclen :: int
  pub_msgId :: int
  pub_payload :: "byte list"
  pub_payloadlen :: int
  pub_version :: int
  pub_properties :: MQTTProperties

text \<open>The message id of an \<open>Ack\<close> stays uninitialised for a DISCONNECT.\<close>

record Ack =
  ack_header :: Header
  ack_msgId :: "int option"
  ack_version :: int

record Connack =
  ca_header :: Header
  ca_flags :: byte
  ca_rc :: byte
  ca_version :: int

record Suback =
  sa_header :: Header
  sa_msgId :: int
  sa_version :: int
  sa_qoss :: "byte alist"

datatype Packet = Publish_packet Publish | Ack_packet Ack | Connack_packet Connack | Suback_packet Suback

section \<open>Parsers\<close>

text \<open>\<open>data\<close> are the \<open>datalen\<close> bytes behind the fixed header.  The result is the packet, or nothing
  when the code returns null.\<close>

definition MQTTPacket_publish ::
  "int \<Rightarrow> Header \<Rightarrow> byte list \<Rightarrow> mallocs \<Rightarrow> (Publish option \<times> mallocs) option" where
  "MQTTPacket_publish MQTTVersion aHeader data ms =
     (let (ok, ms) = next_malloc ms in
      if \<not> ok then Some (None, ms)
      else do {
        (topic, topiclen, cur, ms) \<leftarrow> readUTFlen data 0 0 ms;
        case topic of
          None \<Rightarrow> Some (None, ms)
        | Some topic \<Rightarrow>
            let pack = \<lparr>pub_header = aHeader, pub_topic = topic, pub_topiclen = topiclen, pub_msgId = 0,
                        pub_payload = [], pub_payloadlen = 0, pub_version = MQTTVersion,
                        pub_properties = MQTTProperties_initializer\<rparr> in
            if h_qos aHeader > 0 then
              if length data - cur < 2 then Some (None, ms)
              else do {
                (msgId, cur) \<leftarrow> readInt data cur;
                Some (Some (pack\<lparr>pub_msgId := msgId, pub_payload := drop cur data,
                                 pub_payloadlen := int (length data - cur)\<rparr>), ms)
              }
            else Some (Some (pack\<lparr>pub_payload := drop cur data,
                                  pub_payloadlen := int (length data - cur)\<rparr>), ms)
      })"

definition MQTTPacket_ack ::
  "int \<Rightarrow> Header \<Rightarrow> byte list \<Rightarrow> mallocs \<Rightarrow> (Ack option \<times> mallocs) option" where
  "MQTTPacket_ack MQTTVersion aHeader data ms =
     (let (ok, ms) = next_malloc ms in
      if \<not> ok then Some (None, ms)
      else
        let pack = \<lparr>ack_header = aHeader, ack_msgId = None, ack_version = MQTTVersion\<rparr> in
        if h_type aHeader \<noteq> DISCONNECT then
          if length data < 2 then Some (None, ms)
          else do {
            (msgId, cur) \<leftarrow> readInt data 0;
            Some (Some (pack\<lparr>ack_msgId := Some msgId\<rparr>), ms)
          }
        else Some (Some pack, ms))"

definition MQTTPacket_connack ::
  "int \<Rightarrow> Header \<Rightarrow> byte list \<Rightarrow> mallocs \<Rightarrow> (Connack option \<times> mallocs) option" where
  "MQTTPacket_connack MQTTVersion aHeader data ms =
     (let (ok, ms) = next_malloc ms in
      if \<not> ok then Some (None, ms)
      else if length data < 2 then Some (None, ms)
      else do {
        (flags, cur) \<leftarrow> readChar data 0;
        (rc, cur) \<leftarrow> readChar data cur;
        Some (Some \<lparr>ca_header = aHeader, ca_flags = flags, ca_rc = rc, ca_version = MQTTVersion\<rparr>, ms)
      })"

text \<open>The loop of \<open>MQTTPacket_suback\<close> over the return codes from the position \<open>cur\<close>.  When there is no
  memory for a code, or when there is none at all, the code looks at \<open>pack->properties.array\<close>, which
  it has never initialised: no result.  \<open>ListAppend\<close> allocates the list element and forgets the code
  when it cannot.\<close>

function suback_codes :: "byte list \<Rightarrow> nat \<Rightarrow> byte alist \<Rightarrow> mallocs \<Rightarrow> (byte alist \<times> mallocs) option" where
  "suback_codes data cur qoss ms =
     (if cur < length data then
        let (ok, ms) = next_malloc ms in
        if \<not> ok then None
        else do {
          (c, cur') \<leftarrow> readChar data cur;
          let (ok, ms) = next_malloc ms;
          suback_codes data (cur + 1) (if ok then a_append c qoss else qoss) ms
        }
      else Some (qoss, ms))"
  by pat_completeness auto

termination
  by (relation "measure (\<lambda>(data, cur, _, _). length data - cur)") auto

declare suback_codes.simps [simp del]

definition MQTTPacket_suback ::
  "int \<Rightarrow> Header \<Rightarrow> byte list \<Rightarrow> mallocs \<Rightarrow> (Suback option \<times> mallocs) option" where
  "MQTTPacket_suback MQTTVersion aHeader data ms =
     (let (ok, ms) = next_malloc ms in
      if \<not> ok then Some (None, ms)
      else if length data < 2 then Some (None, ms)
      else do {
        (msgId, cur) \<leftarrow> readInt data 0;
        let (ok, ms) = next_malloc ms;
        if \<not> ok then None
        else do {
          (qoss, ms) \<leftarrow> suback_codes data cur empty_alist ms;
          if items qoss = [] then None
          else Some (Some \<lparr>sa_header = aHeader, sa_msgId = msgId, sa_version = MQTTVersion,
                           sa_qoss = qoss\<rparr>, ms)
        }
      })"

section \<open>The factory\<close>

text \<open>The table \<open>new_packets\<close>.  The entry for UNSUBACK is commented out in the code, which shifts the
  two after it.\<close>

datatype builder = B_connack | B_publish | B_ack | B_suback

definition new_packets :: "builder option list" where
  "new_packets =
    [None,
     None,
     Some B_connack,
     Some B_publish,
     Some B_ack,
     Some B_ack,
     Some B_ack,
     Some B_ack,
     None,
     Some B_suback,
     None,
     Some B_ack,
     Some B_ack]"

definition build ::
  "builder \<Rightarrow> int \<Rightarrow> Header \<Rightarrow> byte list \<Rightarrow> mallocs \<Rightarrow> (Packet option \<times> mallocs) option" where
  "build b MQTTVersion aHeader data ms =
     (case b of
        B_connack \<Rightarrow> do { (p, ms) \<leftarrow> MQTTPacket_connack MQTTVersion aHeader data ms; Some (map_option Connack_packet p, ms) }
      | B_publish \<Rightarrow> do { (p, ms) \<leftarrow> MQTTPacket_publish MQTTVersion aHeader data ms; Some (map_option Publish_packet p, ms) }
      | B_ack \<Rightarrow> do { (p, ms) \<leftarrow> MQTTPacket_ack MQTTVersion aHeader data ms; Some (map_option Ack_packet p, ms) }
      | B_suback \<Rightarrow> do { (p, ms) \<leftarrow> MQTTPacket_suback MQTTVersion aHeader data ms; Some (map_option Suback_packet p, ms) })"

text \<open>The loop of \<open>MQTTPacket_decode\<close> with the number of bytes it may still read (four at first).\<close>

fun MQTTPacket_decode_loop ::
  "('s \<Rightarrow> (int \<times> byte option \<times> 's) option) \<Rightarrow> nat \<Rightarrow> nat \<Rightarrow> nat \<Rightarrow> 's \<Rightarrow> (int \<times> nat \<times> 's) option" where
  "MQTTPacket_decode_loop getch 0 multiplier v s = Some (SOCKET_ERROR, v, s)"
| "MQTTPacket_decode_loop getch (Suc left) multiplier v s = do {
     (rc, c, s) \<leftarrow> getch s;
     if rc \<noteq> TCPSOCKET_COMPLETE then Some (rc, v, s)
     else do {
       c \<leftarrow> c;
       let v = v + unat (c AND 127) * multiplier;
       if c AND 128 \<noteq> 0 then MQTTPacket_decode_loop getch left (multiplier * 128) v s
       else Some (rc, v, s)
     }
   }"

definition MQTTPacket_decode ::
  "('s \<Rightarrow> (int \<times> byte option \<times> 's) option) \<Rightarrow> 's \<Rightarrow> (int \<times> nat \<times> 's) option" where
  "MQTTPacket_decode getch s = MQTTPacket_decode_loop getch 4 1 0 s"

text \<open>The second half of the factory: which parser gets the data.  An index behind the end of the
  table has no result.\<close>

definition dispatch ::
  "int \<Rightarrow> Header \<Rightarrow> byte list \<Rightarrow> mallocs \<Rightarrow> (Packet option \<times> int \<times> mallocs) option" where
  "dispatch MQTTVersion header data ms =
     (let ptype = h_type header in
      if ptype < CONNECT \<or> (MQTTVersion < 5 \<and> ptype \<ge> DISCONNECT) \<or> (MQTTVersion \<ge> 5 \<and> ptype > AUTH)
      then Some (None, TCPSOCKET_COMPLETE, ms)
      else do {
        entry \<leftarrow> nth_opt new_packets (nat ptype);
        case entry of
          None \<Rightarrow> Some (None, TCPSOCKET_COMPLETE, ms)
        | Some b \<Rightarrow> do {
            (pack, ms) \<leftarrow> build b MQTTVersion header data ms;
            Some (pack, if pack = None then SOCKET_ERROR else TCPSOCKET_COMPLETE, ms)
          }
      })"

text \<open>The result is the packet, \<open>*error\<close>, and the new states of the allocator and the connection.\<close>

definition MQTTPacket_Factory ::
  "('s \<Rightarrow> (int \<times> byte option \<times> 's) option) \<Rightarrow> (nat \<Rightarrow> nat \<Rightarrow> 's \<Rightarrow> (mem option \<times> nat \<times> int option \<times> 's) option) \<Rightarrow>
   int \<Rightarrow> mallocs \<Rightarrow> 's \<Rightarrow> (Packet option \<times> int \<times> mallocs \<times> 's) option" where
  "MQTTPacket_Factory getch getdata MQTTVersion ms s = do {
     (error, c, s) \<leftarrow> getch s;
     if error \<noteq> TCPSOCKET_COMPLETE then Some (None, error, ms, s)
     else do {
       header \<leftarrow> c;
       (error, remaining_length, s) \<leftarrow> MQTTPacket_decode getch s;
       if error \<noteq> TCPSOCKET_COMPLETE then Some (None, error, ms, s)
       else do {
         (buf, actual_len, _, s) \<leftarrow> getdata remaining_length 0 s;
         if remaining_length \<noteq> 0 \<and> buf = None then Some (None, SOCKET_ERROR, ms, s)
         else if actual_len < remaining_length then Some (None, TCPSOCKET_INTERRUPTED, ms, s)
         else do {
           data \<leftarrow> (if remaining_length = 0 then Some []
                   else do { m \<leftarrow> buf; load_bytes m 0 remaining_length });
           (pack, error, ms) \<leftarrow> dispatch MQTTVersion header data ms;
           Some (pack, error, ms, s)
         }
       }
     }
   }"

section \<open>Builders\<close>

text \<open>The buffers handed to the socket layer behind the first one: their bytes, and for each whether
  the socket layer has to free it when the write is interrupted.\<close>

record PacketBuffers =
  pb_buffers :: "byte list list"
  pb_frees :: "bool list"

type_synonym 's putdatas = "byte list \<Rightarrow> PacketBuffers \<Rightarrow> 's \<Rightarrow> (int \<times> 's) option"

text \<open>The fixed header, \<open>buf\<close> in the code: the header byte and the remaining length.\<close>

definition fixed_header :: "Header \<Rightarrow> nat \<Rightarrow> byte list option" where
  "fixed_header header buflen = do {
     (n, _) \<leftarrow> MQTTPacket_encode None buflen;
     w \<leftarrow> put_bytes [header] (malloc_buf (1 + n));
     (_, w) \<leftarrow> MQTTPacket_encode (Some w) buflen;
     w \<leftarrow> w;
     those (w_mem w)
   }"

definition MQTTPacket_send ::
  "'s putdatas \<Rightarrow> Header \<Rightarrow> byte list \<Rightarrow> bool \<Rightarrow> mallocs \<Rightarrow> 's \<Rightarrow> (int \<times> mallocs \<times> 's) option" where
  "MQTTPacket_send putdatas header buffer freeData ms s =
     (let (ok, ms) = next_malloc ms in
      if \<not> ok then Some (SOCKET_ERROR, ms, s)
      else do {
        buf \<leftarrow> fixed_header header (length buffer);
        (rc, s) \<leftarrow> putdatas buf \<lparr>pb_buffers = [buffer], pb_frees = [freeData]\<rparr> s;
        Some (rc, ms, s)
      })"

definition MQTTPacket_sends ::
  "'s putdatas \<Rightarrow> Header \<Rightarrow> PacketBuffers \<Rightarrow> mallocs \<Rightarrow> 's \<Rightarrow> (int \<times> mallocs \<times> 's) option" where
  "MQTTPacket_sends putdatas header bufs ms s =
     (let (ok, ms) = next_malloc ms in
      if \<not> ok then Some (SOCKET_ERROR, ms, s)
      else do {
        buf \<leftarrow> fixed_header header (sum_list (map length (pb_buffers bufs)));
        (rc, s) \<leftarrow> putdatas buf bufs s;
        Some (rc, ms, s)
      })"

definition MQTTPacket_send_ack :: "'s putdatas \<Rightarrow> int \<Rightarrow> mallocs \<Rightarrow> 's \<Rightarrow> (int \<times> mallocs \<times> 's) option" where
  "MQTTPacket_send_ack putdatas msgid ms s =
     (let (ok, ms) = next_malloc ms in
      if \<not> ok then Some (SOCKET_ERROR, ms, s)
      else do {
        let header = set_dup 0 (set_type 4 0);
        w \<leftarrow> writeInt msgid (malloc_buf 2);
        buf \<leftarrow> those (w_mem w);
        MQTTPacket_send putdatas header buf True ms s
      })"

definition MQTTPacket_send_puback :: "'s putdatas \<Rightarrow> int \<Rightarrow> mallocs \<Rightarrow> 's \<Rightarrow> (int \<times> mallocs \<times> 's) option" where
  "MQTTPacket_send_puback putdatas msgid ms s = MQTTPacket_send_ack putdatas msgid ms s"

text \<open>\<open>MQTTPacket_send_publish\<close>.  All fields of the header are assigned, so the value it starts from
  does not matter.\<close>

definition MQTTPacket_send_publish ::
  "'s putdatas \<Rightarrow> Publish \<Rightarrow> int \<Rightarrow> int \<Rightarrow> int \<Rightarrow> mallocs \<Rightarrow> 's \<Rightarrow> (int \<times> mallocs \<times> 's) option" where
  "MQTTPacket_send_publish putdatas pack dup qos retained ms s =
     (let (ok, ms) = next_malloc ms in
      if \<not> ok then Some (SOCKET_ERROR, ms, s)
      else
        let header = set_retain retained (set_qos qos (set_dup dup (set_type PUBLISH 0))) in
        if qos > 0 \<or> pub_version pack \<ge> 5 then
          let buflen = (if qos > 0 then 2 else 0) +
                (if pub_version pack \<ge> 5 then MQTTProperties_len (Some (pub_properties pack)) else 0);
              (ok, ms) = next_malloc ms
          in
          if buflen < 0 then None
          else if \<not> ok then Some (SOCKET_ERROR, ms, s)
          else do {
            let w = malloc_buf (nat buflen);
            w \<leftarrow> (if qos > 0 then writeInt (pub_msgId pack) w else Some w);
            w \<leftarrow> (if pub_version pack \<ge> 5 then do {
                   (_, w) \<leftarrow> MQTTProperties_write (Some (pub_properties pack)) w; Some w }
                 else Some w);
            buf2 \<leftarrow> those (w_mem w);
            tw \<leftarrow> writeInt (int (strlen (pub_topic pack))) (malloc_buf 2);
            topiclen \<leftarrow> those (w_mem tw);
            if pub_payloadlen pack < 0 \<or> nat (pub_payloadlen pack) > length (pub_payload pack) then None
            else
              MQTTPacket_sends putdatas header
                \<lparr>pb_buffers = [topiclen, take (strlen (pub_topic pack)) (pub_topic pack), buf2,
                              take (nat (pub_payloadlen pack)) (pub_payload pack)],
                 pb_frees = [True, False, True, False]\<rparr> ms s
          }
        else Some (SOCKET_ERROR, ms, s))"

text \<open>What \<open>MQTTPacket_send_connect\<close> reads of a client.\<close>

record connect_client =
  cc_clientID :: "byte list"
  cc_username :: "byte list option"
  cc_password :: "byte list option"
  cc_passwordlen :: int
  cc_keepAliveInterval :: int

text \<open>The flags byte of a CONNECT: \<open>password\<close> is bit 6, \<open>username\<close> bit 7.\<close>

definition connect_flags :: "connect_client \<Rightarrow> byte" where
  "connect_flags c =
     (let all = 0;
          all = (if cc_username c \<noteq> None then all OR 0x80 else all)
      in if cc_password c \<noteq> None then all OR 0x40 else all)"

definition MQTT_name :: "byte list" where
  "MQTT_name = [77, 81, 84, 84]"

definition MQTTPacket_send_connect ::
  "'s putdatas \<Rightarrow> connect_client \<Rightarrow> int \<Rightarrow> mallocs \<Rightarrow> 's \<Rightarrow> (int \<times> mallocs \<times> 's) option" where
  "MQTTPacket_send_connect putdatas client MQTTVersion ms s =
     (let len = 10 + int (strlen (cc_clientID client)) + 2;
          len = (case cc_username client of None \<Rightarrow> len | Some u \<Rightarrow> len + (int (strlen u) + 2));
          len = (case cc_password client of None \<Rightarrow> len | Some _ \<Rightarrow> len + (cc_passwordlen client + 2));
          (ok, ms) = next_malloc ms
      in
      if len < 0 then None
      else if \<not> ok then Some (SOCKET_ERROR, ms, s)
      else do {
        let w = malloc_buf (nat len);
        w \<leftarrow> writeUTF MQTT_name w;
        w \<leftarrow> writeChar (word_of_int MQTTVersion) w;
        w \<leftarrow> writeChar (connect_flags client) w;
        w \<leftarrow> writeInt (cc_keepAliveInterval client) w;
        w \<leftarrow> writeUTF (cc_clientID client) w;
        w \<leftarrow> (case cc_username client of None \<Rightarrow> Some w | Some u \<Rightarrow> writeUTF u w);
        w \<leftarrow> (case cc_password client of None \<Rightarrow> Some w
             | Some p \<Rightarrow> writeData p (cc_passwordlen client) w);
        buf \<leftarrow> those (w_mem w);
        MQTTPacket_send putdatas (set_type CONNECT 0) buf True ms s
      })"

text \<open>The second loop of \<open>MQTTPacket_send_subscribe\<close>: both lists are walked in step; running out of
  qualities of service dereferences a null pointer.\<close>

fun write_topics :: "byte list list \<Rightarrow> int list \<Rightarrow> wbuf \<Rightarrow> wbuf option" where
  "write_topics [] qs w = Some w"
| "write_topics (t # ts) [] w = None"
| "write_topics (t # ts) (q # qs) w = do {
     w \<leftarrow> writeUTF t w;
     w \<leftarrow> writeChar (word_of_int q) w;
     write_topics ts qs w
   }"

definition MQTTPacket_send_subscribe ::
  "'s putdatas \<Rightarrow> byte list list \<Rightarrow> int list \<Rightarrow> int \<Rightarrow> int \<Rightarrow> mallocs \<Rightarrow> 's \<Rightarrow> (int \<times> mallocs \<times> 's) option" where
  "MQTTPacket_send_subscribe putdatas topics qoss msgid dup ms s =
     (let header = set_retain 0 (set_qos 1 (set_dup dup (set_type SUBSCRIBE 0)));
          datalen = 2 + length topics * 3 + sum_list (map strlen topics);
          (ok, ms) = next_malloc ms
      in
      if \<not> ok then Some (-1, ms, s)
      else do {
        w \<leftarrow> writeInt msgid (malloc_buf datalen);
        w \<leftarrow> write_topics topics qoss w;
        data \<leftarrow> those (w_mem w);
        MQTTPacket_send putdatas header data True ms s
      })"

section \<open>The bytes of a packet\<close>

definition packet_bytes :: "Header \<Rightarrow> byte list \<Rightarrow> byte list" where
  "packet_bytes header body = header # vbi (length body) @ body"

text \<open>A socket layer that takes everything and records it: what a builder sends.\<close>

definition sent :: "((byte list \<Rightarrow> PacketBuffers \<Rightarrow> byte list \<Rightarrow> (int \<times> byte list) option) \<Rightarrow>
    mallocs \<Rightarrow> byte list \<Rightarrow> (int \<times> mallocs \<times> byte list) option) \<Rightarrow> byte list option" where
  "sent send = do {
     (rc, ms, out) \<leftarrow> send (\<lambda>buf0 bufs out. Some (TCPSOCKET_COMPLETE, out @ buf0 @ concat (pb_buffers bufs))) [] [];
     Some out
   }"

lemma fixed_header_bytes [buf_simps]: "fixed_header header n = Some (header # vbi n)"
proof -
  have p: "put_bytes [header] (malloc_buf (1 + length (vbi n))) = Some (wrote (1 + length (vbi n)) [header])"
    by (simp add: malloc_buf_wrote put_bytes_wrote)
  have same: "wrote k [header] = at_pos k 1 [header]" for k
    by (simp add: wrote_def at_pos_def)
  have w: "put_bytes [header] (malloc_buf (1 + length (vbi n))) = Some (at_pos (1 + length (vbi n)) 1 [header])"
    unfolding p same ..
  have "MQTTPacket_encode (Some (at_pos (1 + length (vbi n)) 1 [header])) n =
      Some (length (vbi n), Some (at_pos (1 + length (vbi n)) 1 ([header] @ vbi n)))"
    using encode_loop_writes [of 1 0 "[header]" n "1 + length (vbi n)"] by (simp add: MQTTPacket_encode_def)
  moreover have "those (w_mem (at_pos (1 + length (vbi n)) 1 ([header] @ vbi n))) = Some (header # vbi n)"
    using those_map_Some [of "header # vbi n"] by (simp add: at_pos_def)
  ultimately show ?thesis
    by (simp add: fixed_header_def encode_counts w [simplified])
qed

lemma MQTTPacket_send_bytes:
  "MQTTPacket_send putdatas header buffer freeData [] s = do {
     (rc, s) \<leftarrow> putdatas (header # vbi (length buffer)) \<lparr>pb_buffers = [buffer], pb_frees = [freeData]\<rparr> s;
     Some (rc, [], s) }"
  by (simp add: MQTTPacket_send_def fixed_header_bytes)

lemma MQTTPacket_sends_bytes:
  "MQTTPacket_sends putdatas header bufs [] s = do {
     (rc, s) \<leftarrow> putdatas (header # vbi (length (concat (pb_buffers bufs)))) bufs s;
     Some (rc, [], s) }"
  by (simp add: MQTTPacket_sends_def fixed_header_bytes length_concat)

lemma wrote_full_n: "length bs = n \<Longrightarrow> those (w_mem (wrote n bs)) = Some bs"
  using wrote_full by blast

section \<open>What the builders send\<close>

text \<open>The string field of a packet.\<close>

definition utf_field :: "byte list \<Rightarrow> byte list" where
  "utf_field s = be16 (int (strlen s)) @ take (strlen s) s"

lemma length_utf_field [simp]: "length (utf_field s) = strlen s + 2"
  using length_takeWhile_le [of "\<lambda>b. b \<noteq> 0" s] by (simp add: utf_field_def strlen_def)

lemma writeUTF_field:
  "length bs + strlen s + 2 \<le> n \<Longrightarrow> writeUTF s (wrote n bs) = Some (wrote n (bs @ utf_field s))"
  using writeUTF_wrote [of bs s n] by (simp add: utf_field_def add.commute add.left_commute)

lemma puback_bytes:
  assumes "0 \<le> msgid"
  shows "MQTTPacket_send_puback putdatas msgid [] s = do {
     (rc, s) \<leftarrow> putdatas [0x40, 2] \<lparr>pb_buffers = [be16 msgid], pb_frees = [True]\<rparr> s;
     Some (rc, [], s) }"
proof -
  have h: "set_dup 0 (set_type 4 0) = 0x40" by (simp add: set_dup_def set_type_def)
  have w: "writeInt msgid (malloc_buf 2) = Some (wrote 2 (be16 msgid))"
    using writeInt_wrote [OF assms, of "[]" 2] by (simp add: malloc_buf_wrote)
  have "vbi 2 = [2]" by (simp add: vbi.simps)
  then show ?thesis
    by (simp add: MQTTPacket_send_puback_def MQTTPacket_send_ack_def MQTTPacket_send_bytes w wrote_full_n h)
qed

text \<open>The CONNECT packet of the standard: the name "MQTT" with its length, the version, the flags (0x80 for
  a user name, 0x40 for a password), the keep alive interval, and the fields that the flags announce.\<close>

definition connect_body :: "connect_client \<Rightarrow> int \<Rightarrow> byte list" where
  "connect_body c MQTTVersion =
     [0, 4, 77, 81, 84, 84] @ [word_of_int MQTTVersion] @
     [(if cc_username c = None then 0 else 0x80) + (if cc_password c = None then 0 else 0x40)] @
     be16 (cc_keepAliveInterval c) @
     utf_field (cc_clientID c) @
     (case cc_username c of None \<Rightarrow> [] | Some u \<Rightarrow> utf_field u) @
     (case cc_password c of None \<Rightarrow> [] | Some p \<Rightarrow> be16 (cc_passwordlen c) @ take (nat (cc_passwordlen c)) p)"

definition connect_ok :: "connect_client \<Rightarrow> bool" where
  "connect_ok c \<longleftrightarrow> 0 \<le> cc_keepAliveInterval c \<and>
     (case cc_password c of None \<Rightarrow> True
      | Some p \<Rightarrow> 0 \<le> cc_passwordlen c \<and> nat (cc_passwordlen c) \<le> length p)"

lemma strlen_name [simp]: "strlen MQTT_name = 4"
  by (simp add: strlen_def MQTT_name_def)

lemma writeUTF_name:
  "length bs + 6 \<le> n \<Longrightarrow> writeUTF MQTT_name (wrote n bs) = Some (wrote n (bs @ utf_field MQTT_name))"
  by (rule writeUTF_field) simp

lemma connect_body_written:
  "connect_body c MQTTVersion =
     utf_field MQTT_name @ [word_of_int MQTTVersion, connect_flags c] @ be16 (cc_keepAliveInterval c) @
     utf_field (cc_clientID c) @
     (case cc_username c of None \<Rightarrow> [] | Some u \<Rightarrow> utf_field u) @
     (case cc_password c of None \<Rightarrow> [] | Some p \<Rightarrow> be16 (cc_passwordlen c) @ take (nat (cc_passwordlen c)) p)"
proof -
  have "utf_field MQTT_name = [0, 4, 77, 81, 84, 84]"
    by (simp add: utf_field_def be16_def strlen_def MQTT_name_def)
  moreover have "connect_flags c = (if cc_username c = None then 0 else 0x80) + (if cc_password c = None then 0 else 0x40)"
    by (simp add: connect_flags_def Let_def)
  ultimately show ?thesis unfolding connect_body_def by simp
qed

lemma connect_bytes:
  assumes "connect_ok c"
  shows "MQTTPacket_send_connect putdatas c MQTTVersion [] s = do {
     (rc, s) \<leftarrow> putdatas (0x10 # vbi (length (connect_body c MQTTVersion)))
        \<lparr>pb_buffers = [connect_body c MQTTVersion], pb_frees = [True]\<rparr> s;
     Some (rc, [], s) }"
proof -
  have h: "set_type CONNECT 0 = 0x10" by (simp add: set_type_def CONNECT_def)
  let ?u = "case cc_username c of None \<Rightarrow> [] | Some u \<Rightarrow> utf_field u"
  let ?p = "case cc_password c of None \<Rightarrow> [] | Some p \<Rightarrow> be16 (cc_passwordlen c) @ take (nat (cc_passwordlen c)) p"
  let ?n = "12 + strlen (cc_clientID c) + length ?u + length ?p"
  have len: "nat (case cc_password c of None \<Rightarrow>
        (case cc_username c of None \<Rightarrow> 10 + int (strlen (cc_clientID c)) + 2
         | Some u \<Rightarrow> 10 + int (strlen (cc_clientID c)) + 2 + (int (strlen u) + 2))
      | Some _ \<Rightarrow> (case cc_username c of None \<Rightarrow> 10 + int (strlen (cc_clientID c)) + 2
         | Some u \<Rightarrow> 10 + int (strlen (cc_clientID c)) + 2 + (int (strlen u) + 2)) + (cc_passwordlen c + 2)) = ?n"
    "\<not> (case cc_password c of None \<Rightarrow>
        (case cc_username c of None \<Rightarrow> 10 + int (strlen (cc_clientID c)) + 2
         | Some u \<Rightarrow> 10 + int (strlen (cc_clientID c)) + 2 + (int (strlen u) + 2))
      | Some _ \<Rightarrow> (case cc_username c of None \<Rightarrow> 10 + int (strlen (cc_clientID c)) + 2
         | Some u \<Rightarrow> 10 + int (strlen (cc_clientID c)) + 2 + (int (strlen u) + 2)) + (cc_passwordlen c + 2)) < 0"
    using assms by (auto simp: connect_ok_def split: option.splits)
  have nonneg: "0 \<le> cc_keepAliveInterval c" using assms by (simp add: connect_ok_def)
  let ?h1 = "utf_field MQTT_name" and ?v = "word_of_int MQTTVersion" and ?f = "connect_flags c"
  let ?h2 = "(?h1 @ [?v]) @ [?f]" and ?k = "be16 (cc_keepAliveInterval c)" and ?c = "utf_field (cc_clientID c)"
  have s1: "writeUTF MQTT_name (malloc_buf ?n) = Some (wrote ?n ?h1)"
    using writeUTF_name [of "[]" ?n] by (simp add: malloc_buf_wrote)
  have s2: "writeChar ?v (wrote ?n ?h1) = Some (wrote ?n (?h1 @ [?v]))"
    "writeChar ?f (wrote ?n (?h1 @ [?v])) = Some (wrote ?n ?h2)"
    "writeInt (cc_keepAliveInterval c) (wrote ?n ?h2) = Some (wrote ?n (?h2 @ ?k))"
    "writeUTF (cc_clientID c) (wrote ?n (?h2 @ ?k)) = Some (wrote ?n ((?h2 @ ?k) @ ?c))"
    using nonneg by (simp_all add: writeChar_wrote writeInt_wrote writeUTF_field)
  have user: "(case cc_username c of None \<Rightarrow> Some (wrote ?n ((?h2 @ ?k) @ ?c)) | Some u \<Rightarrow> writeUTF u (wrote ?n ((?h2 @ ?k) @ ?c)))
      = Some (wrote ?n (((?h2 @ ?k) @ ?c) @ ?u))"
    by (auto simp: writeUTF_field split: option.splits)
  have pass: "(case cc_password c of None \<Rightarrow> Some (wrote ?n (((?h2 @ ?k) @ ?c) @ ?u))
      | Some p \<Rightarrow> writeData p (cc_passwordlen c) (wrote ?n (((?h2 @ ?k) @ ?c) @ ?u)))
      = Some (wrote ?n (connect_body c MQTTVersion))"
    using assms by (auto simp: writeData_wrote connect_ok_def connect_body_written split: option.splits)
  have full: "those (w_mem (wrote ?n (connect_body c MQTTVersion))) = Some (connect_body c MQTTVersion)"
    by (rule wrote_full_n) (simp add: connect_body_written)
  show ?thesis
    unfolding MQTTPacket_send_connect_def Let_def next_malloc_simps prod.case len
    by (simp only: len if_False if_True not_True_eq_False s1 s2 user pass full Option.bind_lunit
        MQTTPacket_send_bytes h)
qed

definition subscribe_body :: "int \<Rightarrow> byte list list \<Rightarrow> int list \<Rightarrow> byte list" where
  "subscribe_body msgid topics qoss =
     be16 msgid @ concat (map (\<lambda>(t, q). utf_field t @ [word_of_int q]) (zip topics qoss))"

lemma topics_written:
  assumes "length topics = length qoss" "length bs + sum_list (map (\<lambda>t. strlen t + 3) topics) \<le> n"
  shows "write_topics topics qoss (wrote n bs) =
    Some (wrote n (bs @ concat (map (\<lambda>(t, q). utf_field t @ [word_of_int q]) (zip topics qoss))))"
  using assms
proof (induction topics qoss arbitrary: bs rule: list_induct2')
  case (4 t ts q qs)
  have "writeUTF t (wrote n bs) = Some (wrote n (bs @ utf_field t))"
    using "4.prems" by (intro writeUTF_field) simp
  moreover have "writeChar (word_of_int q) (wrote n (bs @ utf_field t)) = Some (wrote n ((bs @ utf_field t) @ [word_of_int q]))"
    using "4.prems" by (intro writeChar_wrote) simp
  ultimately show ?case
    using "4.IH" [of "(bs @ utf_field t) @ [word_of_int q]"] "4.prems" by simp
qed simp_all

lemma length_subscribe_body:
  "length topics = length qoss \<Longrightarrow>
   length (subscribe_body msgid topics qoss) = 2 + sum_list (map (\<lambda>t. strlen t + 3) topics)"
  unfolding subscribe_body_def
  by (induction topics qoss rule: list_induct2) simp_all

lemma subscribe_bytes:
  assumes "length topics = length qoss" "0 \<le> msgid" "dup = 0"
  shows "MQTTPacket_send_subscribe putdatas topics qoss msgid dup [] s = do {
     (rc, s) \<leftarrow> putdatas (0x82 # vbi (length (subscribe_body msgid topics qoss)))
        \<lparr>pb_buffers = [subscribe_body msgid topics qoss], pb_frees = [True]\<rparr> s;
     Some (rc, [], s) }"
proof -
  have h: "set_retain 0 (set_qos 1 (set_dup dup (set_type SUBSCRIBE 0))) = 0x82"
    using assms(3) by (simp add: set_retain_def set_qos_def set_dup_def set_type_def SUBSCRIBE_def)
  have len: "2 + length topics * 3 + sum_list (map strlen topics) = 2 + sum_list (map (\<lambda>t. strlen t + 3) topics)"
    by (induction topics) simp_all
  let ?n = "2 + sum_list (map (\<lambda>t. strlen t + 3) topics)"
  have s1: "writeInt msgid (malloc_buf ?n) = Some (wrote ?n (be16 msgid))"
    using writeInt_wrote [OF assms(2), of "[]" ?n] by (simp add: malloc_buf_wrote)
  have s2: "write_topics topics qoss (wrote ?n (be16 msgid)) = Some (wrote ?n (subscribe_body msgid topics qoss))"
    unfolding subscribe_body_def by (rule topics_written) (simp_all add: assms(1))
  have full: "those (w_mem (wrote ?n (subscribe_body msgid topics qoss))) = Some (subscribe_body msgid topics qoss)"
    by (rule wrote_full_n) (rule length_subscribe_body [OF assms(1)])
  show ?thesis
    unfolding MQTTPacket_send_subscribe_def Let_def next_malloc_simps prod.case len h
    by (simp only: s1 s2 full Option.bind_lunit MQTTPacket_send_bytes not_True_eq_False if_False)
qed

text \<open>A PUBLISH as the standard lays it out; MQTT 5 puts the properties between message id and
  payload.\<close>

definition publish_header :: "int \<Rightarrow> int \<Rightarrow> int \<Rightarrow> Header" where
  "publish_header dup qos retained = set_retain retained (set_qos qos (set_dup dup (set_type PUBLISH 0)))"

definition publish_extra :: "Publish \<Rightarrow> int \<Rightarrow> byte list" where
  "publish_extra p qos = (if qos > 0 then be16 (pub_msgId p) else []) @
     (if pub_version p \<ge> 5
      then vbi (length (props_body (pub_properties p))) @ props_body (pub_properties p) else [])"

definition publish_body :: "Publish \<Rightarrow> int \<Rightarrow> byte list" where
  "publish_body p qos = utf_field (pub_topic p) @ publish_extra p qos @
     take (nat (pub_payloadlen p)) (pub_payload p)"

definition publish_ok :: "Publish \<Rightarrow> int \<Rightarrow> bool" where
  "publish_ok p qos \<longleftrightarrow> (qos > 0 \<or> pub_version p \<ge> 5) \<and> 0 \<le> pub_msgId p \<and> strlen (pub_topic p) < 65536 \<and>
     0 \<le> pub_payloadlen p \<and> nat (pub_payloadlen p) \<le> length (pub_payload p) \<and>
     (pub_version p \<ge> 5 \<longrightarrow> props_ok (pub_properties p) \<and> length (props_body (pub_properties p)) < 268435456)"

text \<open>Writing a property list behind something else.\<close>

lemma list_written_at:
  assumes ok: "props_ok props" and small: "length (props_body props) < 268435456"
    and room: "length bs + length (vbi (length (props_body props)) @ props_body props) \<le> n"
  shows "MQTTProperties_write (Some props) (wrote n bs) =
    Some (1 + int (length (props_body props)), wrote n (bs @ vbi (length (props_body props)) @ props_body props))"
  using ok room
  by (auto simp: MQTTProperties_write_def write_vbi_wrote entries_written props_ok_def props_body_def entries_def
      split: option.splits)

lemma publish_bytes:
  assumes ok: "publish_ok p qos"
  shows "MQTTPacket_send_publish putdatas p dup qos retained [] s = do {
     (rc, s) \<leftarrow> putdatas (publish_header dup qos retained # vbi (length (publish_body p qos)))
        \<lparr>pb_buffers = [be16 (int (strlen (pub_topic p))), take (strlen (pub_topic p)) (pub_topic p),
                      publish_extra p qos, take (nat (pub_payloadlen p)) (pub_payload p)],
         pb_frees = [True, False, True, False]\<rparr> s;
     Some (rc, [], s) }"
proof -
  let ?n = "length (publish_extra p qos)"
  let ?id = "if qos > 0 then be16 (pub_msgId p) else []"
  have buflen: "(if qos > 0 then 2 else 0) +
      (if pub_version p \<ge> 5 then MQTTProperties_len (Some (pub_properties p)) else 0) = int ?n"
  proof (cases "pub_version p \<ge> 5")
    case True
    then have "0 \<le> MQTTProperties_len (Some (pub_properties p))"
      using ok VBIlen_pos [of "pr_length (pub_properties p)"]
      by (simp add: MQTTProperties_len_def publish_ok_def props_ok_def)
    with list_written(2) [of "pub_properties p"] True ok show ?thesis
      by (simp add: publish_extra_def publish_ok_def)
  qed (simp add: publish_extra_def)
  have s1: "(if qos > 0 then writeInt (pub_msgId p) (malloc_buf ?n) else Some (malloc_buf ?n)) = Some (wrote ?n ?id)"
    using ok by (simp add: malloc_buf_wrote writeInt_wrote publish_ok_def publish_extra_def)
  have s2: "(if pub_version p \<ge> 5 then do {
       (_, w) \<leftarrow> MQTTProperties_write (Some (pub_properties p)) (wrote ?n ?id); Some w }
     else Some (wrote ?n ?id)) = Some (wrote ?n (publish_extra p qos))"
    using ok list_written_at [of "pub_properties p" ?id ?n] by (auto simp: publish_extra_def publish_ok_def)
  have full: "those (w_mem (wrote ?n (publish_extra p qos))) = Some (publish_extra p qos)"
    by (rule wrote_full)
  have s3: "writeInt (int (strlen (pub_topic p))) (malloc_buf 2) = Some (wrote 2 (be16 (int (strlen (pub_topic p)))))"
    using writeInt_wrote [of "int (strlen (pub_topic p))" "[]" 2] by (simp add: malloc_buf_wrote)
  have full3: "those (w_mem (wrote 2 (be16 (int (strlen (pub_topic p)))))) = Some (be16 (int (strlen (pub_topic p))))"
    by (rule wrote_full_n) simp
  have cond: "qos > 0 \<or> pub_version p \<ge> 5" "\<not> (pub_payloadlen p < 0 \<or> nat (pub_payloadlen p) > length (pub_payload p))"
    "\<not> int ?n < 0"
    using ok by (auto simp: publish_ok_def)
  have body: "be16 (int (strlen (pub_topic p))) @ take (strlen (pub_topic p)) (pub_topic p) @ publish_extra p qos @
      take (nat (pub_payloadlen p)) (pub_payload p) = publish_body p qos"
    by (simp add: publish_body_def utf_field_def)
  show ?thesis
    unfolding MQTTPacket_send_publish_def Let_def next_malloc_simps prod.case buflen nat_int publish_header_def [symmetric]
    by (simp only: cond if_True if_False not_True_eq_False s1 s2 s3 full full3 Option.bind_lunit
        MQTTPacket_sends_bytes PacketBuffers.simps concat.simps append_Nil2 body)
qed

end
