(* ===== verification/PacketReader.thy ===== *)
theory PacketReader
  imports Packet
begin

text \<open>
  Reading packets from a connection that delivers them in pieces.  A non-blocking socket hands out a
  packet in chunks of any size, with "would block" answers anywhere; \<open>MQTTPacket_Factory\<close> then gives
  up with \<open>TCPSOCKET_INTERRUPTED\<close> and is called again later.  Inside the locale \<open>packet_source\<close> this
  theory proves that the calls together read exactly one packet, whatever the chunks, and leave the
  bytes behind it alone; the interpretation on the plain socket carries the result to the code.
\<close>

section \<open>Streams\<close>

text \<open>The bytes that are going to arrive, a connection without errors, and a measure of what the
  kernel has to say.\<close>

fun arriving :: "recv_event list \<Rightarrow> byte list" where
  "arriving [] = []"
| "arriving (Chunk bs # es) = bs @ arriving es"
| "arriving (Fail e # es) = arriving es"
| "arriving (Eof # es) = []"

definition quiet :: "recv_event list \<Rightarrow> bool" where
  "quiet es \<longleftrightarrow> (\<forall>e\<in>set es. e = Fail EAGAIN \<or> (\<exists>bs. e = Chunk bs))"

fun weight :: "recv_event list \<Rightarrow> nat" where
  "weight [] = 0"
| "weight (Chunk bs # es) = Suc (length bs) + weight es"
| "weight (_ # es) = Suc (weight es)"

lemma quiet_simps [simp]:
  "quiet []" "quiet (Chunk bs # es) = quiet es" "quiet (Fail e # es) = (e = EAGAIN \<and> quiet es)" "\<not> quiet (Eof # es)"
  by (auto simp: quiet_def)

lemma recv_quiet:
  assumes "quiet es" "0 < k"
  obtains (blocked) w where "recv k es = (Failed EAGAIN, w)" "quiet w" "arriving w = arriving es"
      "es \<noteq> [] \<Longrightarrow> weight w < weight es"
  | (got) bs w where "recv k es = (Got bs, w)" "bs \<noteq> []" "length bs \<le> k" "quiet w"
      "arriving es = bs @ arriving w" "weight w < weight es"
  using assms
proof (induction k es arbitrary: thesis rule: recv.induct)
  case (1 n)
  then show ?case by simp
next
  case (2 n bs es)
  show ?case
  proof (cases "bs = []")
    case True
    show ?thesis
    proof (rule "2.IH" [OF True])
      fix w assume "recv n es = (Failed EAGAIN, w)" "quiet w" "arriving w = arriving es" "es \<noteq> [] \<Longrightarrow> weight w < weight es"
      then show thesis using True "2.prems"(1) [of w] by (cases "es = []") auto
    next
      fix cs w assume "recv n es = (Got cs, w)" "cs \<noteq> []" "length cs \<le> n" "quiet w"
        "arriving es = cs @ arriving w" "weight w < weight es"
      then show thesis using True "2.prems"(2) [of cs w] by auto
    next
      show "quiet es" "0 < n" using "2.prems" by simp_all
    qed
  next
    case False
    show ?thesis
    proof (cases "length bs \<le> n")
      case True
      then show ?thesis using False "2.prems"(2) [of bs es] "2.prems"(3) by simp
    next
      case long: False
      then show ?thesis
        using False "2.prems"(2) [of "take n bs" "Chunk (drop n bs) # es"] "2.prems"(3,4) by simp
    qed
  qed
next
  case (3 n e es)
  then show ?case by simp
next
  case (4 n es)
  then show ?case by simp
qed

section \<open>Digits of a variable byte integer\<close>

lemma vbi_digit:
  assumes "k < 128"
  shows "(word_of_nat k :: byte) AND 128 = 0" "unat ((word_of_nat k :: byte) AND 127) = k"
    "(word_of_nat k OR 128 :: byte) AND 128 \<noteq> 0" "unat ((word_of_nat k OR 128 :: byte) AND 127) = k"
proof -
  have small: "\<not> bit k n" if "7 \<le> n" for n
  proof -
    have "k < 2 ^ n" using assms power_increasing [OF that, of "2::nat"] by simp
    then show ?thesis by (simp add: bit_iff_odd)
  qed
  have k: "(word_of_nat k :: byte) AND 127 = word_of_nat k"
    by (rule byte_eqI) (auto simp: bit_simps small)
  have kor: "(word_of_nat k OR 128 :: byte) AND 127 = word_of_nat k"
    by (rule byte_eqI) (auto simp: bit_simps small)
  show "(word_of_nat k :: byte) AND 128 = 0"
    by (rule byte_eqI) (auto simp: bit_simps small)
  have "bit ((word_of_nat k OR 128 :: byte) AND 128) 7" by (simp add: bit_simps)
  then show "(word_of_nat k OR 128 :: byte) AND 128 \<noteq> 0" by (metis bit_0_eq bot_apply bot_bool_def)
  show "unat ((word_of_nat k :: byte) AND 127) = k" "unat ((word_of_nat k OR 128 :: byte) AND 127) = k"
    using assms by (simp_all add: k kor unat_of_nat)
qed

section \<open>One packet\<close>

text \<open>Calling the factory again as long as it says that it was interrupted, at most \<open>k\<close> times.\<close>

fun read_packet ::
  "('s \<Rightarrow> (int \<times> byte option \<times> 's) option) \<Rightarrow> (nat \<Rightarrow> nat \<Rightarrow> 's \<Rightarrow> (mem option \<times> nat \<times> int option \<times> 's) option) \<Rightarrow>
   int \<Rightarrow> nat \<Rightarrow> mallocs \<Rightarrow> 's \<Rightarrow> (Packet option \<times> int \<times> mallocs \<times> 's) option" where
  "read_packet getch getdata MQTTVersion 0 ms s = None"
| "read_packet getch getdata MQTTVersion (Suc k) ms s = do {
     (pack, error, ms, s) \<leftarrow> MQTTPacket_Factory getch getdata MQTTVersion ms s;
     if error = TCPSOCKET_INTERRUPTED then read_packet getch getdata MQTTVersion k ms s
     else Some (pack, error, ms, s)
   }"

lemma code_values [simp]: "TCPSOCKET_COMPLETE = 0" "TCPSOCKET_INTERRUPTED = -22" "SOCKET_ERROR = -1"
  by (simp_all add: codes)

context packet_source
begin

text \<open>\<open>reading s H D beyond i\<close>: of the packet with fixed header \<open>H\<close> and data \<open>D\<close>, the first \<open>i\<close> header
  bytes have been handed out since the last interruption; what has not been seen of it yet, followed
  by \<open>beyond\<close>, is what is going to arrive.\<close>

definition reading :: "'s \<Rightarrow> byte list \<Rightarrow> byte list \<Rightarrow> byte list \<Rightarrow> nat \<Rightarrow> bool" where
  "reading s H D beyond i \<longleftrightarrow> quiet (feed s) \<and> (\<exists>h h' d d'. H = h @ h' \<and> D = d @ d' \<and>
     at (length D) s h i d \<and> (h' \<noteq> [] \<longrightarrow> d = []) \<and> (D \<noteq> [] \<longrightarrow> d' \<noteq> []) \<and>
     arriving (feed s) = h' @ d' @ beyond)"

lemma reading_start:
  "at 0 s [] 0 [] \<Longrightarrow> quiet (feed s) \<Longrightarrow> arriving (feed s) = H @ D @ beyond \<Longrightarrow> reading s H D beyond 0"
  unfolding reading_def by (intro conjI exI [of _ "[]"] exI [of _ H] exI [of _ D]) (auto intro: at_data)

lemma reading_getch:
  assumes r: "reading s H D beyond i" and i: "i < length H" "length H \<le> 5"
  obtains (complete) s' where "getch s = Some (0, Some (H ! i), s')" "reading s' H D beyond (Suc i)"
      "weight (feed s') \<le> weight (feed s)" "rest s' = rest s"
  | (interrupted) s' where "getch s = Some (-22, None, s')" "reading s' H D beyond 0"
      "weight (feed s') < weight (feed s)" "rest s' = rest s"
proof -
  obtain h h' d d' where p: "quiet (feed s)" "H = h @ h'" "D = d @ d'" "at (length D) s h i d"
    "h' \<noteq> [] \<longrightarrow> d = []" "D \<noteq> [] \<longrightarrow> d' \<noteq> []" "arriving (feed s) = h' @ d' @ beyond"
    using r unfolding reading_def by blast
  show thesis
  proof (cases "i < length h")
    case True
    obtain s' where s': "getch s = Some (0, Some (h ! i), s')" "at (length D) s' h (Suc i) d"
      "feed s' = feed s" "rest s' = rest s"
      using getch_seen [OF p(4) True] by auto
    have "reading s' H D beyond (Suc i)"
      unfolding reading_def using p s' by (intro conjI exI [of _ h] exI [of _ h'] exI [of _ d] exI [of _ d']) auto
    with complete [of s'] s' True p(2) show thesis by (simp add: nth_append)
  next
    case False
    then have ih: "i = length h" using at_seen [OF p(4)] by simp
    then obtain c h'' where h': "h' = c # h''" using i(1) p(2) by (cases h') auto
    then have d: "d = []" using p(5) by simp
    have at: "at (length D) s h (length h) []" and short: "length h < 5"
      using p(2,4) ih d h' i by auto
    show thesis
    proof (rule recv_quiet [OF p(1), of 1])
      fix w assume w: "recv 1 (feed s) = (Failed EAGAIN, w)" "quiet w" "arriving w = arriving (feed s)"
        "feed s \<noteq> [] \<Longrightarrow> weight w < weight (feed s)"
      have "feed s \<noteq> []" using p(7) h' by auto
      with w have less: "weight w < weight (feed s)" by blast
      obtain s' where s': "getch s = Some (-22, None, s')" "at (length D) s' h 0 []" "feed s' = w" "rest s' = rest s"
        using getch_blocked [OF at short w(1), of "length D"] by auto
      have "reading s' H D beyond 0"
        unfolding reading_def using p w s' d
        by (intro conjI exI [of _ h] exI [of _ h'] exI [of _ "[]"] exI [of _ d']) auto
      with interrupted [of s'] s' less show thesis by simp
    next
      fix bs w assume w: "recv 1 (feed s) = (Got bs, w)" "bs \<noteq> []" "length bs \<le> 1" "quiet w"
        "arriving (feed s) = bs @ arriving w" "weight w < weight (feed s)"
      then have bs: "bs = [c]" "arriving w = h'' @ d' @ beyond"
        using p(7) h' by (cases bs; simp)+
      obtain s' where s': "getch s = Some (0, Some c, s')" "at (length D) s' (h @ [c]) (Suc (length h)) []"
        "feed s' = w" "rest s' = rest s"
        using getch_new [OF at short w(1) [unfolded bs], of "length D"] by auto
      have "reading s' H D beyond (Suc i)"
        unfolding reading_def using p w s' d bs h' ih
        by (intro conjI exI [of _ "h @ [c]"] exI [of _ h''] exI [of _ "[]"] exI [of _ d']) auto
      moreover have "H ! i = c" using p(2) h' ih by simp
      ultimately show thesis using complete [of s'] s' w(6) by simp
    qed simp
  qed
qed

text \<open>The remaining length.\<close>

lemma reading_decode:
  assumes "reading s H D beyond (length pre)" "H = pre @ vbi k" "length H \<le> 5" "length (vbi k) \<le> left"
  obtains (complete) s' where "MQTTPacket_decode_loop getch left m v s = Some (0, v + k * m, s')"
      "reading s' H D beyond (length H)" "weight (feed s') \<le> weight (feed s)" "rest s' = rest s"
  | (interrupted) v' s' where "MQTTPacket_decode_loop getch left m v s = Some (-22, v', s')"
      "reading s' H D beyond 0" "weight (feed s') < weight (feed s)" "rest s' = rest s"
  using assms
proof (induction k arbitrary: thesis s pre left m v rule: vbi.induct)
  case (1 k)
  obtain left' where left: "left = Suc left'" using "1.prems"(6) by (cases left) auto
  let ?c = "H ! length pre"
  have i: "length pre < length H" using "1.prems"(4) by simp
  have c: "?c = (if k < 128 then word_of_nat k else word_of_nat (k mod 128) OR 128)"
    using "1.prems"(4) by (cases "k < 128") (simp_all add: vbi.simps [of k])
  show ?case
  proof (rule reading_getch [OF "1.prems"(3) i "1.prems"(5)])
    fix s1 assume s1: "getch s = Some (-22, None, s1)" "reading s1 H D beyond 0"
      "weight (feed s1) < weight (feed s)" "rest s1 = rest s"
    then show ?thesis using "1.prems"(2) [of v s1] by (simp add: left)
  next
    fix s1 assume s1: "getch s = Some (0, Some ?c, s1)" "reading s1 H D beyond (Suc (length pre))"
      "weight (feed s1) \<le> weight (feed s)" "rest s1 = rest s"
    show ?thesis
    proof (cases "k < 128")
      case True
      then have "Suc (length pre) = length H" using "1.prems"(4) by (simp add: vbi.simps [of k])
      with s1 True c vbi_digit [OF True] "1.prems"(1) [of s1] show ?thesis by (simp add: left)
    next
      case False
      have H: "H = (pre @ [?c]) @ vbi (k div 128)"
        using "1.prems"(4) c False by (simp add: vbi.simps [of k])
      have len: "length (vbi (k div 128)) \<le> left'"
        using "1.prems"(6) False left by (simp add: vbi.simps [of k])
      have dig: "unat (?c AND 127) = k mod 128" "?c AND 128 \<noteq> 0"
        using vbi_digit(3,4) [of "k mod 128"] c False by simp_all
      have run: "MQTTPacket_decode_loop getch left m v s =
          MQTTPacket_decode_loop getch left' (m * 128) (v + k mod 128 * m) s1"
        using s1(1) dig by (simp add: left)
      have val: "v + k mod 128 * m + k div 128 * (m * 128) = v + k * m"
      proof -
        have "v + k mod 128 * m + k div 128 * (m * 128) = v + (k mod 128 + k div 128 * 128) * m"
          by (simp only: distrib_left distrib_right ac_simps)
        also have "\<dots> = v + k * m" by (simp only: mod_div_mult_eq)
        finally show ?thesis .
      qed
      have r1: "reading s1 H D beyond (length (pre @ [?c]))" using s1(2) by simp
      show ?thesis
      proof (rule "1.IH" [OF False _ _ r1 H "1.prems"(5) len])
        fix s2 assume "MQTTPacket_decode_loop getch left' (m * 128) (v + k mod 128 * m) s1 =
            Some (0, v + k mod 128 * m + k div 128 * (m * 128), s2)" "reading s2 H D beyond (length H)"
          "weight (feed s2) \<le> weight (feed s1)" "rest s2 = rest s1"
        then show ?thesis using "1.prems"(1) [of s2] run s1(3,4) val by simp
      next
        fix v' s2 assume "MQTTPacket_decode_loop getch left' (m * 128) (v + k mod 128 * m) s1 = Some (-22, v', s2)"
          "reading s2 H D beyond 0" "weight (feed s2) < weight (feed s1)" "rest s2 = rest s1"
        then show ?thesis using "1.prems"(2) [of v' s2] run s1(3,4) by simp
      qed
    qed
  qed
qed

text \<open>The data.\<close>

lemma reading_getdata:
  assumes r: "reading s H D beyond (length H)"
  obtains (complete) buf rc s' where "getdata (length D) 0 s = Some (buf, length D * of_bool (D \<noteq> []), rc, s')"
      "D \<noteq> [] \<Longrightarrow> \<exists>m. buf = Some m \<and> holds m D" "at 0 s' [] 0 []" "quiet (feed s')" "arriving (feed s') = beyond"
      "weight (feed s') \<le> weight (feed s)" "rest s' = rest s"
  | (interrupted) buf al rc s' where "getdata (length D) 0 s = Some (Some buf, al, rc, s')" "al < length D"
      "reading s' H D beyond 0" "weight (feed s') < weight (feed s)" "rest s' = rest s"
proof -
  obtain h h' d d' where p: "quiet (feed s)" "H = h @ h'" "D = d @ d'" "at (length D) s h (length H) d"
    "D \<noteq> [] \<longrightarrow> d' \<noteq> []" "arriving (feed s) = h' @ d' @ beyond"
    using r unfolding reading_def by blast
  have h: "h' = []" "H = h" using at_seen [OF p(4)] p(2) by (auto simp: p(2))
  have at: "at (length D) s h (length h) d" using p(4) h by simp
  show thesis
  proof (cases "D = []")
    case True
    then have "at (length D) s h (length h) []" using at p(3) by simp
    then obtain buf s' where "getdata 0 0 s = Some (buf, 0, None, s')" "at 0 s' [] 0 []"
      "feed s' = feed s" "rest s' = rest s"
      using getdata_none [of "length D" s h 0 0] by blast
    with complete [of buf None s'] True p h show thesis by simp
  next
    case False
    then have d: "length d < length D" "d' \<noteq> []" using p(3,5) by auto
    show thesis
    proof (rule recv_quiet [OF p(1), of "length D - length d"])
      fix w assume w: "recv (length D - length d) (feed s) = (Failed EAGAIN, w)" "quiet w"
        "arriving w = arriving (feed s)" "feed s \<noteq> [] \<Longrightarrow> weight w < weight (feed s)"
      have less: "weight w < weight (feed s)" using w(4) p(6) d(2) by (cases "feed s = []") auto
      obtain buf rc s' where s': "getdata (length D) 0 s = Some (Some buf, length d, rc, s')"
        "at (length D) s' h 0 d" "feed s' = w" "rest s' = rest s"
        using getdata_blocked [OF at d(1) w(1), of 0] by blast
      have "reading s' H D beyond 0"
        unfolding reading_def using p w s' h
        by (intro conjI exI [of _ h] exI [of _ "[]"] exI [of _ d] exI [of _ d']) auto
      with interrupted [OF s'(1) d(1)] s' less show thesis by simp
    next
      fix bs w assume w: "recv (length D - length d) (feed s) = (Got bs, w)" "bs \<noteq> []"
        "length bs \<le> length D - length d" "quiet w" "arriving (feed s) = bs @ arriving w" "weight w < weight (feed s)"
      have len: "length bs \<le> length d'" using w(3) p(3) by simp
      have bs: "bs = take (length bs) d'" "arriving w = drop (length bs) d' @ beyond"
      proof -
        have "bs @ arriving w = d' @ beyond" using w(5) p(6) h by simp
        with len have "take (length bs) (d' @ beyond) = bs" "drop (length bs) (d' @ beyond) = arriving w"
          by (metis append_eq_conv_conj)+
        with len show "bs = take (length bs) d'" "arriving w = drop (length bs) d' @ beyond" by simp_all
      qed
      show thesis
      proof (cases "length d + length bs = length D")
        case True
        then have all: "bs = d'" "arriving w = beyond" using bs p(3) by (auto simp: len)
        obtain buf rc s' where s': "getdata (length D) 0 s = Some (Some buf, length D, rc, s')" "holds buf (d @ bs)"
          "at 0 s' [] 0 []" "feed s' = w" "rest s' = rest s"
          using getdata_all [OF at w(1,2) True, of 0 0] by blast
        with complete [of "Some buf" rc s'] False all p(3) w(4,6) show thesis by simp
      next
        case partly: False
        then have part: "length d + length bs < length D" using w(3) d(1) by simp
        obtain buf rc s' where s': "getdata (length D) 0 s = Some (Some buf, length d + length bs, rc, s')"
          "at (length D) s' h 0 (d @ bs)" "feed s' = w" "rest s' = rest s"
          using getdata_part [OF at w(1,2) part, of 0] by blast
        have "D = (d @ bs) @ drop (length bs) d'" using p(3) bs(1) by (metis append.assoc append_take_drop_id)
        moreover have "drop (length bs) d' \<noteq> []" using part p(3) by simp
        ultimately have "reading s' H D beyond 0"
          unfolding reading_def using s' w bs(2) h
          by (intro conjI exI [of _ h] exI [of _ "[]"] exI [of _ "d @ bs"] exI [of _ "drop (length bs) d'"]) auto
        with interrupted [OF s'(1) part] s' w(6) show thesis by simp
      qed
    qed (use d in simp)
  qed
qed

end

section \<open>The factory on such a connection\<close>

context packet_source
begin

text \<open>One call either reads the whole packet and leaves the connection at the start of the next, or is
  interrupted and can go on.\<close>

lemma reading_Factory:
  assumes r: "reading s (header # vbi (length D)) D beyond 0" and small: "length D < 268435456"
    and d: "dispatch MQTTVersion header D ms = Some (pack, error, ms')"
  obtains (complete) s' where "MQTTPacket_Factory getch getdata MQTTVersion ms s = Some (pack, error, ms', s')"
      "at 0 s' [] 0 []" "quiet (feed s')" "arriving (feed s') = beyond" "rest s' = rest s"
  | (interrupted) s' where "MQTTPacket_Factory getch getdata MQTTVersion ms s = Some (None, -22, ms, s')"
      "reading s' (header # vbi (length D)) D beyond 0" "weight (feed s') < weight (feed s)" "rest s' = rest s"
proof -
  let ?H = "header # vbi (length D)"
  have len: "length ?H \<le> 5" "length (vbi (length D)) \<le> 4" using length_vbi_le [OF small] by simp_all
  show thesis
  proof (rule reading_getch [OF r _ len(1)])
    fix s1 assume "getch s = Some (-22, None, s1)" "reading s1 ?H D beyond 0"
      "weight (feed s1) < weight (feed s)" "rest s1 = rest s"
    then show thesis using interrupted [of s1] by (simp add: MQTTPacket_Factory_def)
  next
    fix s1 assume s1: "getch s = Some (0, Some (?H ! 0), s1)" "reading s1 ?H D beyond (Suc 0)"
      "weight (feed s1) \<le> weight (feed s)" "rest s1 = rest s"
    have r1: "reading s1 ?H D beyond (length [header])" using s1(2) by simp
    have H: "?H = [header] @ vbi (length D)" by simp
    show thesis
    proof (rule reading_decode [OF r1 H len, of 1 0])
      fix v' s2 assume "MQTTPacket_decode_loop getch 4 1 0 s1 = Some (-22, v', s2)" "reading s2 ?H D beyond 0"
        "weight (feed s2) < weight (feed s1)" "rest s2 = rest s1"
      then show thesis using interrupted [of s2] s1
        by (simp add: MQTTPacket_Factory_def MQTTPacket_decode_def)
    next
      fix s2 assume s2: "MQTTPacket_decode_loop getch 4 1 0 s1 = Some (0, 0 + length D * 1, s2)"
        "reading s2 ?H D beyond (length ?H)" "weight (feed s2) \<le> weight (feed s1)" "rest s2 = rest s1"
      show thesis
      proof (rule reading_getdata [OF s2(2)])
        fix buf al rc s3 assume "getdata (length D) 0 s2 = Some (Some buf, al, rc, s3)" "al < length D"
          "reading s3 ?H D beyond 0" "weight (feed s3) < weight (feed s2)" "rest s3 = rest s2"
        then show thesis using interrupted [of s3] s1 s2
          by (simp add: MQTTPacket_Factory_def MQTTPacket_decode_def)
      next
        fix buf rc s3 assume s3: "getdata (length D) 0 s2 = Some (buf, length D * of_bool (D \<noteq> []), rc, s3)"
          "D \<noteq> [] \<Longrightarrow> \<exists>m. buf = Some m \<and> holds m D" "at 0 s3 [] 0 []" "quiet (feed s3)"
          "arriving (feed s3) = beyond" "weight (feed s3) \<le> weight (feed s2)" "rest s3 = rest s2"
        have "MQTTPacket_Factory getch getdata MQTTVersion ms s = Some (pack, error, ms', s3)"
        proof (cases "D = []")
          case True
          then show ?thesis using s1(1) s2(1) s3(1) d
            by (simp add: MQTTPacket_Factory_def MQTTPacket_decode_def)
        next
          case False
          then obtain m where "buf = Some m" "holds m D" using s3(2) by blast
          then show ?thesis using False s1(1) s2(1) s3(1) d load_bytes_holds [of m D]
            by (simp add: MQTTPacket_Factory_def MQTTPacket_decode_def)
        qed
        with complete [of s3] s1 s2 s3 show thesis by simp
      qed
    qed
  qed simp
qed

lemma dispatch_error: "dispatch MQTTVersion header D ms = Some (pack, error, ms') \<Longrightarrow> error = 0 \<or> error = -1"
  by (auto simp: dispatch_def Let_def split: if_splits option.splits Option.bind_splits)

text \<open>Enough calls read the packet: each interruption uses up some of what the kernel had to say.\<close>

lemma reading_completes:
  assumes "reading s (header # vbi (length D)) D beyond 0" "length D < 268435456"
    "dispatch MQTTVersion header D ms = Some (pack, error, ms')" "weight (feed s) < k"
  shows "\<exists>s'. read_packet getch getdata MQTTVersion k ms s = Some (pack, error, ms', s') \<and>
    at 0 s' [] 0 [] \<and> quiet (feed s') \<and> arriving (feed s') = beyond \<and> rest s' = rest s"
  using assms
proof (induction k arbitrary: s)
  case (Suc k)
  show ?case
  proof (rule reading_Factory [OF Suc.prems(1-3)])
    fix s1 assume "MQTTPacket_Factory getch getdata MQTTVersion ms s = Some (pack, error, ms', s1)"
      "at 0 s1 [] 0 []" "quiet (feed s1)" "arriving (feed s1) = beyond" "rest s1 = rest s"
    then show ?thesis using dispatch_error [OF Suc.prems(3)] by auto
  next
    fix s1 assume s1: "MQTTPacket_Factory getch getdata MQTTVersion ms s = Some (None, -22, ms, s1)"
      "reading s1 (header # vbi (length D)) D beyond 0" "weight (feed s1) < weight (feed s)" "rest s1 = rest s"
    with Suc.IH [OF s1(2) Suc.prems(2,3)] Suc.prems(4) show ?thesis by simp
  qed
qed simp

end

section \<open>The properties\<close>

text \<open>C5: A packet of any type with up to 268435455 bytes of data arrives on a socket, followed by
  anything, in chunks of any size and with any number of "would block" answers in between.  Calling
  \<open>MQTTPacket_Factory\<close> as often as it says it was interrupted ends, after at most as many calls as the
  kernel has answers, with the packet that the parser makes of exactly these bytes; the bytes behind
  the packet are still to be read and in order; the socket's buffers are back in their initial state;
  and a packet that is being read on any other socket is not disturbed.\<close>

theorem packet_survives_fragmentation:
  assumes "plain_at sock 0 s [] 0 []" "quiet (wire s sock)"
    "arriving (wire s sock) = packet_bytes header D @ beyond" "length D < 268435456"
    "dispatch MQTTVersion header D ms = Some (pack, error, ms')"
  shows "\<exists>s'. read_packet (Socket_getch sock) (Socket_getdata sock) MQTTVersion (Suc (weight (wire s sock))) ms s
      = Some (pack, error, ms', s') \<and>
    plain_at sock 0 s' [] 0 [] \<and> quiet (wire s' sock) \<and> arriving (wire s' sock) = beyond \<and>
    (\<forall>t n h d. t \<noteq> sock \<longrightarrow> plain_at t n s h 0 d \<longrightarrow> plain_at t n s' h 0 d \<and> wire s' t = wire s t)"
proof -
  have "plain.reading sock s (header # vbi (length D)) D beyond 0"
    using assms(1-3) by (intro plain.reading_start) (simp_all add: packet_bytes_def)
  from plain.reading_completes [OF this assms(4,5), of "Suc (weight (wire s sock))"] obtain s'
    where s': "read_packet (Socket_getch sock) (Socket_getdata sock) MQTTVersion (Suc (weight (wire s sock))) ms s
      = Some (pack, error, ms', s')" "plain_at sock 0 s' [] 0 []" "quiet (wire s' sock)"
      "arriving (wire s' sock) = beyond" "plain_rest sock s' = plain_rest sock s"
    by auto
  with plain_at_other [OF _ assms(1) s'(2,5)] show ?thesis by blast
qed

definition demo_sockets :: sockets where
  "demo_sockets = \<lparr>sb = idle_sockbuf,
     wire = (\<lambda>_. [])(7 := [Chunk [0x40], Fail EAGAIN, Chunk [2, 1], Fail EAGAIN, Fail EAGAIN, Chunk [44, 0x20]])\<rparr>"

theorem packet_survives_fragmentation_witness:
  "\<exists>s'. read_packet (Socket_getch 7) (Socket_getdata 7) 4 12 [] demo_sockets
     = Some (Some (Ack_packet \<lparr>ack_header = 0x40, ack_msgId = Some 300, ack_version = 4\<rparr>), 0, [], s') \<and>
     arriving (wire s' 7) = [0x20]"
proof -
  have at: "plain_at 7 0 demo_sockets [] 0 []"
    by (rule plain_at_initial) (simp_all add: demo_sockets_def)
  have w: "wire demo_sockets 7 = [Chunk [0x40], Fail EAGAIN, Chunk [2, 1], Fail EAGAIN, Fail EAGAIN, Chunk [44, 0x20]]"
    by (simp add: demo_sockets_def)
  have q: "quiet (wire demo_sockets 7)" by (simp add: w)
  have a: "arriving (wire demo_sockets 7) = packet_bytes 0x40 [1, 44] @ [0x20]"
    by (simp add: w packet_bytes_def vbi.simps)
  have small: "length [1, 44 :: byte] < 268435456" by simp
  have d: "dispatch 4 0x40 [1, 44] [] =
      Some (Some (Ack_packet \<lparr>ack_header = 0x40, ack_msgId = Some 300, ack_version = 4\<rparr>), 0, [])"
    by (simp add: dispatch_def Let_def h_type_def new_packets_def nth_opt_def build_def MQTTPacket_ack_def
        readInt_def CONNECT_def DISCONNECT_def AUTH_def)
  have n: "Suc (weight (wire demo_sockets 7)) = 12" by (simp add: w)
  from packet_survives_fragmentation [OF at q a small d] show ?thesis
    unfolding n by blast
qed

end
