(* ===== verification/PacketCodec.thy ===== *)
theory PacketCodec
  imports PacketReader
begin

text \<open>
  What the builders and parsers of \<^verbatim>\<open>src/src/MQTTPacket.c\<close> do, as properties: the bytes of each
  packet the client sends, the packet the parsers make of bytes, that no parser reads outside its
  data, and the types for which the factory has no parser.
\<close>

section \<open>Facts about the parsers\<close>

lemma publish_header_fields:
  "h_type (publish_header dup qos retained) = 3" "h_qos (publish_header dup qos retained) = qos mod 4"
  "h_dup (publish_header dup qos retained) = dup mod 2" "h_retain (publish_header dup qos retained) = retained mod 2"
  unfolding publish_header_def h_type_def h_qos_def h_dup_def h_retain_def header_fields low_bits PUBLISH_def
  by simp_all

lemma readInt_front: "0 \<le> i \<Longrightarrow> i < 65536 \<Longrightarrow> readInt (be16 i @ ys) 0 = Some (i, 2)"
  using readInt_be16 [of i "[]" ys] by simp

lemma parse_publish:
  assumes "length topic < 65536" "0 \<le> msgId" "msgId < 65536" "h_qos header > 0"
  shows "MQTTPacket_publish v header (be16 (int (length topic)) @ topic @ be16 msgId @ payload) [] =
    Some (Some \<lparr>pub_header = header, pub_topic = topic, pub_topiclen = int (length topic), pub_msgId = msgId,
      pub_payload = payload, pub_payloadlen = int (length payload), pub_version = v,
      pub_properties = MQTTProperties_initializer\<rparr>, [])"
proof -
  have r1: "readUTFlen (be16 (int (length topic)) @ topic @ be16 msgId @ payload) 0 0 [] =
      Some (Some topic, int (length topic), 2 + length topic, [])"
    using readUTFlen_string [OF assms(1), of "[]" "be16 msgId @ payload" 0] by simp
  have r2: "readInt (be16 (int (length topic)) @ topic @ be16 msgId @ payload) (2 + length topic) =
      Some (msgId, 4 + length topic)"
    using readInt_be16 [OF assms(2,3), of "be16 (int (length topic)) @ topic" payload] by simp
  show ?thesis
    using assms(4) by (simp add: MQTTPacket_publish_def r1 r2 [simplified])
qed

text \<open>No parser reads outside its data.\<close>

lemma publish_safe: "\<exists>p ms'. MQTTPacket_publish v header data ms = Some (p, ms')"
proof -
  obtain ok ms1 where ms: "next_malloc ms = (ok, ms1)" by fastforce
  obtain t len' cur ms2 where r: "readUTFlen data 0 0 ms1 = Some (t, len', cur, ms2)" "cur \<le> length data"
    using readUTFlen_safe [of data 0 0 ms1] by auto
  show ?thesis
  proof (cases "length data - cur < 2")
    case True
    then show ?thesis using ms r by (auto simp: MQTTPacket_publish_def Let_def split: option.split)
  next
    case False
    then have "cur + 2 \<le> length data" by simp
    then obtain i where "readInt data cur = Some (i, cur + 2)" using readInt_defined by blast
    with ms r False show ?thesis by (auto simp: MQTTPacket_publish_def Let_def split: option.split)
  qed
qed

lemma ack_safe: "\<exists>p ms'. MQTTPacket_ack v header data ms = Some (p, ms')"
proof (cases "length data < 2")
  case False
  then obtain i where "readInt data 0 = Some (i, 0 + 2)" using readInt_defined [of 0 data] by auto
  then show ?thesis by (auto simp: MQTTPacket_ack_def Let_def split: prod.split)
qed (auto simp: MQTTPacket_ack_def Let_def split: prod.split)

lemma connack_safe: "\<exists>p ms'. MQTTPacket_connack v header data ms = Some (p, ms')"
  by (auto simp: MQTTPacket_connack_def readChar_def nth_opt_def Let_def split: prod.split)

lemma suback_codes_read:
  "cur \<le> length data \<Longrightarrow> suback_codes data cur l [] = Some (l\<lparr>items := items l @ drop cur data\<rparr>, [])"
proof (induction "length data - cur" arbitrary: cur l)
  case 0
  then show ?case by (simp add: suback_codes.simps)
next
  case (Suc n)
  then have "cur < length data" "n = length data - (cur + 1)" by simp_all
  with Suc.hyps(1) [of "cur + 1" "a_append (data ! cur) l"] show ?case
    by (simp add: suback_codes.simps [of data cur] readChar_def nth_opt_def a_append_def Cons_nth_drop_Suc)
qed

lemma suback_parsed:
  assumes "0 \<le> msgId" "msgId < 65536" "rcs \<noteq> []"
  shows "MQTTPacket_suback v header (be16 msgId @ rcs) [] =
    Some (Some \<lparr>sa_header = header, sa_msgId = msgId, sa_version = v,
      sa_qoss = \<lparr>items = rcs, cursor = None\<rparr>\<rparr>, [])"
  using assms readInt_front [OF assms(1,2), of rcs] suback_codes_read [of 2 "be16 msgId @ rcs" empty_alist]
  by (simp add: MQTTPacket_suback_def empty_alist_def)

section \<open>The properties: what is sent\<close>

text \<open>C9: The CONNECT packet.  With memory available the client hands exactly one packet to the socket
  layer: the fixed header 0x10 with the right remaining length, the protocol name, the version, flags
  that say whether user name and password follow, the keep alive interval, the client id, and user
  name and password when there are any; the buffer whose size the code computes in advance is filled
  to the last byte and never overrun.  Without memory for the buffer nothing is sent and the result
  is an error.\<close>

theorem connect_packet_correct:
  assumes "connect_ok c"
  shows "sent (\<lambda>put. MQTTPacket_send_connect put c MQTTVersion) = Some (packet_bytes 0x10 (connect_body c MQTTVersion)) \<and>
    MQTTPacket_send_connect putdatas c MQTTVersion [False] s = Some (SOCKET_ERROR, [], s)"
proof
  show "sent (\<lambda>put. MQTTPacket_send_connect put c MQTTVersion) = Some (packet_bytes 0x10 (connect_body c MQTTVersion))"
    by (simp add: sent_def connect_bytes [OF assms] packet_bytes_def)
  show "MQTTPacket_send_connect putdatas c MQTTVersion [False] s = Some (SOCKET_ERROR, [], s)"
    using assms by (auto simp: MQTTPacket_send_connect_def Let_def connect_ok_def split: option.splits)
qed

definition demo_client :: connect_client where
  "demo_client = \<lparr>cc_clientID = [99, 49], cc_username = Some [117], cc_password = Some [1, 0, 2],
     cc_passwordlen = 3, cc_keepAliveInterval = 300\<rparr>"

theorem connect_packet_correct_witness:
  "sent (\<lambda>put. MQTTPacket_send_connect put demo_client 4) = Some
     ([0x10, 22] @ [0, 4, 77, 81, 84, 84, 4, 0xC0, 1, 44] @ [0, 2, 99, 49] @ [0, 1, 117] @ [0, 3, 1, 0, 2])"
proof -
  have ok: "connect_ok demo_client" by (simp add: connect_ok_def demo_client_def)
  have body: "connect_body demo_client 4 =
      [0, 4, 77, 81, 84, 84, 4, 0xC0, 1, 44] @ [0, 2, 99, 49] @ [0, 1, 117] @ [0, 3, 1, 0, 2]"
    by (simp add: connect_body_def demo_client_def utf_field_def be16_def strlen_def)
  show ?thesis
    using conjunct1 [OF connect_packet_correct [OF ok, of 4]]
    unfolding body packet_bytes_def by (simp add: vbi.simps)
qed

text \<open>C10: The SUBSCRIBE packet.  For topics and qualities of service of equal number the client sends
  the fixed header 0x82, the remaining length, the message id and for each topic in order its string
  and its quality of service, and nothing else; with fewer qualities of service than topics the code
  dereferences a null pointer.\<close>

theorem subscribe_packet_correct:
  "(length topics = length qoss \<and> 0 \<le> msgid \<longrightarrow>
      sent (\<lambda>put. MQTTPacket_send_subscribe put topics qoss msgid 0) =
        Some (packet_bytes 0x82 (subscribe_body msgid topics qoss))) \<and>
   (length qoss < length topics \<longrightarrow>
      sent (\<lambda>put. MQTTPacket_send_subscribe put topics qoss msgid 0) = None)"
proof (intro conjI impI)
  assume "length topics = length qoss \<and> 0 \<le> msgid"
  then show "sent (\<lambda>put. MQTTPacket_send_subscribe put topics qoss msgid 0) =
      Some (packet_bytes 0x82 (subscribe_body msgid topics qoss))"
    by (simp add: sent_def subscribe_bytes packet_bytes_def)
next
  have none: "length qs < length ts \<Longrightarrow> write_topics ts qs w = None" for ts qs w
  proof (induction ts qs w rule: write_topics.induct)
    case (3 t ts q qs w)
    then show ?case by (auto split: Option.bind_splits)
  qed simp_all
  assume "length qoss < length topics"
  then show "sent (\<lambda>put. MQTTPacket_send_subscribe put topics qoss msgid 0) = None"
    by (auto simp: sent_def MQTTPacket_send_subscribe_def Let_def none split: Option.bind_splits)
qed

theorem subscribe_packet_correct_witness:
  "sent (\<lambda>put. MQTTPacket_send_subscribe put [[97, 47, 98], [99]] [1, 2] 10 0)
    = Some [0x82, 12, 0, 10, 0, 3, 97, 47, 98, 1, 0, 1, 99, 2] \<and>
   sent (\<lambda>put. MQTTPacket_send_subscribe put [[97, 47, 98], [99]] [1] 10 0) = None"
  using subscribe_packet_correct [of "[[97, 47, 98], [99]]" "[1, 2]" 10]
    subscribe_packet_correct [of "[[97, 47, 98], [99]]" "[1]" 10]
  by (simp add: packet_bytes_def subscribe_body_def utf_field_def strlen_def be16_def vbi.simps)

section \<open>The properties: what is received\<close>

lemma plain_reads:
  assumes "plain_at sock 0 s [] 0 []" "quiet (wire s sock)"
    "arriving (wire s sock) = packet_bytes header D @ beyond" "length D < 268435456"
    "dispatch v header D ms = Some (pack, error, ms')"
  shows "\<exists>s'. read_packet (Socket_getch sock) (Socket_getdata sock) v (Suc (weight (wire s sock))) ms s
      = Some (pack, error, ms', s') \<and> arriving (wire s' sock) = beyond"
proof -
  have "plain.reading sock s (header # vbi (length D)) D beyond 0"
    using assms(1-3) by (intro plain.reading_start) (simp_all add: packet_bytes_def)
  from plain.reading_completes [OF this assms(4,5), of "Suc (weight (wire s sock))"] show ?thesis by auto
qed

lemma h_type_range: "0 \<le> h_type h \<and> h_type h \<le> 15"
proof -
  have "uint (drop_bit 4 h) = uint h div 16" by (simp add: drop_bit_eq_div uint_div)
  moreover have "0 \<le> uint h" "uint h < 256" using uint_lt2p [of h] by simp_all
  ultimately show ?thesis
    using zdiv_mono1 [of "uint h" 255 16] by (simp add: h_type_def pos_imp_zdiv_nonneg_iff)
qed

lemma dispatch_publish:
  "h_type header = 3 \<Longrightarrow> MQTTPacket_publish v header data ms = Some (Some p, ms') \<Longrightarrow>
   dispatch v header data ms = Some (Some (Publish_packet p), 0, ms')"
  by (simp add: dispatch_def Let_def new_packets_def nth_opt_def build_def CONNECT_def DISCONNECT_def AUTH_def)

text \<open>C6: Round trip of a message.  What \<open>MQTTPacket_send_publish\<close> sends for a message of quality of
  service 1 or 2 (before MQTT 5) arrives, through any fragmentation, as a PUBLISH with the same topic,
  message id and payload, byte for byte, the same quality of service, the same duplicate and retain
  flags; the stream behind it is intact.\<close>

theorem publish_roundtrip:
  assumes send: "sent (\<lambda>put. MQTTPacket_send_publish put p dup qos retained) = Some bytes"
    and p: "pub_version p < 5" "qos = 1 \<or> qos = 2" "dup = 0 \<or> dup = 1" "retained = 0 \<or> retained = 1"
      "0 \<le> pub_msgId p" "pub_msgId p < 65536" "0 \<notin> set (pub_topic p)" "length (pub_topic p) < 65536"
      "pub_payloadlen p = int (length (pub_payload p))" "length (pub_payload p) < 268000000"
    and s: "plain_at sock 0 s [] 0 []" "quiet (wire s sock)" "arriving (wire s sock) = bytes @ beyond"
  shows "\<exists>q s'. read_packet (Socket_getch sock) (Socket_getdata sock) v (Suc (weight (wire s sock))) [] s
      = Some (Some (Publish_packet q), 0, [], s') \<and>
    pub_topic q = pub_topic p \<and> pub_topiclen q = int (length (pub_topic p)) \<and> pub_msgId q = pub_msgId p \<and>
    pub_payload q = pub_payload p \<and> pub_payloadlen q = pub_payloadlen p \<and>
    h_qos (pub_header q) = qos \<and> h_dup (pub_header q) = dup \<and> h_retain (pub_header q) = retained \<and>
    arriving (wire s' sock) = beyond"
proof -
  let ?h = "publish_header dup qos retained"
  have "takeWhile (\<lambda>b. b \<noteq> 0) (pub_topic p) = pub_topic p"
    using p(7) by (subst takeWhile_eq_all_conv) auto
  then have len: "strlen (pub_topic p) = length (pub_topic p)" unfolding strlen_def by (rule arg_cong)
  have ok: "publish_ok p qos" using p len by (auto simp: publish_ok_def)
  have body: "publish_body p qos = be16 (int (length (pub_topic p))) @ pub_topic p @ be16 (pub_msgId p) @ pub_payload p"
    using p len by (auto simp: publish_body_def utf_field_def publish_extra_def)
  have "bytes = packet_bytes ?h (publish_body p qos)"
    using send by (simp add: sent_def publish_bytes [OF ok] packet_bytes_def publish_body_def utf_field_def)
  then have arr: "arriving (wire s sock) = packet_bytes ?h (publish_body p qos) @ beyond" using s(3) by simp
  have small: "length (publish_body p qos) < 268435456" using p(8,10) by (simp add: body)
  have fields: "h_type ?h = 3" "h_qos ?h = qos" "h_dup ?h = dup" "h_retain ?h = retained"
    using p(2-4) by (auto simp: publish_header_fields)
  have parse: "MQTTPacket_publish v ?h (publish_body p qos) [] =
      Some (Some \<lparr>pub_header = ?h, pub_topic = pub_topic p, pub_topiclen = int (length (pub_topic p)),
        pub_msgId = pub_msgId p, pub_payload = pub_payload p, pub_payloadlen = int (length (pub_payload p)),
        pub_version = v, pub_properties = MQTTProperties_initializer\<rparr>, [])"
    unfolding body using p fields by (intro parse_publish) auto
  from plain_reads [OF s(1,2) arr small dispatch_publish [OF fields(1) parse]] fields p(9) show ?thesis
    by fastforce
qed

definition demo_publish :: Publish where
  "demo_publish = \<lparr>pub_header = 0, pub_topic = [97], pub_topiclen = 1, pub_msgId = 9, pub_payload = [0, 255],
     pub_payloadlen = 2, pub_version = 4, pub_properties = MQTTProperties_initializer\<rparr>"

definition demo_feed :: "recv_event list \<Rightarrow> sockets" where
  "demo_feed es = \<lparr>sb = idle_sockbuf, wire = (\<lambda>_. [])(7 := es)\<rparr>"

theorem publish_roundtrip_witness:
  "\<exists>q s'. read_packet (Socket_getch 7) (Socket_getdata 7) 4 13 []
       (demo_feed [Chunk [0x33, 7, 0], Fail EAGAIN, Chunk [1, 97, 0, 9, 0, 255]])
     = Some (Some (Publish_packet q), 0, [], s') \<and>
    pub_topic q = [97] \<and> pub_msgId q = 9 \<and> pub_payload q = [0, 255] \<and> h_qos (pub_header q) = 1"
proof -
  let ?s = "demo_feed [Chunk [0x33, 7, 0], Fail EAGAIN, Chunk [1, 97, 0, 9, 0, 255]]"
  have sent: "sent (\<lambda>put. MQTTPacket_send_publish put demo_publish 0 1 1) = Some [0x33, 7, 0, 1, 97, 0, 9, 0, 255]"
  proof -
    have ok: "publish_ok demo_publish 1" by (simp add: publish_ok_def demo_publish_def strlen_def)
    have "publish_header 0 1 1 = 0x33"
      by (simp add: publish_header_def set_retain_def set_qos_def set_dup_def set_type_def PUBLISH_def)
    moreover have "publish_body demo_publish 1 = [0, 1, 97, 0, 9, 0, 255]"
      by (simp add: publish_body_def publish_extra_def utf_field_def demo_publish_def be16_def strlen_def)
    moreover have "sent (\<lambda>put. MQTTPacket_send_publish put demo_publish 0 1 1) =
        Some (packet_bytes (publish_header 0 1 1) (publish_body demo_publish 1))"
      by (simp add: sent_def publish_bytes [OF ok] packet_bytes_def publish_body_def utf_field_def)
    ultimately show ?thesis by (simp add: packet_bytes_def vbi.simps)
  qed
  have at: "plain_at 7 0 ?s [] 0 []" by (rule plain_at_initial) (simp_all add: demo_feed_def)
  have w: "wire ?s 7 = [Chunk [0x33, 7, 0], Fail EAGAIN, Chunk [1, 97, 0, 9, 0, 255]]" by (simp add: demo_feed_def)
  have q: "quiet (wire ?s 7)" "arriving (wire ?s 7) = [0x33, 7, 0, 1, 97, 0, 9, 0, 255] @ []"
    "Suc (weight (wire ?s 7)) = 13" by (simp_all add: w)
  from publish_roundtrip [OF sent _ _ _ _ _ _ _ _ _ _ at q(1,2), of 4] show ?thesis
    unfolding q(3) by (auto simp: demo_publish_def)
qed

text \<open>C11: Round trip of an acknowledgement: what \<open>MQTTPacket_send_puback\<close> sends for a message id is
  parsed as an acknowledgement of type PUBACK with that message id, through any fragmentation.\<close>

theorem puback_roundtrip:
  assumes send: "sent (\<lambda>put. MQTTPacket_send_puback put msgid) = Some bytes" and id: "0 \<le> msgid" "msgid < 65536"
    and s: "plain_at sock 0 s [] 0 []" "quiet (wire s sock)" "arriving (wire s sock) = bytes @ beyond"
  shows "\<exists>s'. read_packet (Socket_getch sock) (Socket_getdata sock) v (Suc (weight (wire s sock))) [] s
      = Some (Some (Ack_packet \<lparr>ack_header = 0x40, ack_msgId = Some msgid, ack_version = v\<rparr>), 0, [], s') \<and>
    h_type 0x40 = PUBACK \<and> arriving (wire s' sock) = beyond"
proof -
  have vbi2: "vbi 2 = [2]" by (simp add: vbi.simps)
  have "bytes = packet_bytes 0x40 (be16 msgid)"
    using send by (simp add: sent_def puback_bytes [OF id(1)] packet_bytes_def vbi2)
  then have arr: "arriving (wire s sock) = packet_bytes 0x40 (be16 msgid) @ beyond" using s(3) by simp
  have type: "h_type 0x40 = 4" by (simp add: h_type_def)
  have "MQTTPacket_ack v 0x40 (be16 msgid) [] = Some (Some \<lparr>ack_header = 0x40, ack_msgId = Some msgid, ack_version = v\<rparr>, [])"
    using readInt_front [OF id, of "[]"] by (simp add: MQTTPacket_ack_def type DISCONNECT_def)
  then have "dispatch v 0x40 (be16 msgid) [] =
      Some (Some (Ack_packet \<lparr>ack_header = 0x40, ack_msgId = Some msgid, ack_version = v\<rparr>), 0, [])"
    by (simp add: dispatch_def Let_def type new_packets_def nth_opt_def build_def CONNECT_def DISCONNECT_def AUTH_def)
  from plain_reads [OF s(1,2) arr _ this] show ?thesis by (simp add: type PUBACK_def)
qed

theorem puback_roundtrip_witness:
  "\<exists>s'. read_packet (Socket_getch 7) (Socket_getdata 7) 4 7 [] (demo_feed [Chunk [0x40, 2], Chunk [1, 44]])
     = Some (Some (Ack_packet \<lparr>ack_header = 0x40, ack_msgId = Some 300, ack_version = 4\<rparr>), 0, [], s')"
proof -
  let ?s = "demo_feed [Chunk [0x40, 2], Chunk [1, 44]]"
  have sent: "sent (\<lambda>put. MQTTPacket_send_puback put 300) = Some [0x40, 2, 1, 44]"
    by (simp add: sent_def puback_bytes be16_def)
  have at: "plain_at 7 0 ?s [] 0 []" by (rule plain_at_initial) (simp_all add: demo_feed_def)
  have q: "quiet (wire ?s 7)" "arriving (wire ?s 7) = [0x40, 2, 1, 44] @ []" "Suc (weight (wire ?s 7)) = 7"
    by (simp_all add: demo_feed_def)
  from puback_roundtrip [OF sent _ _ at q(1,2), of 4] show ?thesis
    unfolding q(3) by auto
qed

text \<open>C7: Whatever a peer sends, the parsers of PUBLISH, acknowledgement and CONNACK packets never read
  outside the data of the packet, whether or not memory is available.  When the PUBLISH parser
  accepts, the data is exactly the two length bytes, the topic of the announced length, the message id
  if the quality of service says so, and the payload, whose length is right.\<close>

theorem parsers_memory_safe:
  "(\<exists>p ms'. MQTTPacket_publish v header data ms = Some (p, ms') \<and>
     (\<forall>q. p = Some q \<longrightarrow> (\<exists>pre. data = pre @ pub_payload q \<and>
        length pre = 2 + length (pub_topic q) + (if h_qos header > 0 then 2 else 0) \<and>
        pub_topic q = take (nat (pub_topiclen q)) (drop 2 data) \<and>
        pub_topiclen q = int (length (pub_topic q)) \<and> pub_payloadlen q = int (length (pub_payload q))))) \<and>
   (\<exists>p ms'. MQTTPacket_ack v header data ms = Some (p, ms')) \<and>
   (\<exists>p ms'. MQTTPacket_connack v header data ms = Some (p, ms'))"
proof (intro conjI ack_safe connack_safe)
  obtain p ms' where p: "MQTTPacket_publish v header data ms = Some (p, ms')" using publish_safe by blast
  have "\<exists>pre. data = pre @ pub_payload q \<and>
      length pre = 2 + length (pub_topic q) + (if h_qos header > 0 then 2 else 0) \<and>
      pub_topic q = take (nat (pub_topiclen q)) (drop 2 data) \<and>
      pub_topiclen q = int (length (pub_topic q)) \<and> pub_payloadlen q = int (length (pub_payload q))"
    if q: "p = Some q" for q
  proof -
    obtain ms1 where "next_malloc ms = (True, ms1)"
      using p q by (cases "next_malloc ms") (auto simp: MQTTPacket_publish_def split: if_splits)
    then obtain t n cur ms2 where r: "readUTFlen data 0 0 ms1 = Some (Some t, n, cur, ms2)"
      and rest: "(if h_qos header > 0 then length data - cur \<ge> 2 \<and> pub_payload q = drop (cur + 2) data \<and>
          pub_payloadlen q = int (length data - (cur + 2))
        else pub_payload q = drop cur data \<and> pub_payloadlen q = int (length data - cur))"
        "pub_topic q = t" "pub_topiclen q = n"
      using p q by (auto simp: MQTTPacket_publish_def Let_def split: if_splits option.splits Option.bind_splits
          dest!: readInt_range)
    from r obtain i x where i': "readInt data 0 = Some (i, x)" "n = i" "cur = x + nat i" "x + nat i \<le> length data"
      "t = take (nat i) (drop x data)"
      by (auto simp: readUTFlen_def Let_def split: if_splits Option.bind_splits prod.splits)
    moreover have "x = 2" using readInt_range [OF i'(1)] by simp
    ultimately have i: "readInt data 0 = Some (i, 2)" "n = i" "cur = 2 + nat i" "2 + nat i \<le> length data"
      "t = take (nat i) (drop 2 data)" by simp_all
    have n: "0 \<le> n" "length t = nat n" using readInt_range [OF i(1)] i by auto
    show ?thesis
      using rest i n by (intro exI [of _ "take (cur + (if h_qos header > 0 then 2 else 0)) data"]) auto
  qed
  with p show "\<exists>p ms'. MQTTPacket_publish v header data ms = Some (p, ms') \<and>
     (\<forall>q. p = Some q \<longrightarrow> (\<exists>pre. data = pre @ pub_payload q \<and>
        length pre = 2 + length (pub_topic q) + (if h_qos header > 0 then 2 else 0) \<and>
        pub_topic q = take (nat (pub_topiclen q)) (drop 2 data) \<and>
        pub_topiclen q = int (length (pub_topic q)) \<and> pub_payloadlen q = int (length (pub_payload q))))"
    by blast
qed

theorem parsers_memory_safe_witness:
  "\<exists>q ms'. MQTTPacket_publish 4 0x32 [0, 1, 97, 0, 9, 7, 8] [] = Some (Some q, ms') \<and>
     pub_payload q = [7, 8] \<and> pub_payloadlen q = 2"
proof -
  have "MQTTPacket_publish 4 0x32 [0, 1, 97, 0, 9, 7, 8] [] \<noteq> Some (None, [])"
    and ms: "\<exists>p. MQTTPacket_publish 4 0x32 [0, 1, 97, 0, 9, 7, 8] [] = Some (p, [])"
    by (simp_all add: MQTTPacket_publish_def Let_def readUTFlen_def readInt_def nth_opt_def h_qos_def)
  then obtain q where q: "MQTTPacket_publish 4 0x32 [0, 1, 97, 0, 9, 7, 8] [] = Some (Some q, [])" by auto
  have one: "pub_topiclen q = 1"
    using q by (auto simp: MQTTPacket_publish_def Let_def readUTFlen_def readInt_def nth_opt_def h_qos_def)
  have qos: "h_qos 0x32 > 0" by (simp add: h_qos_def)
  obtain pre where pre: "[0, 1, 97, 0, 9, 7, 8] = pre @ pub_payload q"
      "length pre = 2 + length (pub_topic q) + 2" "pub_topiclen q = int (length (pub_topic q))"
      "pub_payloadlen q = int (length (pub_payload q))"
    using parsers_memory_safe [of 4 "0x32" "[0, 1, 97, 0, 9, 7, 8]" "[]"] q qos by auto
  have len: "length pre = 5" using pre(2,3) one by simp
  have "pub_payload q = drop (length pre) (pre @ pub_payload q)" by simp
  then have "pub_payload q = [7, 8]" unfolding len pre(1) [symmetric] by simp
  then show ?thesis using q pre(4) by simp
qed

text \<open>C12: The SUBACK parser.  With less than two bytes of data it refuses the packet; with a message id
  and at least one return code it delivers the message id and all return codes in order; with a
  message id and no return code it does not refuse the packet but reads, and hands to \<open>free\<close>, a pointer
  it has never initialised.\<close>

theorem suback_parsed_in_order:
  "(length data < 2 \<longrightarrow> MQTTPacket_suback v header data [] = Some (None, [])) \<and>
   (length data = 2 \<longrightarrow> MQTTPacket_suback v header data [] = None) \<and>
   (length data > 2 \<longrightarrow> (\<exists>i. readInt data 0 = Some (i, 2) \<and>
      MQTTPacket_suback v header data [] = Some (Some \<lparr>sa_header = header, sa_msgId = i, sa_version = v,
        sa_qoss = \<lparr>items = drop 2 data, cursor = None\<rparr>\<rparr>, [])))"
proof -
  have run: "MQTTPacket_suback v header data [] =
      (if drop 2 data = [] then None else Some (Some \<lparr>sa_header = header, sa_msgId = i, sa_version = v,
        sa_qoss = \<lparr>items = drop 2 data, cursor = None\<rparr>\<rparr>, []))"
    if "readInt data 0 = Some (i, 2)" "2 \<le> length data" for i
    using that suback_codes_read [of 2 data empty_alist] by (simp add: MQTTPacket_suback_def empty_alist_def)
  have read: "\<exists>i. readInt data 0 = Some (i, 2)" if "2 \<le> length data"
    using readInt_defined [of 0 data] that by (simp add: numeral_2_eq_2)
  show ?thesis
  proof (intro conjI impI)
    assume "length data < 2"
    then show "MQTTPacket_suback v header data [] = Some (None, [])" by (simp add: MQTTPacket_suback_def)
  next
    assume l: "length data = 2"
    then obtain i where "readInt data 0 = Some (i, 2)" using read by auto
    with run l show "MQTTPacket_suback v header data [] = None" by simp
  next
    assume l: "length data > 2"
    then obtain i where "readInt data 0 = Some (i, 2)" using read by auto
    with run l show "\<exists>i. readInt data 0 = Some (i, 2) \<and>
      MQTTPacket_suback v header data [] = Some (Some \<lparr>sa_header = header, sa_msgId = i, sa_version = v,
        sa_qoss = \<lparr>items = drop 2 data, cursor = None\<rparr>\<rparr>, [])" by auto
  qed
qed

theorem suback_parsed_in_order_witness:
  "MQTTPacket_suback 4 0x90 [1, 44, 0, 128] [] = Some (Some \<lparr>sa_header = 0x90, sa_msgId = 300, sa_version = 4,
      sa_qoss = \<lparr>items = [0, 128], cursor = None\<rparr>\<rparr>, []) \<and>
   MQTTPacket_suback 4 0x90 [1, 44] [] = None"
  using suback_parsed_in_order [of "[1, 44, 0, 128]" 4 "0x90"] suback_parsed_in_order [of "[1, 44]" 4 "0x90"]
  by (auto simp: readInt_def nth_opt_def)

lemma suback_none: "MQTTPacket_suback v header data [] = None \<longleftrightarrow> length data = 2"
proof (cases "length data < 2")
  case False
  then obtain i where "readInt data 0 = Some (i, 2)"
    using readInt_defined [of 0 data] by (auto simp: numeral_2_eq_2)
  with False suback_codes_read [of 2 data empty_alist] show ?thesis
    by (auto simp: MQTTPacket_suback_def empty_alist_def)
qed (simp add: MQTTPacket_suback_def)

text \<open>C8: Which packets the factory can take.  Its table lacks the entry for UNSUBACK, so the entries
  behind it have moved: with memory available the factory has a defined result for every header and
  every data except PINGRESP (for every version), DISCONNECT and AUTH (version 5), for which it reads
  behind the end of the table, and a SUBACK without return codes.\<close>

theorem factory_undefined_iff:
  "dispatch v header data [] = None \<longleftrightarrow>
     h_type header = 13 \<or> (v \<ge> 5 \<and> h_type header \<in> {14, 15}) \<or> (h_type header = 9 \<and> length data = 2)"
proof -
  let ?t = "h_type header"
  have b: "build B_publish v header data [] \<noteq> None" "build B_ack v header data [] \<noteq> None"
    "build B_connack v header data [] \<noteq> None"
    using publish_safe [of v header data "[]"] ack_safe [of v header data "[]"] connack_safe [of v header data "[]"]
    by (auto simp: build_def)
  have s: "build B_suback v header data [] = None \<longleftrightarrow> length data = 2"
    using suback_none [of v header data] by (cases "MQTTPacket_suback v header data []") (auto simp: build_def)
  have step: "(do { (pack, ms) \<leftarrow> build c v header data []; Some (pack, if pack = None then SOCKET_ERROR else TCPSOCKET_COMPLETE, ms) }) = None
      \<longleftrightarrow> build c v header data [] = None" for c
    by (cases "build c v header data []") auto
  have "?t \<in> {0, 1, 2, 3, 4, 5, 6, 7, 8, 9, 10, 11, 12, 13, 14, 15}"
    using h_type_range [of header] by (simp only: insert_iff empty_iff) presburger
  then show ?thesis
    by (elim insertE emptyE; simp add: dispatch_def Let_def new_packets_def nth_opt_def step b s
        CONNECT_def DISCONNECT_def AUTH_def del: code_values)
qed

text \<open>A message of quality of service 0 is not sent at all before MQTT 5: the result is the initial
  \<open>SOCKET_ERROR\<close>.\<close>

lemma publish_qos0_not_sent:
  "pub_version p < 5 \<Longrightarrow> sent (\<lambda>put. MQTTPacket_send_publish put p dup 0 retained) = Some [] \<and>
   MQTTPacket_send_publish putdatas p dup 0 retained [] s = Some (SOCKET_ERROR, [], s)"
  by (simp add: sent_def MQTTPacket_send_publish_def Let_def)

end
