(* ===== verification/Sending.thy ===== *)
theory Sending
  imports Memory PacketCodec
begin

text \<open>
  Packets on their way out: the builders of \<^verbatim>\<open>src/src/MQTTPacket.c\<close> put their bytes into blocks of
  memory, hand these with the caller's topic and payload to \<open>Socket_putdatas\<close>, and free their own blocks
  unless the write was interrupted, in which case the socket layer frees them when it is done.  The
  theorem follows a packet from the builder to the socket: its bytes join the stream exactly once and
  no block is lost or freed twice.
\<close>

section \<open>Handing over the buffers\<close>

text \<open>The buffers of a packet in memory: those the builder owns get a block each, the others are the
  caller's, at the addresses \<open>shared\<close>.\<close>

fun lay_out :: "alloc \<Rightarrow> ptr list \<Rightarrow> (byte list \<times> bool) list \<Rightarrow> bufmem \<Rightarrow> ((iobuf \<times> bool) list \<times> bufmem) option" where
  "lay_out alloc shared [] h = Some ([], h)"
| "lay_out alloc shared ((bs, True) # xs) h = (let (p, h) = place alloc bs h in do {
     (vs, h) \<leftarrow> lay_out alloc shared xs h;
     Some ((\<lparr>iov_base = p, iov_len = length bs\<rparr>, True) # vs, h)
   })"
| "lay_out alloc [] ((bs, False) # xs) h = None"
| "lay_out alloc (p # shared) ((bs, False) # xs) h = do {
     (vs, h) \<leftarrow> lay_out alloc shared xs h;
     Some ((\<lparr>iov_base = p, iov_len = length bs\<rparr>, False) # vs, h)
   }"

text \<open>\<open>WebSocket_putdatas\<close> on a connection without web sockets, for a packet in the blocks just laid out;
  then, as \<open>MQTTPacket_send\<close>, \<open>MQTTPacket_sends\<close> and their callers do, the builder frees its blocks
  unless the write was interrupted.  This one definition thus stands for the plain branch of \<open>WebSocket_putdatas\<close>
  and for the allocations before and the calls of \<open>free\<close> after it, which \<^verbatim>\<open>src/src/MQTTPacket.c\<close> has in
  each builder (the fixed header's block in lines 103 to 124 and 138 to 152, those of a PUBLISH in 381 to 404).
  \<open>MQTTPacket_send_connect\<close>, which never frees its own buffer, is not one of them.\<close>

definition net_put :: "alloc \<Rightarrow> ptr list \<Rightarrow> int \<Rightarrow> net putdatas" where
  "net_put alloc shared socket buf0 pb s = do {
     (vs, h) \<leftarrow> lay_out alloc shared ((buf0, True) # zip (pb_buffers pb) (pb_frees pb)) (bufs s);
     (rc, s) \<leftarrow> Socket_putdatas socket (iov_base (fst (hd vs))) (iov_len (fst (hd vs))) (tl vs) (s\<lparr>bufs := h\<rparr>);
     if rc = TCPSOCKET_INTERRUPTED then Some (rc, s)
     else do {
       h \<leftarrow> free_buffers (map fst vs) (map snd vs) (bufs s);
       Some (rc, s\<lparr>bufs := h\<rparr>)
     }
   }"

section \<open>The blocks of a packet\<close>

definition pieces :: "(byte list \<times> bool) list \<Rightarrow> byte list list" where
  "pieces xs = map fst (filter (\<lambda>(_, own). \<not> own) xs)"

lemma pieces_simps [simp]: "pieces [] = []" "pieces ((bs, True) # xs) = pieces xs" "pieces ((bs, False) # xs) = bs # pieces xs"
  by (simp_all add: pieces_def)

definition readable :: "bufmem \<Rightarrow> ptr list \<Rightarrow> byte list list \<Rightarrow> bool" where
  "readable h = list_all2 (\<lambda>p bs. read_buf h p (length bs) = Some bs)"

definition ranges :: "ptr list \<Rightarrow> byte list list \<Rightarrow> ptr set" where
  "ranges ps bss = (\<Union>(p, bs)\<in>set (zip ps bss). {p..<p + length bs})"

lemma ranges_simps [simp]: "ranges [] bss = {}" "ranges ps [] = {}" "ranges (p # ps) (bs # bss) = {p..<p + length bs} \<union> ranges ps bss"
  by (simp_all add: ranges_def)

definition own_blocks :: "(iobuf \<times> bool) list \<Rightarrow> ptr list" where
  "own_blocks vs = owned (map fst vs) (map snd vs)"

lemma own_blocks_simps [simp]: "own_blocks [] = []" "own_blocks ((v, f) # vs) = (if f \<and> iov_base v \<noteq> NULL then [iov_base v] else []) @ own_blocks vs"
  by (simp_all add: own_blocks_def)

lemma uses_simps [simp]: "uses [] = {}" "uses (v # vs) = {iov_base v..<iov_base v + iov_len v} \<union> uses vs"
  by (simp_all add: uses_def)

text \<open>What laying out a packet does: its blocks are new and different, nothing else changes, and the
  buffers hold the bytes of the packet.\<close>

definition laid_out :: "ptr list \<Rightarrow> (byte list \<times> bool) list \<Rightarrow> bufmem \<Rightarrow> (iobuf \<times> bool) list \<Rightarrow> bufmem \<Rightarrow> bool" where
  "laid_out shared xs h vs h' \<longleftrightarrow> heap_ok h' \<and> extends h h' \<and> gather h' (map fst vs) = Some (concat (map fst xs)) \<and>
     length vs = length xs \<and> distinct (own_blocks vs) \<and> (\<forall>p\<in>set (own_blocks vs). extent h p = None \<and> p \<noteq> NULL) \<and>
     dom (extent h') = dom (extent h) \<union> set (own_blocks vs) \<and>
     uses (map fst vs) \<subseteq> (\<Union>p\<in>set (own_blocks vs). block h' p) \<union> ranges shared (pieces xs)"

lemma lay_out_ok:
  assumes "buf_allocator alloc" "heap_ok h" "readable h shared (pieces xs)"
  shows "\<exists>vs h'. lay_out alloc shared xs h = Some (vs, h') \<and> laid_out shared xs h vs h'"
  using assms
proof (induction alloc shared xs h rule: lay_out.induct)
  case (1 alloc shared h)
  then show ?case by (simp add: laid_out_def)
next
  case (2 alloc shared bs xs h)
  obtain p g where p: "place alloc bs h = (p, g)" by fastforce
  note g = place_block [OF 2(2,3) p]
  have "readable g shared (pieces xs)"
    using 2(4) unfolding readable_def by (auto elim!: list_all2_mono extends_read [OF 2(3) g(2)])
  with 2(1) [OF p [symmetric] refl 2(2) g(1)] obtain vs h' where
    run: "lay_out alloc shared xs g = Some (vs, h')" and l: "laid_out shared xs g vs h'" by auto
  have ext: "extends g h'" and l': "heap_ok h'" "gather h' (map fst vs) = Some (concat (map fst xs))" "length vs = length xs"
    "distinct (own_blocks vs)" "dom (extent h') = dom (extent g) \<union> set (own_blocks vs)"
    "\<forall>q\<in>set (own_blocks vs). extent g q = None \<and> q \<noteq> NULL"
    "uses (map fst vs) \<subseteq> (\<Union>p\<in>set (own_blocks vs). block h' p) \<union> ranges shared (pieces xs)"
    using l by (simp_all add: laid_out_def)
  have new: "\<forall>q\<in>set (own_blocks vs). extent h q = None \<and> q \<noteq> p" using l'(6) by (auto simp: g(6) split: if_splits)
  have rd: "read_buf h' p (length bs) = Some bs" using extends_read [OF g(1) ext g(5)] .
  have "extent h' p = Some (length bs)" using extends_extent [OF ext, of p] g(6) by simp
  then have bl: "block h' p = {p..<p + length bs}" by (simp add: block_def)
  let ?vs = "(\<lparr>iov_base = p, iov_len = length bs\<rparr>, True) # vs"
  have own: "own_blocks ?vs = p # own_blocks vs" using g(4) by simp
  have "uses (map fst ?vs) \<subseteq> (\<Union>q\<in>set (own_blocks ?vs). block h' q) \<union> ranges shared (pieces ((bs, True) # xs))"
    unfolding own using l'(7) bl by auto
  moreover have "dom (extent h') = dom (extent h) \<union> set (own_blocks ?vs)" unfolding own l'(5) g(6) by auto
  moreover have "distinct (own_blocks ?vs)" "\<forall>q\<in>set (own_blocks ?vs). extent h q = None \<and> q \<noteq> NULL"
    unfolding own using new l'(4,6) g(3,4) by auto
  moreover have "gather h' (map fst ?vs) = Some (concat (map fst ((bs, True) # xs)))" using rd l'(2) by simp
  moreover have "length ?vs = length ((bs, True) # xs)" using l'(3) by simp
  ultimately have "laid_out shared ((bs, True) # xs) h ?vs h'"
    unfolding laid_out_def using l'(1) extends_trans [OF g(2) ext] by blast
  moreover have "lay_out alloc shared ((bs, True) # xs) h = Some (?vs, h')" using run p by simp
  ultimately show ?case by blast
next
  case (3 alloc bs xs h)
  then show ?case by (simp add: readable_def)
next
  case (4 alloc p shared bs xs h)
  then obtain vs h' where run: "lay_out alloc shared xs h = Some (vs, h')" and l: "laid_out shared xs h vs h'"
    by (auto simp: readable_def)
  have ext: "extends h h'" and g: "gather h' (map fst vs) = Some (concat (map fst xs))"
    and u: "uses (map fst vs) \<subseteq> (\<Union>q\<in>set (own_blocks vs). block h' q) \<union> ranges shared (pieces xs)"
    and len: "length vs = length xs"
    using l unfolding laid_out_def by blast+
  have "read_buf h p (length bs) = Some bs" using 4(4) by (simp add: readable_def)
  note rd = extends_read [OF 4(3) ext this]
  let ?vs = "(\<lparr>iov_base = p, iov_len = length bs\<rparr>, False) # vs"
  have own: "own_blocks ?vs = own_blocks vs" by simp
  have "gather h' (map fst ?vs) = Some (concat (map fst ((bs, False) # xs)))" using rd g by simp
  moreover have "uses (map fst ?vs) \<subseteq> (\<Union>q\<in>set (own_blocks vs). block h' q) \<union> ranges (p # shared) (pieces ((bs, False) # xs))"
    using u by auto
  moreover have "length ?vs = length ((bs, False) # xs)" using len by simp
  ultimately have "laid_out (p # shared) ((bs, False) # xs) h ?vs h'"
    using l unfolding laid_out_def own by blast
  moreover have "lay_out alloc (p # shared) ((bs, False) # xs) h = Some ((\<lparr>iov_base = p, iov_len = length bs\<rparr>, False) # vs, h')"
    using run by simp
  ultimately show ?case by blast
qed

section \<open>Handing over a packet\<close>

definition send_ok :: "net \<Rightarrow> bool" where
  "send_ok s \<longleftrightarrow> pending_ok s \<and> heap_ok (bufs s)"

text \<open>The caller's buffers are not in a block that the socket layer is going to free.\<close>

definition apart :: "net \<Rightarrow> ptr set \<Rightarrow> bool" where
  "apart s A \<longleftrightarrow> (\<forall>l qw. write_lookup (sbuf s) l = Some qw \<longrightarrow>
     (\<Union>p\<in>set (owned (pw_iovecs qw) (pw_frees qw)). block (bufs s) p) \<inter> A = {})"

lemma gather_uses: "gather h vs = Some D \<Longrightarrow> a \<in> uses vs \<Longrightarrow> cells h a \<noteq> None"
proof (induction vs arbitrary: D)
  case (Cons v vs)
  obtain x where x: "read_buf h (iov_base v) (iov_len v) = Some x" "gather h vs \<noteq> None"
    using Cons.prems(1) by (auto split: Option.bind_splits)
  show ?case
  proof (cases "a \<in> uses vs")
    case False
    then have "a \<in> set [iov_base v..<iov_base v + iov_len v]" using Cons.prems(2) by simp
    then have "cells h a \<in> set (map Some x)"
      using x(1) unfolding read_buf_def those_Some by (metis image_eqI image_set)
    then show ?thesis by auto
  qed (use Cons.IH x in auto)
qed simp

lemma block_extends:
  assumes "extends h h'" "extent h q \<noteq> None"
  shows "block h' q = block h q"
  using assms extends_extent [OF assms(1), of q] by (auto simp: block_def)

lemma new_block_apart:
  assumes ok: "heap_ok h'" and ext: "extends h h'" and p: "extent h p = None" and a: "a \<in> live h"
  shows "a \<notin> block h' p"
proof -
  obtain q where q: "a \<in> block h q" using a by (auto simp: live_blocks)
  then have e: "extent h q \<noteq> None" by (cases "extent h q") (simp_all add: block_def)
  then have "a \<in> block h' q" using q block_extends [OF ext e] by simp
  moreover have "q \<noteq> p" using e p by auto
  ultimately show ?thesis using blocks_disjoint [OF ok, of q p] by blast
qed

lemma pending_uses:
  assumes "send_ok s" "write_lookup (sbuf s) l = Some qw"
  shows "uses (pw_iovecs qw) \<subseteq> live (bufs s)"
    "\<forall>p\<in>set (owned (pw_iovecs qw) (pw_frees qw)). extent (bufs s) p \<noteq> None"
proof -
  have pw: "pw_ok (bufs s) qw" using assms by (simp add: send_ok_def pending_ok_def)
  then obtain D where D: "gather (bufs s) (pw_iovecs qw) = Some D" by (auto simp: pw_ok_def)
  show "uses (pw_iovecs qw) \<subseteq> live (bufs s)"
    using gather_uses [OF D] assms(1) by (auto simp: send_ok_def heap_ok_def)
  show "\<forall>p\<in>set (owned (pw_iovecs qw) (pw_frees qw)). extent (bufs s) p \<noteq> None"
    using pw by (simp add: pw_ok_def)
qed

lemma extends_kept:
  assumes ok: "send_ok s" and ext: "extends (bufs s) h"
  shows "memory_kept s h"
  unfolding memory_kept_def
proof (intro allI impI conjI ballI)
  fix k pw p
  assume pw: "write_lookup (sbuf s) k = Some pw"
  { assume "p \<in> uses (pw_iovecs pw)"
    then show "cells h p = cells (bufs s) p" using pending_uses(1) [OF ok pw] ext by (auto simp: extends_def) }
  { assume "p \<in> set (owned (pw_iovecs pw) (pw_frees pw))"
    then show "extent h p = extent (bufs s) p"
      using pending_uses(2) [OF ok pw] extends_extent [OF ext, of p] by (auto dest!: bspec) }
qed

lemma laid_out_submits:
  assumes ok: "send_ok s" and k: "0 \<le> k" "k < FD_SETSIZE" and ne: "concat (map fst xs) \<noteq> []"
    and l: "laid_out shared xs (bufs s) vs h" and vs: "vs = (v0, True) # bs" and len: "length bs \<le> 4"
    and ap: "apart s (ranges shared (pieces xs))"
  shows "submit_ok (s\<lparr>bufs := h\<rparr>) k v0 bs (concat (map fst xs))"
proof -
  have h: "heap_ok h" and ext: "extends (bufs s) h" and g: "gather h (map fst vs) = Some (concat (map fst xs))"
    and d: "distinct (own_blocks vs)" and new: "\<forall>p\<in>set (own_blocks vs). extent (bufs s) p = None"
    and dom: "set (own_blocks vs) \<subseteq> dom (extent h)"
    and u: "uses (map fst vs) \<subseteq> (\<Union>p\<in>set (own_blocks vs). block h p) \<union> ranges shared (pieces xs)"
    using l unfolding laid_out_def by blast+
  have own: "owned (v0 # map fst bs) (True # map snd bs) = own_blocks vs" by (simp add: own_blocks_def vs)
  have uw: "uses (pw_iovecs (new_write k v0 bs 0)) = uses (map fst vs)" by (simp add: new_write_def vs)
  have ow: "owned (pw_iovecs (new_write k v0 bs 0)) (pw_frees (new_write k v0 bs 0)) = own_blocks vs"
    by (simp add: new_write_def own_blocks_def vs)
  have c: "clear_of h (own_blocks vs) qw" "clear_of h (owned (pw_iovecs qw) (pw_frees qw)) (new_write k v0 bs 0)"
    if "write_lookup (sbuf s) j = Some qw" for j qw
  proof -
    note q = pending_uses [OF ok that]
    let ?o = "owned (pw_iovecs qw) (pw_frees qw)"
    have disj: "set (own_blocks vs) \<inter> set ?o = {}" using new q(2) by auto
    have "a \<notin> block h p" if "a \<in> uses (pw_iovecs qw)" "p \<in> set (own_blocks vs)" for a p
    proof (rule new_block_apart [OF h ext])
      show "extent (bufs s) p = None" using new that(2) by simp
      show "a \<in> live (bufs s)" using q(1) that(1) by (rule subsetD)
    qed
    then show "clear_of h (own_blocks vs) qw" using disj unfolding clear_of_def by blast
    have "block h p \<inter> block h r = {}" if "p \<in> set ?o" "r \<in> set (own_blocks vs)" for p r
      using blocks_disjoint [OF h, of p r] that disj by blast
    moreover have "block h p \<inter> ranges shared (pieces xs) = {}" if "p \<in> set ?o" for p
    proof -
      have "block h p = block (bufs s) p" by (rule block_extends [OF ext]) (use q(2) that in blast)
      moreover have "block (bufs s) p \<inter> ranges shared (pieces xs) = {}"
        using ap \<open>write_lookup (sbuf s) j = Some qw\<close> that unfolding apart_def by blast
      ultimately show ?thesis by simp
    qed
    ultimately have "(\<Union>p\<in>set ?o. block h p) \<inter> uses (map fst vs) = {}" using u by blast
    then show "clear_of h ?o (new_write k v0 bs 0)"
      using disj unfolding clear_of_def uw ow by blast
  qed
  have "gather h (v0 # map fst bs) = Some (concat (map fst xs))" using g by (simp add: vs)
  moreover have "\<forall>p\<in>set (own_blocks vs). extent h p \<noteq> None" using dom by auto
  ultimately show ?thesis
    using k ne len d c unfolding submit_ok_def own by simp
qed

text \<open>What sending does not touch: what is read, the registry, the callbacks.\<close>

definition reading_side :: "net \<Rightarrow> (int \<Rightarrow> recv_event list) \<times> socket_queue alist option \<times> socket_queue option \<times> Sockets \<times> net_event list" where
  "reading_side s = (wire (socks s), queues (sbuf s), def_queue (sbuf s), view (mod_s s), events s)"

lemma putdatas_frame:
  assumes "Socket_putdatas k p n bs s = Some (rc, s')"
  shows "bufs s' = bufs s" "reading_side s' = reading_side s"
proof -
  have w: "bufs t = bufs s \<and> reading_side t = reading_side s" if "Socket_writev k vs s = Some (x, y, t)" for vs x y s t
    using that by (auto simp: Socket_writev_def writev_def Let_def reading_side_def
        split: Option.bind_splits list.splits writev_event.splits if_splits)
  have m: "bufs t = bufs s \<and> reading_side t = reading_side s" if "net_malloc s = (b, t)" for b s t
    using that by (auto simp: net_malloc_def next_malloc_def reading_side_def split: list.splits)
  have p: "queues b = queues (sbuf s) \<and> def_queue b = def_queue (sbuf s)"
    if "SocketBuffer_pendingWrite a c d e f g (sbuf s) = Some (x, b)" for a c d e f g x b s
    using that by (auto simp: SocketBuffer_pendingWrite_def Let_def split: if_splits prod.splits)
  have q: "bufs t = bufs s \<and> reading_side t = reading_side s" if "Socket_noPendingWrites k s = (b, t)" for b s t
    using that by (auto simp: Socket_noPendingWrites_def reading_side_def view_def split: prod.splits)
  have "bufs s' = bufs s \<and> reading_side s' = reading_side s"
    using assms unfolding Socket_putdatas_def Let_def
    by (fastforce split: prod.splits if_splits Option.bind_splits simp: reading_side_def view_def dest: w m p q)
  then show "bufs s' = bufs s" "reading_side s' = reading_side s" by simp_all
qed

lemma putdatas_sbuf:
  assumes "Socket_putdatas k p n bs s = Some (rc, s')" "rc = 0 \<or> rc = -1"
  shows "sbuf s' = sbuf s"
proof -
  have w: "sbuf t = sbuf s" if "Socket_writev k vs s = Some (x, y, t)" for vs x y s t
    using that by (auto simp: Socket_writev_def writev_def Let_def
        split: Option.bind_splits list.splits writev_event.splits if_splits)
  have q: "sbuf t = sbuf s" if "Socket_noPendingWrites k s = (b, t)" for b s t
    using that by (auto simp: Socket_noPendingWrites_def split: prod.splits)
  show ?thesis
    using assms unfolding Socket_putdatas_def Let_def
    by (auto split: prod.splits if_splits Option.bind_splits simp: PAHO_MEMORY_ERROR_def TCPSOCKET_INTERRUPTED_def dest!: w q)
qed

lemma send_ok_bufs:
  assumes "send_ok s" "heap_ok h" "extends (bufs s) h"
  shows "send_ok (s\<lparr>bufs := h\<rparr>)" "todo (s\<lparr>bufs := h\<rparr>) = todo s"
  using memory_kept_ok [OF _ extends_kept [OF assms(1,3)]] assms(1,2) by (simp_all add: send_ok_def)

lemma without_new:
  assumes h0: "heap_ok h0" and h: "heap_ok h" and ext: "extends h0 h" and dom: "dom (extent h) = dom (extent h0) \<union> set ps"
    and new: "\<forall>p\<in>set ps. extent h0 p = None"
  shows "without ps h = h0"
proof (rule extends_same [OF h0 heap_without [OF h] extends_without [OF h ext new]])
  show "extent (without ps h) = extent h0"
  proof
    fix p
    consider "p \<in> set ps" | "p \<notin> set ps" "extent h0 p = None" | n where "p \<notin> set ps" "extent h0 p = Some n" by blast
    then show "extent (without ps h) p = extent h0 p"
    proof cases
      case 2
      then have "p \<notin> dom (extent h)" unfolding dom by auto
      with 2 show ?thesis by auto
    qed (use new extends_extent [OF ext] in auto)
  qed
qed

text \<open>The four outcomes again, now for a packet whose blocks come and go.\<close>

lemma net_put_cases:
  assumes al: "buf_allocator alloc" and ok: "send_ok s" and k: "0 \<le> k" "k < FD_SETSIZE" and ne: "buf0 \<noteq> []"
    and len: "length (pb_buffers pb) = length (pb_frees pb)" "length (pb_frees pb) \<le> 4"
    and rd: "readable (bufs s) shared (pieces (zip (pb_buffers pb) (pb_frees pb)))"
    and ap: "apart s (ranges shared (pieces (zip (pb_buffers pb) (pb_frees pb))))"
  obtains rc s' where "net_put alloc shared k buf0 pb s = Some (rc, s')" "send_ok s'" "extends (bufs s) (bufs s')"
    "rc = 0 \<or> rc = -22 \<or> rc = -1" "rc \<noteq> -22 \<Longrightarrow> bufs s' = bufs s"
    "rc \<noteq> -1 \<Longrightarrow> todo s k = [] \<and> outgoing s' k @ todo s' k = outgoing s k @ buf0 @ concat (pb_buffers pb)"
    "rc = -1 \<Longrightarrow> outgoing s' = outgoing s \<and> todo s' = todo s \<and> (todo s k \<noteq> [] \<or> refused s k)"
    "rc = 0 \<Longrightarrow> todo s' k = []" "rc = -22 \<Longrightarrow> todo s' k \<noteq> []"
    "\<And>j. j \<noteq> k \<Longrightarrow> outgoing s' j = outgoing s j \<and> todo s' j = todo s j" "reading_side s' = reading_side s"
proof -
  note outcome = that
  let ?xs = "(buf0, True) # zip (pb_buffers pb) (pb_frees pb)"
  have D: "concat (map fst ?xs) = buf0 @ concat (pb_buffers pb)" using len(1) by simp
  obtain vs h where run: "lay_out alloc shared ?xs (bufs s) = Some (vs, h)" and l: "laid_out shared ?xs (bufs s) vs h"
    using lay_out_ok [OF al, of "bufs s" shared ?xs] ok rd by (auto simp: send_ok_def)
  obtain v0 bs where vs: "vs = (v0, True) # bs" using run by (auto split: prod.splits Option.bind_splits)
  have h: "heap_ok h" "extends (bufs s) h" "length vs = length ?xs" "distinct (own_blocks vs)"
    "\<forall>p\<in>set (own_blocks vs). extent (bufs s) p = None \<and> p \<noteq> NULL" "dom (extent h) = dom (extent (bufs s)) \<union> set (own_blocks vs)"
    using l unfolding laid_out_def by blast+
  have hd: "hd vs = (v0, True)" "tl vs = bs" by (simp_all add: vs)
  have h0: "heap_ok (bufs s)" using ok by (simp add: send_ok_def)
  let ?t = "s\<lparr>bufs := h\<rparr>"
  note t = send_ok_bufs [OF ok h(1,2)]
  have sub: "submit_ok ?t k v0 bs (buf0 @ concat (pb_buffers pb))"
    using laid_out_submits [OF ok k _ l vs] ne ap h(3) len vs unfolding D by simp
  have fr: "free_buffers (map fst vs) (map snd vs) h = Some (bufs s)"
  proof -
    have "\<forall>p\<in>set (own_blocks vs). extent h p \<noteq> None" using h(6) by auto
    with free_all(2) [of "map fst vs" "map snd vs" h] h(4)
    have "free_buffers (map fst vs) (map snd vs) h = Some (without (own_blocks vs) h)" by (simp add: own_blocks_def)
    then show ?thesis using without_new [OF h0 h(1,2,6)] h(5) by simp
  qed
  have pt: "pending_ok ?t" using t(1) by (simp add: send_ok_def)
  have finish: thesis
    if r: "Socket_putdatas k (iov_base v0) (iov_len v0) bs ?t = Some (rc, u)" and rc: "rc \<noteq> -22" and u: "pending_ok u"
      and rc': "rc = 0 \<or> rc = -1"
      and c: "rc = 0 \<Longrightarrow> todo s k = [] \<and> todo u k = [] \<and> outgoing u k = outgoing s k @ buf0 @ concat (pb_buffers pb)"
        "rc = -1 \<Longrightarrow> outgoing u = outgoing s \<and> todo u = todo s \<and> (todo s k \<noteq> [] \<or> refused s k)"
        "\<And>j. j \<noteq> k \<Longrightarrow> outgoing u j = outgoing s j \<and> todo u j = todo s j"
    for rc u
  proof -
    note f = putdatas_frame [OF r]
    let ?u = "u\<lparr>bufs := bufs s\<rparr>"
    have ret: "net_put alloc shared k buf0 pb s = Some (rc, ?u)"
      unfolding net_put_def run using r rc fr f(1)
      by (simp add: hd TCPSOCKET_INTERRUPTED_def del: free_buffers.simps lay_out.simps)
    have "sbuf u = sbuf s" using putdatas_sbuf [OF r rc'] by simp
    then have "memory_kept u (bufs s)"
      using extends_kept [OF ok h(2)] f(1) by (auto simp: memory_kept_def)
    note k2 = memory_kept_ok [OF u this]
    have so: "send_ok ?u" using k2(1) h0 by (simp add: send_ok_def)
    have rs: "reading_side ?u = reading_side s" using f(2) by (simp add: reading_side_def)
    show thesis
      by (rule outcome [of rc ?u]) (use ret so rc rc' c k2(2) rs in simp_all)
  qed
  show thesis
  proof (rule putdatas_cases [OF pt sub], goal_cases busy complete interrupted failed)
    case (busy u)
    then show thesis using t(2) by (intro finish [of "-1" u]) simp_all
  next
    case (complete u)
    then show thesis using t(2) by (intro finish [of 0 u]) simp_all
  next
    case (failed u)
    have "refused ?t = refused s" by (rule refused_cong) simp
    with failed t(2) show thesis by (intro finish [of "-1" u]) simp_all
  next
    case (interrupted n u)
    note f = putdatas_frame [OF interrupted(3)]
    have ret: "net_put alloc shared k buf0 pb s = Some (-22, u)"
      unfolding net_put_def run using interrupted(3) by (simp add: hd TCPSOCKET_INTERRUPTED_def del: lay_out.simps)
    have "send_ok u" using interrupted(4) f(1) h(1) by (simp add: send_ok_def)
    moreover have "outgoing u k @ todo u k = outgoing s k @ buf0 @ concat (pb_buffers pb)" "todo u k \<noteq> []"
      "todo s k = []" "\<And>j. j \<noteq> k \<Longrightarrow> outgoing u j = outgoing s j \<and> todo u j = todo s j"
    proof -
      define D where "D = buf0 @ concat (pb_buffers pb)"
      note i = interrupted(2,5,6) [folded D_def]
      have "todo u k = drop n D" "outgoing u k = outgoing s k @ take n D" using i by simp_all
      then show "outgoing u k @ todo u k = outgoing s k @ buf0 @ concat (pb_buffers pb)" "todo u k \<noteq> []"
        using i(1) by (simp_all flip: D_def)
      show "todo s k = []" using interrupted(1) t(2) by simp
      show "outgoing u j = outgoing s j \<and> todo u j = todo s j" if "j \<noteq> k" for j using i(2,3) t(2) that by simp
    qed
    ultimately show thesis using ret f h(2) by (intro outcome [of "-22" u]) (simp_all add: reading_side_def)
  qed
qed

section \<open>From the builder to the socket\<close>

text \<open>What a builder achieves when it hands over the packet \<open>D\<close> for the socket \<open>k\<close>.\<close>

definition handed_over :: "net \<Rightarrow> int \<Rightarrow> byte list \<Rightarrow> int \<Rightarrow> net \<Rightarrow> bool" where
  "handed_over s k D rc s' \<longleftrightarrow> send_ok s' \<and> extends (bufs s) (bufs s') \<and>
     (rc = TCPSOCKET_COMPLETE \<or> rc = TCPSOCKET_INTERRUPTED \<or> rc = SOCKET_ERROR) \<and>
     (rc \<noteq> TCPSOCKET_INTERRUPTED \<longrightarrow> bufs s' = bufs s) \<and>
     (rc \<noteq> SOCKET_ERROR \<longrightarrow> todo s k = [] \<and> outgoing s' k @ todo s' k = outgoing s k @ D \<and>
        (todo s' k = [] \<longleftrightarrow> rc = TCPSOCKET_COMPLETE)) \<and>
     (rc = SOCKET_ERROR \<longrightarrow> outgoing s' = outgoing s \<and> todo s' = todo s \<and> (todo s k \<noteq> [] \<or> refused s k)) \<and>
     (\<forall>j. j \<noteq> k \<longrightarrow> outgoing s' j = outgoing s j \<and> todo s' j = todo s j) \<and> reading_side s' = reading_side s"

lemma net_put_hands_over:
  assumes al: "buf_allocator alloc" and ok: "send_ok s" and k: "0 \<le> k" "k < FD_SETSIZE" and ne: "buf0 \<noteq> []"
    and len: "length (pb_buffers pb) = length (pb_frees pb)" "length (pb_frees pb) \<le> 4"
    and rd: "readable (bufs s) shared (pieces (zip (pb_buffers pb) (pb_frees pb)))"
    and ap: "apart s (ranges shared (pieces (zip (pb_buffers pb) (pb_frees pb))))"
    and D: "D = buf0 @ concat (pb_buffers pb)"
  obtains rc s' where "net_put alloc shared k buf0 pb s = Some (rc, s')" "handed_over s k D rc s'"
proof -
  note outcome = that
  show thesis
  proof (rule net_put_cases [OF al ok k ne len rd ap], goal_cases)
    case (1 rc s')
    have "handed_over s k D rc s'"
      unfolding handed_over_def D using 1(2-11) by (auto simp: codes)
    with 1(1) show thesis by (rule outcome)
  qed
qed

text \<open>C21: A PUBLISH reaches the connection.  For a message of quality of service 1 or 2 whose topic and
  payload are in memory that the socket layer does not own, \<open>MQTTPacket_send_publish\<close>, down to the call of
  \<open>writev\<close>, has a defined result.  Unless it reports an error, exactly the bytes of the PUBLISH packet have
  joined the stream of that socket, behind everything sent before; when it reports an error, none have.
  When the write is complete or failed, every block the builder allocated is free again and memory is
  as before; when it was interrupted, the caller's blocks are untouched and the state is one from which
  the write is continued.  No other connection is affected.\<close>

theorem publish_on_the_wire:
  assumes al: "buf_allocator alloc" and ok: "send_ok s" and k: "0 \<le> k" "k < FD_SETSIZE" and p: "publish_ok p qos"
    and t: "read_buf (bufs s) t (strlen (pub_topic p)) = Some (take (strlen (pub_topic p)) (pub_topic p))"
    and b: "read_buf (bufs s) b (nat (pub_payloadlen p)) = Some (take (nat (pub_payloadlen p)) (pub_payload p))"
    and ap: "apart s ({t..<t + strlen (pub_topic p)} \<union> {b..<b + nat (pub_payloadlen p)})"
  shows "\<exists>rc s'. MQTTPacket_send_publish (net_put alloc [t, b] k) p dup qos retained [] s = Some (rc, [], s') \<and>
    handed_over s k (packet_bytes (publish_header dup qos retained) (publish_body p qos)) rc s'"
proof -
  let ?t = "take (strlen (pub_topic p)) (pub_topic p)" and ?b = "take (nat (pub_payloadlen p)) (pub_payload p)"
  let ?pb = "\<lparr>pb_buffers = [be16 (int (strlen (pub_topic p))), ?t, publish_extra p qos, ?b], pb_frees = [True, False, True, False]\<rparr>"
  let ?buf0 = "publish_header dup qos retained # vbi (length (publish_body p qos))"
  have pc: "pieces (zip (pb_buffers ?pb) (pb_frees ?pb)) = [?t, ?b]" by simp
  have lt: "length ?t = strlen (pub_topic p)" "length ?b = nat (pub_payloadlen p)"
    using read_buf_length [OF t] read_buf_length [OF b] by simp_all
  have rd: "readable (bufs s) [t, b] (pieces (zip (pb_buffers ?pb) (pb_frees ?pb)))"
    unfolding pc readable_def using t b by (simp only: list_all2_Cons lt list.rel_inject(1))
  have ap': "apart s (ranges [t, b] (pieces (zip (pb_buffers ?pb) (pb_frees ?pb))))"
    unfolding pc ranges_simps lt using ap by simp
  have D: "packet_bytes (publish_header dup qos retained) (publish_body p qos) = ?buf0 @ concat (pb_buffers ?pb)"
    by (simp add: packet_bytes_def publish_body_def utf_field_def)
  obtain rc s' where "net_put alloc [t, b] k ?buf0 ?pb s = Some (rc, s')"
    "handed_over s k (packet_bytes (publish_header dup qos retained) (publish_body p qos)) rc s'"
    by (rule net_put_hands_over [OF al ok k _ _ _ rd ap' D]) simp_all
  then show ?thesis by (simp add: publish_bytes [OF p])
qed

lemma demo_send_ok: "send_ok (demo_net es)" "apart (demo_net es) A"
proof -
  have ext: "extent demo_mem p = Some n \<longleftrightarrow> p = 100 \<and> n = 2 \<or> p = 200 \<and> n = 3" for p n
    by (auto simp: demo_mem_def)
  have "dom (extent demo_mem) = {100, 200}" by (auto simp: demo_mem_def)
  moreover have "live demo_mem = {100..<102} \<union> {200..<203}" 
    unfolding live_blocks block_def by (auto simp: demo_mem_def split: if_splits intro!: exI [of _ 200])
  moreover have "cells demo_mem a \<noteq> None \<Longrightarrow> a \<in> {100, 101, 200, 201, 202}" for a
    by (simp add: demo_mem_def split: if_splits)
  ultimately have "heap_ok demo_mem"
    unfolding heap_ok_def ext by (auto simp: span_def demo_mem_def)
  then show "send_ok (demo_net es)" using demo_pending(1) by (simp add: send_ok_def) (simp add: demo_net_def)
  show "apart (demo_net es) A"
    by (simp add: apart_def demo_net_def write_lookup_def key_lookup_def idle_sockbuf_def empty_alist_def)
qed

definition demo_message :: Publish where
  "demo_message = \<lparr>pub_header = 0, pub_topic = [7], pub_topiclen = 1, pub_msgId = 9, pub_payload = [8, 9],
     pub_payloadlen = 2, pub_version = 4, pub_properties = MQTTProperties_initializer\<rparr>"

theorem publish_on_the_wire_witness:
  "\<exists>rc s'. MQTTPacket_send_publish (net_put next_room [200, 201] 7) demo_message 0 1 0 [] (demo_net [Accepts 4]) = Some (rc, [], s') \<and>
     handed_over (demo_net [Accepts 4]) 7 [0x32, 7, 0, 1, 7, 0, 9, 8, 9] rc s'"
proof -
  have ok: "publish_ok demo_message 1" by (simp add: publish_ok_def demo_message_def strlen_def)
  have len: "strlen (pub_topic demo_message) = 1" "nat (pub_payloadlen demo_message) = 2" by (simp_all add: demo_message_def strlen_def)
  have "packet_bytes (publish_header 0 1 0) (publish_body demo_message 1) = [0x32, 7, 0, 1, 7, 0, 9, 8, 9]"
    by (simp add: packet_bytes_def publish_header_def publish_body_def publish_extra_def utf_field_def demo_message_def be16_def
        strlen_def vbi.simps set_retain_def set_qos_def set_dup_def set_type_def PUBLISH_def)
  then show ?thesis
    using publish_on_the_wire [OF next_room_allocator demo_send_ok(1) _ _ ok, of 7 "[Accepts 4]" 200 201 0 0]
    unfolding len by (simp add: demo_send_ok(2)) (simp add: demo_net_def demo_mem_def demo_message_def read_buf_def upt_conv_Cons FD_SETSIZE_def)
qed

end
