(* ===== verification/Strings.thy ===== *)
theory Strings
  imports Memory
begin

text \<open>
  The string functions of \<^verbatim>\<open>src/src/MQTTProtocol.c\<close>: the bounded copy and the duplicate of a C string in
  memory, and the host and port of a server address.
\<close>

section \<open>Copying\<close>

definition load :: "bufmem \<Rightarrow> ptr \<Rightarrow> byte option" where
  "load h a = (if a \<in> live h then cells h a else None)"

definition store :: "ptr \<Rightarrow> byte \<Rightarrow> bufmem \<Rightarrow> bufmem option" where
  "store a b h = (if a \<in> live h then Some (h\<lparr>cells := (cells h)(a \<mapsto> b)\<rparr>) else None)"

text \<open>The loop of \<open>MQTTStrncpy\<close>: \<open>while (count > 1 && (*temp++ = *src++)) count--;\<close> and the null byte
  it stores at the end.  When the loop stops at the end of the source, \<open>temp\<close> is already behind the null
  byte that was copied, and the second one goes there.\<close>

fun strncpy_loop :: "nat \<Rightarrow> ptr \<Rightarrow> ptr \<Rightarrow> bufmem \<Rightarrow> bufmem option" where
  "strncpy_loop 0 temp src h = store temp 0 h"
| "strncpy_loop (Suc 0) temp src h = store temp 0 h"
| "strncpy_loop (Suc (Suc n)) temp src h = do {
     c \<leftarrow> load h src;
     h \<leftarrow> store temp c h;
     if c \<noteq> 0 then strncpy_loop (Suc n) (temp + 1) (src + 1) h else store (temp + 1) 0 h
   }"

text \<open>The call of \<open>strlen\<close> for the warning comes first; the result is \<open>dest\<close>.\<close>

definition MQTTStrncpy :: "ptr \<Rightarrow> ptr \<Rightarrow> nat \<Rightarrow> bufmem \<Rightarrow> (ptr \<times> bufmem) option" where
  "MQTTStrncpy dest src dest_size h = do {
     _ \<leftarrow> read_cstr h src;
     h \<leftarrow> strncpy_loop dest_size dest src h;
     Some (dest, h)
   }"

text \<open>\<open>ok\<close> is whether \<open>malloc\<close> finds memory.\<close>

definition MQTTStrdup :: "alloc \<Rightarrow> bool \<Rightarrow> ptr \<Rightarrow> bufmem \<Rightarrow> (ptr \<times> bufmem) option" where
  "MQTTStrdup alloc ok src h = do {
     s \<leftarrow> read_cstr h src;
     if \<not> ok then Some (NULL, h)
     else let mlen = length s + 1; (temp, h) = alloc_buf alloc mlen h in MQTTStrncpy temp src mlen h
   }"

section \<open>What is copied\<close>

lemma store_simps:
  assumes "a \<in> live h"
  shows "store a b h = Some (h\<lparr>cells := (cells h)(a \<mapsto> b)\<rparr>)" "live (h\<lparr>cells := c\<rparr>) = live h"
  using assms by (simp_all add: store_def live_def)

definition string_at :: "bufmem \<Rightarrow> ptr \<Rightarrow> byte list \<Rightarrow> bool" where
  "string_at h p s \<longleftrightarrow> 0 \<notin> set s \<and> (\<forall>i\<le>length s. p + i \<in> live h \<and> cells h (p + i) = Some ((s @ [0]) ! i))"

lemma string_at_Cons: "string_at h p (c # s) \<Longrightarrow> c \<noteq> 0 \<and> load h p = Some c \<and> string_at h (Suc p) s"
  by (auto simp: string_at_def load_def nth_Cons split: nat.splits)

lemma string_at_Nil: "string_at h p [] \<Longrightarrow> load h p = Some 0"
  by (simp add: string_at_def load_def)

lemma strncpy_loop_copies:
  assumes "string_at h src s" "n > 0" "\<forall>i<n. temp + i \<in> live h" "{temp..<temp + n} \<inter> {src..src + length s} = {}"
  shows "\<exists>h'. strncpy_loop n temp src h = Some h' \<and> extent h' = extent h \<and>
    (\<forall>i\<le>min (n - 1) (length s). cells h' (temp + i) = Some ((take (n - 1) s @ [0]) ! i)) \<and>
    (\<forall>a. a \<notin> {temp..<temp + n} \<longrightarrow> cells h' a = cells h a)"
  using assms
proof (induction n temp src h arbitrary: s rule: strncpy_loop.induct)
  case (1 temp src h)
  then show ?case by simp
next
  case (2 temp src h)
  then have "temp \<in> live h" by simp
  then show ?case by (auto simp: store_simps)
next
  case (3 n temp src h)
  have live: "temp \<in> live h" "Suc temp \<in> live h" using 3(4) by (auto dest: spec [of _ 0] spec [of _ 1])
  show ?case
  proof (cases s)
    case Nil
    with 3(2) have "load h src = Some 0" by (simp add: string_at_Nil)
    with live Nil show ?thesis by (auto simp: store_simps)
  next
    case (Cons c cs)
    note c = string_at_Cons [OF 3(2) [unfolded Cons]]
    let ?h = "h\<lparr>cells := (cells h)(temp \<mapsto> c)\<rparr>"
    have disj: "{Suc temp..<Suc temp + Suc n} \<inter> {Suc src..Suc src + length cs} = {}" "temp \<notin> {Suc src..Suc src + length cs}"
      using 3(5) Cons by (simp_all add: disjoint_iff)
    have s': "string_at ?h (Suc src) cs" using c disj(2) by (auto simp: string_at_def store_simps live)
    have l': "\<forall>i<Suc n. Suc temp + i \<in> live ?h"
      using 3(4) by (auto simp: store_simps live dest: spec [of _ "Suc _"])
    obtain h' where h': "strncpy_loop (Suc n) (Suc temp) (Suc src) ?h = Some h'" "extent h' = extent ?h"
      "\<forall>i\<le>min n (length cs). cells h' (Suc temp + i) = Some ((take n cs @ [0]) ! i)"
      "\<forall>a. a \<notin> {Suc temp..<Suc temp + Suc n} \<longrightarrow> cells h' a = cells ?h a"
      using 3(1) [of c ?h cs] c s' l' disj(1) by (auto simp: store_simps live)
    have "strncpy_loop (Suc (Suc n)) temp src h = Some h'" using c h'(1) live by (simp add: store_simps)
    moreover have "cells h' (temp + i) = Some ((take (Suc n) s @ [0]) ! i)" if "i \<le> min (Suc n) (length s)" for i
      using h'(3,4) that Cons by (cases i) auto
    moreover have "cells h' a = cells h a" if "a \<notin> {temp..<temp + Suc (Suc n)}" for a
      using h'(4) that by auto
    ultimately show ?thesis using h'(2) by auto
  qed
qed

lemma read_cstr_string:
  assumes "extent h p = Some n" "length s < n" "string_at h p s"
  shows "read_cstr h p = Some s"
proof -
  have split: "[p..<p + n] = [p..<p + length s] @ (p + length s) # [Suc (p + length s)..<p + n]"
    using assms(2) upt_add_eq_append [of p "p + length s" "n - length s"] upt_conv_Cons [of "p + length s" "p + n"] by simp
  have "map (cells h) [p..<p + length s] = map Some s"
    using assms(3) by (intro nth_equalityI) (auto simp: string_at_def nth_append)
  moreover have "cells h (p + length s) = Some 0" using assms(3) by (auto simp: string_at_def)
  moreover have "takeWhile (\<lambda>c. c \<noteq> Some 0) (map Some s @ Some 0 # cs) = map Some s" for cs
    using assms(3) by (subst takeWhile_append2) (auto simp: string_at_def)
  ultimately have "takeWhile (\<lambda>c. c \<noteq> Some 0) (map (cells h) [p..<p + n]) = map Some s"
    unfolding split map_append list.map(2) by (simp del: map_eq_conv)
  then show ?thesis using assms(1,2) unfolding read_cstr_def by simp
qed

lemma string_read:
  assumes "read_cstr h p = Some s"
  obtains n where "extent h p = Some n" "length s < n" "string_at h p s"
proof -
  obtain n where n: "extent h p = Some n" using assms by (auto simp: read_cstr_def split: Option.bind_splits)
  let ?m = "map (cells h) [p..<p + n]"
  let ?cs = "takeWhile (\<lambda>c. c \<noteq> Some 0) ?m"
  have cs: "length ?cs \<noteq> n" "?cs = map Some s"
    using assms n by (auto simp: read_cstr_def Let_def those_Some split: if_splits)
  have "length ?cs \<le> n" using length_takeWhile_le [of "\<lambda>c. c \<noteq> Some 0" ?m] by simp
  with cs(1) have lt: "length ?cs < length ?m" by simp
  have len: "length ?cs = length s" unfolding cs(2) by simp
  have "?m ! length ?cs = Some 0" using nth_length_takeWhile [OF lt] by simp
  then have z: "cells h (p + length s) = Some 0" using lt unfolding len by simp
  have c: "cells h (p + i) = Some (s ! i)" if "i < length s" for i
    using takeWhile_nth [of i "\<lambda>c. c \<noteq> Some 0" ?m] that lt unfolding cs(2) len by simp
  have "Some 0 \<notin> set ?cs" by (auto dest: set_takeWhileD)
  then have "0 \<notin> set s" unfolding cs(2) by auto
  moreover have "p + i \<in> live h" if "i \<le> length s" for i using n that lt unfolding len by (intro liveI [of h p n]) auto
  ultimately have "string_at h p s" unfolding string_at_def using c z by (auto simp: nth_append le_less)
  with that n lt show thesis unfolding len by simp
qed

lemma string_at_part:
  assumes "0 \<notin> set s" "m \<le> length s" "\<forall>i\<le>m. cells h (p + i) = Some ((take m s @ [0]) ! i) \<and> p + i \<in> live h"
  shows "string_at h p (take m s)"
  using assms by (auto simp: string_at_def dest: in_set_takeD)

lemma blocks_apart:
  assumes "heap_ok h" "extent h p = Some m" "extent h q = Some k" "p \<noteq> q"
  shows "{p..<p + m} \<inter> {q..<q + k} = {}"
  using blocks_disjoint [OF assms(1,4)] assms(2,3) by (simp add: block_def)

lemma strncpy_copies:
  assumes ok: "heap_ok h" and src: "read_cstr h src = Some s" and dest: "extent h dest = Some m" "n \<le> m" and ne: "dest \<noteq> src"
    and n: "n > 0"
  shows "\<exists>h'. MQTTStrncpy dest src n h = Some (dest, h') \<and> read_cstr h' dest = Some (take (n - 1) s) \<and>
      extent h' = extent h \<and> (\<forall>a. a \<notin> {dest..<dest + n} \<longrightarrow> cells h' a = cells h a)"
proof -
  obtain k where k: "extent h src = Some k" "length s < k" "string_at h src s" using string_read [OF src] .
  note apart = blocks_apart [OF ok dest(1) k(1) ne]
  have live: "\<forall>i<n. dest + i \<in> live h" using dest by (auto intro: liveI [of h dest m])
  have "{dest..<dest + n} \<inter> {src..src + length s} = {}" using apart dest(2) k(2) by auto
  from strncpy_loop_copies [OF k(3) n live this] obtain h' where
    h': "strncpy_loop n dest src h = Some h'" "extent h' = extent h"
    "\<forall>i\<le>min (n - 1) (length s). cells h' (dest + i) = Some ((take (n - 1) s @ [0]) ! i)"
    "\<forall>a. a \<notin> {dest..<dest + n} \<longrightarrow> cells h' a = cells h a" by blast
  have l': "live h' = live h" by (simp add: live_def h'(2))
  have "string_at h' dest (take (min (n - 1) (length s)) s)"
    using h'(3) live k(3) n unfolding l' [symmetric] by (intro string_at_part) (auto simp: string_at_def min_def)
  moreover have "take (min (n - 1) (length s)) s = take (n - 1) s" by (simp add: min_def)
  ultimately have "read_cstr h' dest = Some (take (n - 1) s)"
    using dest n by (intro read_cstr_string [of _ _ m]) (auto simp: h'(2))
  then show ?thesis using h' src by (auto simp: MQTTStrncpy_def)
qed

text \<open>C23: The bounded copy.  \<open>MQTTStrncpy\<close> into a block of at least \<open>dest_size > 0\<close> bytes always ends with a
  null-terminated string there: the source when it fits, its first \<open>dest_size - 1\<close> bytes when it does not;
  it reads only the source string, writes only the destination, never behind its \<open>dest_size\<close> bytes, and
  with \<open>dest_size = 0\<close> into an empty block it has no defined result.\<close>

theorem MQTTStrncpy_bounded:
  assumes ok: "heap_ok h" and src: "read_cstr h src = Some s" and dest: "extent h dest = Some m" "n \<le> m" and ne: "dest \<noteq> src"
  shows "(n > 0 \<longrightarrow> (\<exists>h'. MQTTStrncpy dest src n h = Some (dest, h') \<and> read_cstr h' dest = Some (take (n - 1) s) \<and>
      extent h' = extent h \<and> (\<forall>a. a \<notin> {dest..<dest + n} \<longrightarrow> cells h' a = cells h a))) \<and>
    (n = 0 \<and> m = 0 \<longrightarrow> MQTTStrncpy dest src n h = None)"
proof (intro conjI impI)
  show "\<exists>h'. MQTTStrncpy dest src n h = Some (dest, h') \<and> read_cstr h' dest = Some (take (n - 1) s) \<and>
      extent h' = extent h \<and> (\<forall>a. a \<notin> {dest..<dest + n} \<longrightarrow> cells h' a = cells h a)" if "n > 0"
    by (rule strncpy_copies [OF ok src dest ne that])
  assume "n = 0 \<and> m = 0"
  then have "dest \<notin> live h" using empty_block_not_live [OF ok] dest(1) by simp
  then show "MQTTStrncpy dest src n h = None" using \<open>n = 0 \<and> m = 0\<close> by (simp add: MQTTStrncpy_def store_def)
qed

lemma MQTTStrdup_copies:
  assumes al: "buf_allocator alloc" and ok: "heap_ok h" and src: "read_cstr h src = Some s"
  obtains p h' where "MQTTStrdup alloc True src h = Some (p, h')" "p \<noteq> NULL" "extent h p = None"
    "extent h' = (extent h)(p \<mapsto> length s + 1)" "extends h h'" "heap_ok h'" "read_cstr h' p = Some s"
proof -
  obtain p g where p: "alloc_buf alloc (length s + 1) h = (p, g)" by fastforce
  note g = alloc_block [OF al ok p]
  have src': "read_cstr g src = Some s" using extends_cstr [OF g(2) src] .
  have ne: "p \<noteq> src" using g(3) read_cstr_live [OF src] by auto
  obtain h' where h': "MQTTStrncpy p src (length s + 1) g = Some (p, h')" "read_cstr h' p = Some s"
    "extent h' = extent g" "\<forall>a. a \<notin> {p..<p + (length s + 1)} \<longrightarrow> cells h' a = cells g a"
    using strncpy_copies [OF g(1) src', of p "length s + 1" "length s + 1"] g(6) ne by auto
  have c: "cells h' a = cells g a" if "a \<in> live h" for a 
  proof -
    have "a \<notin> {p..<p + (length s + 1)}" using g(5) that by blast
    then show ?thesis using h'(4) g(7) by simp
  qed
  have "extends h h'" using g(2,6,7) c h'(3) by (auto simp: extends_def)
  moreover have "heap_ok h'"
  proof (rule heap_ok_cells [OF g(1) h'(3)], intro allI impI)
    fix a
    assume a: "cells h' a \<noteq> None"
    show "a \<in> live g"
    proof (cases "a \<in> {p..<p + (length s + 1)}")
      case True
      then show ?thesis using g(6) by (intro liveI [of g p "length s + 1"]) auto
    next
      case False
      then have "cells g a \<noteq> None" using a h'(4) by simp
      then show ?thesis using g(1) unfolding heap_ok_def by blast
    qed
  qed
  ultimately show thesis using that [of p h'] h' g(3,4,6) src p by (simp add: MQTTStrdup_def)
qed

theorem MQTTStrncpy_bounded_witness:
  "\<exists>h'. MQTTStrncpy 10 20 3 \<lparr>cells = [20 \<mapsto> 65, 21 \<mapsto> 66, 22 \<mapsto> 67, 23 \<mapsto> 0], extent = [10 \<mapsto> 3, 20 \<mapsto> 4]\<rparr> = Some (10, h') \<and>
     read_cstr h' 10 = Some [65, 66]"
proof -
  let ?h = "\<lparr>cells = [20 \<mapsto> 65, 21 \<mapsto> 66, 22 \<mapsto> 67, 23 \<mapsto> 0 :: byte], extent = [10 \<mapsto> 3, 20 \<mapsto> 4]\<rparr>"
  have ext: "extent ?h p = Some n \<longleftrightarrow> p = 10 \<and> n = 3 \<or> p = 20 \<and> n = 4" for p n by auto
  have "\<forall>a. cells ?h a \<noteq> None \<longrightarrow> a \<in> live ?h"
    by (auto intro!: liveI [of ?h 20 4] split: if_splits)
  then have ok: "heap_ok ?h" unfolding heap_ok_def ext by (auto simp: span_def)
  have src: "read_cstr ?h 20 = Some [65, 66, 67]" by (simp add: read_cstr_def upt_conv_Cons)
  show ?thesis using MQTTStrncpy_bounded [OF ok src, of 10 3 3] by auto
qed

section \<open>Host and port\<close>

text \<open>\<open>strchr\<close> from a position on, and \<open>strrchr\<close>, as positions in the string.\<close>

definition strchr_from :: "nat \<Rightarrow> byte \<Rightarrow> byte list \<Rightarrow> nat option" where
  "strchr_from i c s = map_option (\<lambda>j. i + j) (find_index (\<lambda>x. x = c) (drop i s))"

definition strrchr :: "byte list \<Rightarrow> byte \<Rightarrow> nat option" where
  "strrchr s c = map_option (\<lambda>j. length s - 1 - j) (find_index (\<lambda>x. x = c) (rev s))"

text \<open>\<open>atoi\<close>: white space, a sign, digits; a number that does not fit in an \<open>int\<close> has no defined value.\<close>

definition is_digit :: "byte \<Rightarrow> bool" where
  "is_digit c \<longleftrightarrow> 48 \<le> c \<and> c \<le> 57"

definition is_space :: "byte \<Rightarrow> bool" where
  "is_space c \<longleftrightarrow> c = 32 \<or> 9 \<le> c \<and> c \<le> 13"

definition digits_value :: "byte list \<Rightarrow> int" where
  "digits_value = foldl (\<lambda>v c. v * 10 + (uint c - 48)) 0"

definition atoi :: "byte list \<Rightarrow> int option" where
  "atoi s = (let s = dropWhile is_space s;
       (neg, s) = (case s of c # cs \<Rightarrow> if c = 45 then (True, cs) else if c = 43 then (False, cs) else (False, s) | [] \<Rightarrow> (False, []));
       v = digits_value (takeWhile is_digit s); v = (if neg then - v else v)
     in if v < - (2 ^ 31) \<or> v \<ge> 2 ^ 31 then None else Some v)"

text \<open>The results are the length of the host part, \<open>*port\<close> and the position of the topic part.  A pointer
  that was not found is null, which is smaller than one that was.  The character before the first has no
  defined value.\<close>

definition MQTTProtocol_addressPort :: "byte list \<Rightarrow> int \<Rightarrow> (nat \<times> int \<times> nat option) option" where
  "MQTTProtocol_addressPort uri default_port =
     (let colon_pos = strrchr uri 58;
          colon_pos =
            (if uri \<noteq> [] \<and> hd uri = 91 then
               (case strrchr uri 93 of None \<Rightarrow> colon_pos
                | Some j \<Rightarrow> (case colon_pos of None \<Rightarrow> None | Some i \<Rightarrow> if i < j then None else Some i))
             else colon_pos) in do {
        (len, port) \<leftarrow> (case colon_pos of
            Some i \<Rightarrow> do { port \<leftarrow> atoi (drop (i + 1) uri); Some (i, port) }
          | None \<Rightarrow> Some (length uri, default_port));
        let topic_pos = strchr_from (case colon_pos of None \<Rightarrow> 0 | Some i \<Rightarrow> i) 47 uri;
        let len = (case topic_pos of None \<Rightarrow> len | Some t \<Rightarrow> if colon_pos = None then t else len);
        if len = 0 then None
        else Some (if uri ! (len - 1) = 93 then len - 1 else len, port, topic_pos)
      })"

lemma find_index_here: "\<forall>x\<in>set xs. \<not> P x \<Longrightarrow> P y \<Longrightarrow> find_index P (xs @ y # ys) = Some (length xs)"
  by (induction xs) auto

lemma strrchr_last: "c \<notin> set ys \<Longrightarrow> strrchr (xs @ c # ys) c = Some (length xs)"
proof -
  assume "c \<notin> set ys"
  then have "find_index (\<lambda>x. x = c) (rev ys @ c # rev xs) = Some (length ys)"
    using find_index_here [of "rev ys" "\<lambda>x. x = c" c "rev xs"] by auto
  then show ?thesis by (simp add: strrchr_def)
qed

lemma strrchr_none: "c \<notin> set xs \<Longrightarrow> strrchr xs c = None"
  by (auto simp: strrchr_def find_index_None)

lemma digits_not_special: "is_digit c \<Longrightarrow> c \<noteq> 58 \<and> c \<noteq> 47 \<and> c \<noteq> 93 \<and> \<not> is_space c \<and> c \<noteq> 45 \<and> c \<noteq> 43"
  by (auto simp: is_digit_def is_space_def word_le_nat_alt)

lemma digits_value_bound: "\<forall>c\<in>set ds. is_digit c \<Longrightarrow> 0 \<le> digits_value ds"
  unfolding digits_value_def
proof (induction ds rule: rev_induct)
  case (snoc d ds)
  then have "48 \<le> uint d" by (simp add: is_digit_def word_le_def)
  with snoc show ?case by simp
qed simp

lemma atoi_digits:
  assumes "ds \<noteq> []" "\<forall>c\<in>set ds. is_digit c" "rest = [] \<or> \<not> is_digit (hd rest)" "digits_value ds < 2 ^ 31"
  shows "atoi (ds @ rest) = Some (digits_value ds)"
proof -
  obtain d es where d: "ds = d # es" using assms(1) by (cases ds) auto
  then have dd: "is_digit d" using assms(2) by simp
  note ns = digits_not_special [OF dd]
  have "takeWhile is_digit (ds @ rest) = ds @ takeWhile is_digit rest" using assms(2) by (simp add: takeWhile_append2)
  moreover have "takeWhile is_digit rest = []" using assms(3) by (cases rest) auto
  ultimately show ?thesis using digits_value_bound [OF assms(2)] assms(4) ns unfolding d atoi_def by (simp add: Let_def)
qed

text \<open>C24: The server address.  For a host name, the host part is the whole string before the port or the
  topic; the port is the number behind the last colon, and the default port when there is none.  For an
  IPv6 address in brackets the colons inside the brackets are not taken for a port, and the closing bracket
  is not part of the address.  An empty address, and an address that starts with the colon, make the code read the
  character before the string.\<close>

theorem MQTTProtocol_addressPort_correct:
  assumes ds: "ds \<noteq> []" "\<forall>c\<in>set ds. is_digit c" "digits_value ds < 2 ^ 31"
    and host: "host \<noteq> []" "58 \<notin> set host" "47 \<notin> set host" "hd host \<noteq> 91" "last host \<noteq> 93"
    and v6: "93 \<notin> set addr" "47 \<notin> set addr"
    and topic: "topic = [] \<or> hd topic = 47" "58 \<notin> set topic" "93 \<notin> set topic"
  shows "MQTTProtocol_addressPort (host @ topic) dp = Some (length host, dp, if topic = [] then None else Some (length host)) \<and>
    MQTTProtocol_addressPort (host @ 58 # ds @ topic) dp =
      Some (length host, digits_value ds, if topic = [] then None else Some (length host + 1 + length ds)) \<and>
    MQTTProtocol_addressPort (91 # addr @ [93]) dp = Some (length addr + 1, dp, None) \<and>
    MQTTProtocol_addressPort (91 # addr @ 93 # 58 # ds) dp = Some (length addr + 1, digits_value ds, None) \<and>
    MQTTProtocol_addressPort [] dp = None \<and> MQTTProtocol_addressPort (58 # ds) dp = None"
proof (intro conjI)
  have nd: "58 \<notin> set ds" "47 \<notin> set ds" "93 \<notin> set ds" using ds(2) digits_not_special by blast+
  obtain t where t: "topic = [] \<or> topic = 47 # t" using topic(1) by (cases topic) auto
  have h: "hd (host @ xs) = hd host" "host @ xs \<noteq> []" for xs using host(1) by auto
  have l: "(host @ xs) ! (length host - 1) = last host" for xs using host(1) by (simp add: nth_append last_conv_nth)
  have ch: "strchr_from 0 47 (host @ topic) = (if topic = [] then None else Some (length host))"
    using host(3) t find_index_here [of host "\<lambda>x. x = 47" 47 t]
    by (auto simp: strchr_from_def find_index_None)
  show "MQTTProtocol_addressPort (host @ topic) dp = Some (length host, dp, if topic = [] then None else Some (length host))"
    using strrchr_none [of 58 "host @ topic"] host topic(2) h ch l l [of "[]"]
    by (auto simp: MQTTProtocol_addressPort_def Let_def)
  have nondigit: "topic = [] \<or> \<not> is_digit (hd topic)" using topic(1) by (auto simp: is_digit_def)
  have a: "atoi (ds @ topic) = Some (digits_value ds)" by (rule atoi_digits [OF ds(1,2) nondigit ds(3)])
  have ch2: "strchr_from (length host) 47 (host @ 58 # ds @ topic) = (if topic = [] then None else Some (length host + 1 + length ds))"
  proof (cases "topic = []")
    case False
    then have "topic = 47 # t" using t by simp
    then show ?thesis using find_index_here [of "58 # ds" "\<lambda>x. x = 47" 47 t] nd(2) by (auto simp: strchr_from_def)
  qed (use nd(2) in \<open>auto simp: strchr_from_def find_index_None\<close>)
  show "MQTTProtocol_addressPort (host @ 58 # ds @ topic) dp =
      Some (length host, digits_value ds, if topic = [] then None else Some (length host + 1 + length ds))"
    using strrchr_last [of 58 "ds @ topic" host] nd(1) host topic(2) h ch2 l a
    by (auto simp: MQTTProtocol_addressPort_def Let_def)
  have b1: "strrchr (91 # addr @ [93]) 93 = Some (length addr + 1)"
    using strrchr_last [of 93 "[]" "91 # addr"] by simp
  have c1: "strrchr (91 # addr @ [93]) 58 = None \<or> (\<exists>i. strrchr (91 # addr @ [93]) 58 = Some i \<and> i < length addr + 1)"
  proof (cases "58 \<in> set addr")
    case True
    then obtain ys zs where "addr = ys @ 58 # zs" "58 \<notin> set zs" using split_list_last [of 58 addr] by auto
    then show ?thesis using strrchr_last [of 58 "zs @ [93]" "91 # ys"] by simp
  qed (use strrchr_none [of 58 "91 # addr @ [93]"] in simp)
  have f1: "strchr_from 0 47 (91 # addr @ [93]) = None" using v6(2) by (auto simp: strchr_from_def find_index_None)
  show "MQTTProtocol_addressPort (91 # addr @ [93]) dp = Some (length addr + 1, dp, None)"
    using b1 c1 f1 by (auto simp: MQTTProtocol_addressPort_def Let_def nth_append)
  have b2: "strrchr (91 # addr @ 93 # 58 # ds) 93 = Some (length addr + 1)"
    using strrchr_last [of 93 "58 # ds" "91 # addr"] nd(3) by simp
  have c2: "strrchr (91 # addr @ 93 # 58 # ds) 58 = Some (length addr + 2)"
    using strrchr_last [of 58 ds "91 # addr @ [93]"] nd(1) by simp
  have a2: "atoi ds = Some (digits_value ds)" using atoi_digits [OF ds(1,2) _ ds(3), of "[]"] by simp
  have f2: "strchr_from (length addr + 2) 47 (91 # addr @ 93 # 58 # ds) = None"
    using nd(2) by (auto simp: strchr_from_def find_index_None)
  show "MQTTProtocol_addressPort (91 # addr @ 93 # 58 # ds) dp = Some (length addr + 1, digits_value ds, None)"
    using b2 c2 a2 f2 by (simp add: MQTTProtocol_addressPort_def Let_def nth_append)
  show "MQTTProtocol_addressPort [] dp = None"
    by (simp add: MQTTProtocol_addressPort_def Let_def strrchr_def strchr_from_def)
  show "MQTTProtocol_addressPort (58 # ds) dp = None"
    using strrchr_last [of 58 ds "[]"] nd(1) a2 by (simp add: MQTTProtocol_addressPort_def Let_def split: option.split)
qed

theorem MQTTProtocol_addressPort_correct_witness:
  "MQTTProtocol_addressPort [104, 111] 1883 = Some (2, 1883, None) \<and>
   MQTTProtocol_addressPort [104, 111, 58, 56, 48] 1883 = Some (2, 80, None) \<and>
   MQTTProtocol_addressPort [91, 58, 58, 49, 93] 1883 = Some (4, 1883, None)"
  using MQTTProtocol_addressPort_correct [of "[56, 48]" "[104, 111]" "[58, 58, 49]" "[]" 1883]
  by (simp add: is_digit_def digits_value_def)

end
