(* ===== verification/MessageStore.thy ===== *)
theory MessageStore
  imports Sending Strings "HOL-Library.Multiset"
begin

text \<open>
  The message layer, \<^verbatim>\<open>src/src/MQTTProtocol.c\<close>: message ids, the store of publications that messages and
  unfinished writes share by reference counts, publishing, and what is done with a PUBLISH or a PUBACK that
  comes in.  Topics and payloads are blocks of memory; a publication is a block too, with its fields in a
  table.  Messages, queue entries and acknowledgements belong to one list each and are values in it.
\<close>

section \<open>State\<close>

definition MAX_MSG_ID :: int where [codes]: "MAX_MSG_ID = 65535"
definition NOT_IN_PROGRESS :: int where [codes]: "NOT_IN_PROGRESS = 0"
definition TCP_IN_PROGRESS :: int where [codes]: "TCP_IN_PROGRESS = 1"
definition WAIT_FOR_CONNACK :: int where [codes]: "WAIT_FOR_CONNACK = 4"

record Publications =
  pu_topic :: ptr
  pu_topiclen :: int
  pu_payload :: ptr
  pu_payloadlen :: int
  pu_refcount :: int

text \<open>The properties stay uninitialised before MQTT 5, the type of the next message except for quality of
  service 2.\<close>

record Messages =
  ms_qos :: int
  ms_retain :: int
  ms_msgid :: int
  ms_version :: int
  ms_properties :: "MQTTProperties option"
  ms_publish :: ptr
  ms_nextMessageType :: "int option"

record MQTTClient_message =
  mm_payloadlen :: int
  mm_payload :: ptr
  mm_qos :: int
  mm_retained :: int
  mm_dup :: int
  mm_msgid :: int
  mm_properties :: MQTTProperties

record qEntry =
  qe_msg :: MQTTClient_message
  qe_topicName :: ptr
  qe_topicLen :: int

record AckRequest =
  ar_messageId :: int
  ar_ackType :: int

record Clients =
  cl_clientID :: "byte list option"
  cl_username :: "byte list option"
  cl_password :: "byte list option"
  cl_passwordlen :: int
  cl_good :: bool
  cl_connect_state :: int
  cl_socket :: int
  cl_msgID :: int
  cl_keepAliveInterval :: int
  cl_inboundMsgs :: "Messages alist"
  cl_outboundMsgs :: "Messages alist"
  cl_messageQueue :: "qEntry alist"
  cl_outboundQueue :: "AckRequest alist"
  cl_MQTTVersion :: int

text \<open>A PUBLISH in memory, with addresses.\<close>

record Publish_struct =
  ps_header :: Header
  ps_topic :: ptr
  ps_topiclen :: int
  ps_msgId :: int
  ps_payload :: ptr
  ps_payloadlen :: int
  ps_version :: int
  ps_properties :: MQTTProperties

text \<open>The globals \<open>state\<close> and \<open>bstate\<close>, the clients, the network below and what \<open>malloc\<close> will answer in
  this layer.\<close>

record proto =
  nw :: net
  answers :: mallocs
  pubs :: "ptr \<Rightarrow> Publications option"
  publications :: "ptr alist"
  pending_writes :: "(int \<times> ptr) alist"
  client_at :: "ptr \<Rightarrow> Clients option"
  clients :: "ptr alist"

abbreviation mem_of :: "proto \<Rightarrow> bufmem" where "mem_of s \<equiv> bufs (nw s)"

definition set_mem :: "bufmem \<Rightarrow> proto \<Rightarrow> proto" where
  "set_mem h s = s\<lparr>nw := (nw s)\<lparr>bufs := h\<rparr>\<rparr>"

section \<open>Memory\<close>

text \<open>\<open>malloc\<close> of something whose address does not matter, of a block, and of a list element.\<close>

definition malloc_ok :: "proto \<Rightarrow> bool \<times> proto" where
  "malloc_ok s = (let (ok, ms) = next_malloc (answers s) in (ok, s\<lparr>answers := ms\<rparr>))"

definition malloc_block :: "alloc \<Rightarrow> nat \<Rightarrow> proto \<Rightarrow> ptr \<times> proto" where
  "malloc_block alloc n s =
     (let (ok, s) = malloc_ok s in
      if ok then let (p, h) = alloc_buf alloc n (mem_of s) in (p, set_mem h s) else (NULL, s))"

definition append_item :: "'c \<Rightarrow> 'c alist \<Rightarrow> proto \<Rightarrow> bool \<times> 'c alist \<times> proto" where
  "append_item x l s = (let (ok, s) = malloc_ok s in (ok, if ok then a_append x l else l, s))"

definition free_block :: "ptr \<Rightarrow> proto \<Rightarrow> proto option" where
  "free_block p s = map_option (\<lambda>h. set_mem h s) (free_buf p (mem_of s))"

text \<open>\<open>memcpy\<close> of \<open>n\<close> bytes from \<open>src\<close> to the start of the block at \<open>dest\<close>.\<close>

definition copy_to :: "ptr \<Rightarrow> ptr \<Rightarrow> nat \<Rightarrow> proto \<Rightarrow> proto option" where
  "copy_to dest src n s = do {
     bs \<leftarrow> read_buf (mem_of s) src n;
     m \<leftarrow> extent (mem_of s) dest;
     if n > m then None else Some (set_mem (fill dest bs (mem_of s)) s)
   }"

definition upd_client :: "ptr \<Rightarrow> (Clients \<Rightarrow> Clients) \<Rightarrow> proto \<Rightarrow> proto" where
  "upd_client c f s = s\<lparr>client_at := (client_at s)(c := map_option f (client_at s c))\<rparr>"

section \<open>Message ids\<close>

definition messageIDCompare :: "Messages \<Rightarrow> int \<Rightarrow> bool" where
  "messageIDCompare m msgid \<longleftrightarrow> ms_msgid m = msgid"

definition next_id :: "int \<Rightarrow> int" where
  "next_id msgid = (if msgid = MAX_MSG_ID then 1 else msgid + 1)"

text \<open>The loop of \<open>MQTTProtocol_assignMsgId\<close>; the search moves the cursor of the list.  No result means
  that the loop does not end.\<close>

partial_function (option) assign_loop :: "int \<Rightarrow> int \<Rightarrow> Messages alist \<Rightarrow> (int \<times> Messages alist) option" where
  "assign_loop start msgid l =
     (case a_find (\<lambda>m. messageIDCompare m msgid) l of (found, l) \<Rightarrow>
        if found = None then Some (msgid, l)
        else if next_id msgid = start then Some (0, l)
        else assign_loop start (next_id msgid) l)"

definition MQTTProtocol_assignMsgId :: "Clients \<Rightarrow> (int \<times> Clients) option" where
  "MQTTProtocol_assignMsgId c = do {
     (msgid, l) \<leftarrow> assign_loop (cl_msgID c) (next_id (cl_msgID c)) (cl_outboundMsgs c);
     let c = c\<lparr>cl_outboundMsgs := l\<rparr>;
     Some (msgid, if msgid \<noteq> 0 then c\<lparr>cl_msgID := msgid\<rparr> else c)
   }"

section \<open>Publications\<close>

text \<open>The result is the new publication, or null, and the packet without what has moved.\<close>

definition MQTTProtocol_storePublication :: "alloc \<Rightarrow> Publish_struct \<Rightarrow> proto \<Rightarrow> (ptr \<times> Publish_struct \<times> proto) option" where
  "MQTTProtocol_storePublication alloc publish s =
     (let (p, s) = malloc_block alloc 40 s in
      if p = NULL then Some (NULL, publish, s)
      else do {
        _ \<leftarrow> read_cstr (mem_of s) (ps_topic publish);
        let pub = \<lparr>pu_topic = ps_topic publish, pu_topiclen = ps_topiclen publish, pu_payload = ps_payload publish,
                   pu_payloadlen = ps_payloadlen publish, pu_refcount = 1\<rparr>;
        let publish = publish\<lparr>ps_topic := NULL, ps_payload := NULL\<rparr>;
        let (ok, l, s) = append_item p (publications s) s;
        let s = s\<lparr>publications := l\<rparr>;
        if ok then Some (p, publish, s\<lparr>pubs := (pubs s)(p \<mapsto> pub)\<rparr>)
        else do { s \<leftarrow> free_block p s; Some (NULL, publish, s) }
      })"

definition MQTTProtocol_removePublication :: "ptr \<Rightarrow> proto \<Rightarrow> proto option" where
  "MQTTProtocol_removePublication p s =
     (if p = NULL then Some s
      else do {
        pub \<leftarrow> pubs s p;
        let r = pu_refcount pub - 1;
        if r = 0 then do {
          s \<leftarrow> free_block (pu_payload pub) s;
          s \<leftarrow> free_block (pu_topic pub) s;
          case a_unlink (\<lambda>x. x = p) (publications s) of
            (None, l) \<Rightarrow> Some (s\<lparr>publications := l, pubs := (pubs s)(p \<mapsto> pub\<lparr>pu_refcount := 0, pu_payload := NULL, pu_topic := NULL\<rparr>)\<rparr>)
          | (Some _, l) \<Rightarrow> free_block p (s\<lparr>publications := l, pubs := (pubs s)(p := None)\<rparr>)
        }
        else Some (s\<lparr>pubs := (pubs s)(p \<mapsto> pub\<lparr>pu_refcount := r\<rparr>)\<rparr>)
      })"

section \<open>Publishing\<close>

text \<open>A pointer to a message: none, one that has been freed, or one to a message.\<close>

datatype message_ptr = No_message | Dangling | Message Messages

definition MQTTProtocol_createMessage ::
  "alloc \<Rightarrow> Publish_struct \<Rightarrow> Messages option \<Rightarrow> int \<Rightarrow> int \<Rightarrow> bool \<Rightarrow> proto \<Rightarrow>
   (message_ptr \<times> Publish_struct \<times> proto) option" where
  "MQTTProtocol_createMessage alloc publish mm qos retained allocatePayload s =
     (let (ok, s) = malloc_ok s in
      if \<not> ok then Some (No_message, publish, s)
      else do {
        (p, publish', s) \<leftarrow> (case mm of
            Some old \<Rightarrow>
              if ms_publish old = NULL then MQTTProtocol_storePublication alloc publish s
              else do {
                pub \<leftarrow> pubs s (ms_publish old);
                Some (ms_publish old, publish, s\<lparr>pubs := (pubs s)(ms_publish old \<mapsto> pub\<lparr>pu_refcount := pu_refcount pub + 1\<rparr>)\<rparr>)
              }
          | None \<Rightarrow> MQTTProtocol_storePublication alloc publish s);
        if p = NULL then Some (Dangling, publish', s)
        else do {
          (ok, s) \<leftarrow> (if allocatePayload \<and> (mm = None \<or> ms_publish (the mm) = NULL) then do {
               pub \<leftarrow> pubs s p;
               if pu_payloadlen pub < 0 then None
               else
                 let (b, s) = malloc_block alloc (nat (pu_payloadlen pub)) s;
                     s = s\<lparr>pubs := (pubs s)(p \<mapsto> pub\<lparr>pu_payload := b\<rparr>)\<rparr> in
                 if b = NULL then Some (False, s)
                 else do { s \<leftarrow> copy_to b (pu_payload pub) (nat (pu_payloadlen pub)) s; Some (True, s) }
             } else Some (True, s));
          if \<not> ok then Some (Dangling, publish', s)
          else do {
            (props, ms) \<leftarrow> (if ps_version publish \<ge> 5 then do {
                 (props, ms) \<leftarrow> MQTTProperties_copy (ps_properties publish) (answers s); Some (Some props, ms)
               } else Some (None, answers s));
            Some (Message \<lparr>ms_qos = qos, ms_retain = retained, ms_msgid = ps_msgId publish, ms_version = ps_version publish,
                           ms_properties = props, ms_publish = p,
                           ms_nextMessageType = (if qos = 2 then Some PUBREC else None)\<rparr>,
                  publish', s\<lparr>answers := ms\<rparr>)
          }
        }
      })"

text \<open>The packet that the addresses in a \<open>Publish\<close> stand for.\<close>

definition publish_value :: "bufmem \<Rightarrow> Publish_struct \<Rightarrow> Publish option" where
  "publish_value h p = do {
     topic \<leftarrow> read_cstr h (ps_topic p);
     if ps_payloadlen p < 0 then None
     else do {
       payload \<leftarrow> read_buf h (ps_payload p) (nat (ps_payloadlen p));
       Some \<lparr>pub_header = ps_header p, pub_topic = topic, pub_topiclen = ps_topiclen p, pub_msgId = ps_msgId p,
             pub_payload = payload, pub_payloadlen = ps_payloadlen p, pub_version = ps_version p,
             pub_properties = ps_properties p\<rparr>
     }
   }"

text \<open>A builder that runs on the network with the answers of this layer.\<close>

definition on_net :: "(mallocs \<Rightarrow> net \<Rightarrow> (int \<times> mallocs \<times> net) option) \<Rightarrow> proto \<Rightarrow> (int \<times> proto) option" where
  "on_net send s = do { (rc, ms, n) \<leftarrow> send (answers s) (nw s); Some (rc, s\<lparr>answers := ms, nw := n\<rparr>) }"

definition MQTTProtocol_storeQoS0 :: "alloc \<Rightarrow> Clients \<Rightarrow> Publish_struct \<Rightarrow> proto \<Rightarrow> (Publish_struct \<times> proto) option" where
  "MQTTProtocol_storeQoS0 alloc pubclient publish s =
     (let (ok, s) = malloc_ok s in
      if \<not> ok then Some (publish, s)
      else do {
        (p, publish, s) \<leftarrow> MQTTProtocol_storePublication alloc publish s;
        if p = NULL then Some (publish, s)
        else
          let (ok, l, s) = append_item (cl_socket pubclient, p) (pending_writes s) s; s = s\<lparr>pending_writes := l\<rparr> in
          if \<not> ok then do { s \<leftarrow> free_block p s; Some (publish, s\<lparr>pubs := (pubs s)(p := None)\<rparr>) }
          else do {
            pub \<leftarrow> pubs s p;
            let (_, b) = SocketBuffer_updateWrite (cl_socket pubclient) (pu_topic pub) (pu_payload pub) (sbuf (nw s));
            Some (publish\<lparr>ps_topic := NULL, ps_payload := NULL\<rparr>, s\<lparr>nw := set_sbuf b (nw s)\<rparr>)
          }
      })"

definition MQTTProtocol_startPublishCommon ::
  "alloc \<Rightarrow> Clients \<Rightarrow> Publish_struct \<Rightarrow> int \<Rightarrow> int \<Rightarrow> proto \<Rightarrow> (int \<times> Publish_struct \<times> proto) option" where
  "MQTTProtocol_startPublishCommon alloc pubclient publish qos retained s = do {
     pack \<leftarrow> publish_value (mem_of s) publish;
     (rc, s) \<leftarrow> on_net (MQTTPacket_send_publish
        (net_put alloc [ps_topic publish, ps_payload publish] (cl_socket pubclient)) pack 0 qos retained) s;
     if qos = 0 \<and> rc = TCPSOCKET_INTERRUPTED then do {
       (publish, s) \<leftarrow> MQTTProtocol_storeQoS0 alloc pubclient publish s;
       Some (rc, publish, s)
     }
     else Some (rc, publish, s)
   }"

text \<open>\<open>c\<close> is the client's address; the results are the completion code, \<open>*mm\<close>, the packet and the state.\<close>

definition MQTTProtocol_startPublish ::
  "alloc \<Rightarrow> ptr \<Rightarrow> Publish_struct \<Rightarrow> int \<Rightarrow> int \<Rightarrow> Messages option \<Rightarrow> proto \<Rightarrow>
   (int \<times> Messages option \<times> Publish_struct \<times> proto) option" where
  "MQTTProtocol_startPublish alloc c publish qos retained mm s = do {
     pubclient \<leftarrow> client_at s c;
     if qos > 0 then do {
       (m, publish', s) \<leftarrow> MQTTProtocol_createMessage alloc publish mm qos retained False s;
       case m of
         Message m \<Rightarrow> do {
           let (_, l, s) = append_item m (cl_outboundMsgs pubclient) s;
           let s = upd_client c (cl_outboundMsgs_update (\<lambda>_. l)) s;
           pub \<leftarrow> pubs s (ms_publish m);
           if ms_version m \<ge> 5 \<and> ms_properties m = None then None
           else
             let qos12pub = publish\<lparr>ps_payload := pu_payload pub, ps_topic := pu_topic pub,
                   ps_properties := (case ms_properties m of Some ps \<Rightarrow> ps | None \<Rightarrow> ps_properties publish),
                   ps_version := ms_version m\<rparr>
             in do {
               (rc, _, s) \<leftarrow> MQTTProtocol_startPublishCommon alloc pubclient qos12pub qos retained s;
               Some (rc, Some m, publish', s)
             }
         }
       | _ \<Rightarrow> None
     }
     else do {
       (rc, publish, s) \<leftarrow> MQTTProtocol_startPublishCommon alloc pubclient publish qos retained s;
       Some (rc, mm, publish, s)
     }
   }"

section \<open>Incoming packets\<close>

definition MQTTProperties_socketCompare :: "Clients \<Rightarrow> int \<Rightarrow> bool" where
  "MQTTProperties_socketCompare client sock \<longleftrightarrow> cl_socket client = sock"

text \<open>\<open>ListFindItem(bstate->clients, &sock, MQTTProperties_socketCompare)->content\<close>: the client that uses the
  socket; every entry has to be a client, and when none uses the socket the code dereferences null.\<close>

definition find_client :: "int \<Rightarrow> proto \<Rightarrow> (ptr \<times> proto) option" where
  "find_client sock s =
     (if \<exists>c\<in>set (items (clients s)). client_at s c = None then None
      else case a_find (\<lambda>c. MQTTProperties_socketCompare (the (client_at s c)) sock) (clients s) of
        (None, _) \<Rightarrow> None
      | (Some i, l) \<Rightarrow> Some (items l ! i, s\<lparr>clients := l\<rparr>))"

definition MQTTPacket_freePublish :: "Publish_struct \<Rightarrow> proto \<Rightarrow> proto option" where
  "MQTTPacket_freePublish pack s = (if ps_topic pack \<noteq> NULL then free_block (ps_topic pack) s else Some s)"

definition Protocol_processPublication ::
  "alloc \<Rightarrow> Publish_struct \<Rightarrow> ptr \<Rightarrow> bool \<Rightarrow> proto \<Rightarrow> (Publish_struct \<times> proto) option" where
  "Protocol_processPublication alloc publish c allocatePayload s = do {
     client \<leftarrow> client_at s c;
     let (ok, s) = malloc_ok s;
     if \<not> ok then Some (publish, s)
     else
       let (ok, s) = malloc_ok s in
       if \<not> ok then Some (publish, s)
       else
         let topicName = ps_topic publish; publish' = publish\<lparr>ps_topic := NULL\<rparr> in
         if ps_payloadlen publish < 0 then None
         else do {
           (payload, s) \<leftarrow> (if allocatePayload then
                let (b, s) = malloc_block alloc (nat (ps_payloadlen publish)) s in
                if b = NULL then Some (None, s)
                else do { s \<leftarrow> copy_to b (ps_payload publish) (nat (ps_payloadlen publish)) s; Some (Some b, s) }
              else Some (Some (ps_payload publish), s));
           case payload of
             None \<Rightarrow> Some (publish', s)
           | Some b \<Rightarrow> do {
               (props, ms) \<leftarrow> (if ps_version publish \<ge> 5 then MQTTProperties_copy (ps_properties publish) (answers s)
                  else Some (MQTTProperties_initializer, answers s));
               let s = s\<lparr>answers := ms\<rparr>;
               let qe = \<lparr>qe_msg = \<lparr>mm_payloadlen = ps_payloadlen publish, mm_payload = b, mm_qos = h_qos (ps_header publish),
                        mm_retained = h_retain (ps_header publish),
                        mm_dup = (if h_qos (ps_header publish) = 2 then 0 else h_dup (ps_header publish)),
                        mm_msgid = ps_msgId publish, mm_properties = props\<rparr>,
                      qe_topicName = topicName, qe_topicLen = ps_topiclen publish\<rparr>;
               _ \<leftarrow> read_cstr (mem_of s) topicName;
               let (_, l, s) = append_item qe (cl_messageQueue client) s;
               Some (publish', upd_client c (cl_messageQueue_update (\<lambda>_. l)) s)
             }
         }
   }"

definition MQTTProtocol_queueAck :: "ptr \<Rightarrow> int \<Rightarrow> int \<Rightarrow> proto \<Rightarrow> (int \<times> proto) option" where
  "MQTTProtocol_queueAck c ackType msgId s = do {
     client \<leftarrow> client_at s c;
     let (ok, s) = malloc_ok s;
     if \<not> ok then Some (PAHO_MEMORY_ERROR, s)
     else
       let (_, l, s) = append_item \<lparr>ar_messageId = msgId, ar_ackType = ackType\<rparr> (cl_outboundQueue client) s
       in Some (0, upd_client c (cl_outboundQueue_update (\<lambda>_. l)) s)
   }"

text \<open>The branch for quality of service 2: the publication is kept in the inbound list, in the place of one
  with the same id.  The pointer to the payload, which is still in the receive buffer, is replaced by a copy.\<close>

definition store_inbound :: "alloc \<Rightarrow> Publish_struct \<Rightarrow> ptr \<Rightarrow> bool \<Rightarrow> proto \<Rightarrow> (int \<times> Publish_struct \<times> proto) option" where
  "store_inbound alloc publish c socketHasPendingWrites s =
     (let (ok, s) = malloc_ok s in
      if \<not> ok then Some (PAHO_MEMORY_ERROR, publish, s)
      else do {
        (p, publish', s) \<leftarrow> MQTTProtocol_storePublication alloc publish s;
        client \<leftarrow> client_at s c;
        let m = \<lparr>ms_qos = h_qos (ps_header publish), ms_retain = h_retain (ps_header publish), ms_msgid = ps_msgId publish,
                 ms_version = ps_version publish, ms_properties = None, ms_publish = p, ms_nextMessageType = Some PUBREL\<rparr>;
        s \<leftarrow> (case a_find (\<lambda>x. messageIDCompare x (ms_msgid m)) (cl_inboundMsgs client) of
            (Some i, l) \<Rightarrow> do {
              s \<leftarrow> MQTTProtocol_removePublication (ms_publish (items l ! i)) s;
              let (ok, s) = malloc_ok s;
              Some (upd_client c (cl_inboundMsgs_update (\<lambda>_. if ok then remove_at (Suc i) (a_insert i m l) else remove_at i l)) s)
            }
          | (None, l) \<Rightarrow> do {
              let (_, l, s) = append_item m l s;
              Some (upd_client c (cl_inboundMsgs_update (\<lambda>_. l)) s)
            });
        pub \<leftarrow> pubs s p;
        if pu_payloadlen pub < 0 then None
        else
          let (b, s) = malloc_block alloc (nat (pu_payloadlen pub)) s; s = s\<lparr>pubs := (pubs s)(p \<mapsto> pub\<lparr>pu_payload := b\<rparr>)\<rparr> in
          if b = NULL then Some (PAHO_MEMORY_ERROR, publish', s)
          else do {
            s \<leftarrow> copy_to b (pu_payload pub) (nat (pu_payloadlen pub)) s;
            (rc, s) \<leftarrow> (if socketHasPendingWrites then MQTTProtocol_queueAck c PUBREC (ps_msgId publish') s
                       else Some (TCPSOCKET_COMPLETE, s));
            Some (rc, publish'\<lparr>ps_topic := NULL\<rparr>, s)
          }
      })"

definition MQTTProtocol_handlePublishes :: "alloc \<Rightarrow> Publish_struct \<Rightarrow> int \<Rightarrow> proto \<Rightarrow> (int \<times> proto) option" where
  "MQTTProtocol_handlePublishes alloc publish sock s = do {
     (c, s) \<leftarrow> find_client sock s;
     client \<leftarrow> client_at s c;
     (rc, publish, s) \<leftarrow>
       (if h_qos (ps_header publish) = 0 then do {
          (publish, s) \<leftarrow> Protocol_processPublication alloc publish c True s;
          Some (TCPSOCKET_COMPLETE, publish, s)
        }
        else
          let (none, n) = Socket_noPendingWrites sock (nw s); socketHasPendingWrites = \<not> none; s = s\<lparr>nw := n\<rparr> in
          if h_qos (ps_header publish) = 1 then do {
            (publish, s) \<leftarrow> Protocol_processPublication alloc publish c True s;
            (rc, s) \<leftarrow> (if socketHasPendingWrites then MQTTProtocol_queueAck c PUBACK (ps_msgId publish) s
                       else on_net (MQTTPacket_send_puback (net_put alloc [] (cl_socket client)) (ps_msgId publish)) s);
            Some (rc, publish, s)
          }
          else if h_qos (ps_header publish) = 2 then store_inbound alloc publish c socketHasPendingWrites s
          else Some (TCPSOCKET_COMPLETE, publish, s));
     s \<leftarrow> MQTTPacket_freePublish publish s;
     Some (rc, s)
   }"

text \<open>\<open>ListRemove(client->outboundMsgs, m)\<close> finds the current element, where the search for the id has just
  stopped.\<close>

definition MQTTProtocol_handlePubacks :: "Ack \<Rightarrow> int \<Rightarrow> proto \<Rightarrow> (int \<times> proto) option" where
  "MQTTProtocol_handlePubacks puback sock s = do {
     (c, s) \<leftarrow> find_client sock s;
     client \<leftarrow> client_at s c;
     msgId \<leftarrow> ack_msgId puback;
     case a_find (\<lambda>m. messageIDCompare m msgId) (cl_outboundMsgs client) of
       (None, l) \<Rightarrow> Some (TCPSOCKET_COMPLETE, upd_client c (cl_outboundMsgs_update (\<lambda>_. l)) s)
     | (Some i, l) \<Rightarrow>
         let m = items l ! i in
         if ms_qos m \<noteq> 1 then Some (TCPSOCKET_COMPLETE, upd_client c (cl_outboundMsgs_update (\<lambda>_. l)) s)
         else do {
           s \<leftarrow> MQTTProtocol_removePublication (ms_publish m) s;
           Some (TCPSOCKET_COMPLETE, upd_client c (cl_outboundMsgs_update (\<lambda>_. remove_at i l)) s)
         }
   }"

section \<open>Lists of messages, clients\<close>

fun remove_publications :: "Messages list \<Rightarrow> proto \<Rightarrow> proto option" where
  "remove_publications [] s = Some s"
| "remove_publications (m # ms) s = do { s \<leftarrow> MQTTProtocol_removePublication (ms_publish m) s; remove_publications ms s }"

text \<open>The results are the emptied list and the state.\<close>

definition MQTTProtocol_emptyMessageList :: "Messages alist \<Rightarrow> proto \<Rightarrow> (Messages alist \<times> proto) option" where
  "MQTTProtocol_emptyMessageList msgList s = do { s \<leftarrow> remove_publications (items msgList) s; Some (empty_alist, s) }"

text \<open>What is left of a freed list cannot be told from an empty one here: the client goes next.\<close>

definition MQTTProtocol_freeClient :: "ptr \<Rightarrow> proto \<Rightarrow> proto option" where
  "MQTTProtocol_freeClient c s = do {
     client \<leftarrow> client_at s c;
     (out, s) \<leftarrow> MQTTProtocol_emptyMessageList (cl_outboundMsgs client) s;
     (inb, s) \<leftarrow> MQTTProtocol_emptyMessageList (cl_inboundMsgs client) s;
     Some (upd_client c (\<lambda>client. client\<lparr>cl_outboundMsgs := out, cl_inboundMsgs := inb, cl_messageQueue := empty_alist,
        cl_outboundQueue := empty_alist, cl_clientID := None\<rparr>) s)
   }"

end
