(* ===== verification/Ownership.thy ===== *)
theory Ownership
  imports MessageStore
begin

text \<open>
  Who owns which block of memory: blocks held by the message layer, which no unfinished write will free,
  through allocation, copying, freeing and the sending of packets.
\<close>

section \<open>Blocks that a caller holds\<close>

text \<open>The blocks of the multiset \<open>H\<close> are live, held once, and not the socket layer's to free.\<close>

definition held :: "net \<Rightarrow> ptr multiset \<Rightarrow> bool" where
  "held n H \<longleftrightarrow> send_ok n \<and> (\<forall>x. count H x \<le> 1) \<and> (\<forall>x\<in>#H. x \<noteq> NULL \<and> extent (bufs n) x \<noteq> None) \<and>
     (\<forall>l qw. write_lookup (sbuf n) l = Some qw \<longrightarrow> set (owned (pw_iovecs qw) (pw_frees qw)) \<inter> set_mset H = {})"

text \<open>No unfinished write reads from the block at \<open>x\<close>.\<close>

definition unread :: "net \<Rightarrow> ptr \<Rightarrow> bool" where
  "unread n x \<longleftrightarrow> (\<forall>l qw. write_lookup (sbuf n) l = Some qw \<longrightarrow> uses (pw_iovecs qw) \<inter> block (bufs n) x = {})"

lemma heldD:
  assumes "held n H"
  shows "send_ok n" "heap_ok (bufs n)" "x \<in># H \<Longrightarrow> x \<noteq> NULL" "x \<in># H \<Longrightarrow> extent (bufs n) x \<noteq> None" "count H x \<le> 1"
    "write_lookup (sbuf n) l = Some qw \<Longrightarrow> set (owned (pw_iovecs qw) (pw_frees qw)) \<inter> set_mset H = {}"
  using assms unfolding held_def send_ok_def by blast+

lemma held_subset: "held n H \<Longrightarrow> H' \<subseteq># H \<Longrightarrow> held n H'"
  unfolding held_def by (meson le_trans mset_subset_eqD mset_subset_eq_count disjoint_iff)

text \<open>More memory, the same writes.\<close>

lemma held_extends:
  assumes h: "held n H" and ok: "heap_ok h" and ext: "extends (bufs n) h"
  shows "held (n\<lparr>bufs := h\<rparr>) H"
proof -
  have "extent h x \<noteq> None" if "x \<in># H" for x
    using heldD(4) [OF h that] extends_extent [OF ext, of x] by auto
  then show ?thesis using h send_ok_bufs(1) [OF _ ok ext] unfolding held_def by simp
qed

lemma unread_extends:
  assumes "held n H" "x \<in># H" "extends (bufs n) h" "unread n x"
  shows "unread (n\<lparr>bufs := h\<rparr>) x"
  using assms block_extends [OF assms(3) heldD(4) [OF assms(1,2)]] by (simp add: unread_def)

text \<open>A new block.\<close>

lemma held_new:
  assumes h: "held n H" and ok: "heap_ok h" and ext: "extends (bufs n) h" and p: "extent (bufs n) p = None" "p \<noteq> NULL" "extent h p \<noteq> None"
  shows "held (n\<lparr>bufs := h\<rparr>) (add_mset p H)" "p \<notin># H" "unread (n\<lparr>bufs := h\<rparr>) p"
proof -
  note hx = held_extends [OF h ok ext]
  show new: "p \<notin># H" using heldD(4) [OF h, of p] p(1) by auto
  have foreign: "p \<notin> set (owned (pw_iovecs qw) (pw_frees qw))" if "write_lookup (sbuf n) l = Some qw" for l qw
    using pending_uses(2) [OF heldD(1) [OF h] that] p(1) by auto
  have "count H x \<le> 1" "p = x \<Longrightarrow> count H x = 0" for x using heldD(5) [OF h] new by (auto simp: not_in_iff)
  then have c: "count (add_mset p H) x \<le> 1" for x by (cases "p = x") simp_all
  show "held (n\<lparr>bufs := h\<rparr>) (add_mset p H)"
    unfolding held_def using hx c foreign p(2,3) unfolding held_def by auto
  have "a \<notin> block h p" if "write_lookup (sbuf n) l = Some qw" "a \<in> uses (pw_iovecs qw)" for l qw a
    using new_block_apart [OF ok ext p(1)] pending_uses(1) [OF heldD(1) [OF h] that(1)] that(2) by blast
  then show "unread (n\<lparr>bufs := h\<rparr>) p" unfolding unread_def by auto
qed

text \<open>Writing into a block that no unfinished write reads.\<close>

lemma fill_cells: "cells (fill p bs h) a = (if a \<in> {p..<p + length bs} then Some (bs ! (a - p)) else cells h a)"
  by (simp add: fill_def)

lemma fill_extent [simp]: "extent (fill p bs h) = extent h"
  by (simp add: fill_def)

lemma read_fill: "read_buf (fill p bs h) p (length bs) = Some bs"
proof -
  have "map (cells (fill p bs h)) [p..<p + length bs] = map Some bs"
    by (rule nth_equalityI) (simp_all add: fill_cells)
  then show ?thesis by (simp add: read_buf_def)
qed

lemma held_fill:
  assumes h: "held n H" and p: "p \<in># H" "unread n p" and len: "extent (bufs n) p = Some m" "length bs \<le> m"
  shows "held (n\<lparr>bufs := fill p bs (bufs n)\<rparr>) H"
proof -
  let ?h = "fill p bs (bufs n)"
  have inside: "{p..<p + length bs} \<subseteq> block (bufs n) p" using len by (auto simp: block_def)
  have "heap_ok ?h"
  proof (rule heap_ok_cells [OF heldD(2) [OF h]], goal_cases ext cells)
    case cells
    show ?case
    proof (intro allI impI)
      fix a assume "cells ?h a \<noteq> None"
      then have "a \<in> {p..<p + length bs} \<or> cells (bufs n) a \<noteq> None" unfolding fill_cells by (auto split: if_splits)
      then show "a \<in> live (bufs n)" using inside block_live heldD(2) [OF h] unfolding heap_ok_def by blast
    qed
  qed simp
  moreover have "memory_kept n ?h"
    unfolding memory_kept_def
  proof (intro allI impI conjI ballI)
    fix k pw a
    assume "write_lookup (sbuf n) k = Some pw" "a \<in> uses (pw_iovecs pw)"
    then have "a \<notin> {p..<p + length bs}" using p(2) inside unfolding unread_def by blast
    then show "cells ?h a = cells (bufs n) a" by (simp only: fill_cells if_False)
  qed simp
  ultimately have "send_ok (n\<lparr>bufs := ?h\<rparr>)"
    using memory_kept_ok(1) heldD(1) [OF h] by (simp add: send_ok_def)
  then show ?thesis using h unfolding held_def by simp
qed

text \<open>Freeing a held block that no unfinished write reads.\<close>

lemma held_free:
  assumes h: "held n (add_mset p H)" and u: "unread n p"
  shows "free_buf p (bufs n) = Some (without [p] (bufs n))" "held (n\<lparr>bufs := without [p] (bufs n)\<rparr>) H" "p \<notin># H"
proof -
  show new: "p \<notin># H" using heldD(5) [OF h, of p] by (simp add: not_in_iff)
  note p = heldD(3,4) [OF h, of p]
  show "free_buf p (bufs n) = Some (without [p] (bufs n))" using p by (intro free_buf_without) simp_all
  let ?h = "without [p] (bufs n)"
  have own: "p \<notin> set (owned (pw_iovecs qw) (pw_frees qw))" if "write_lookup (sbuf n) l = Some qw" for l qw
    using heldD(6) [OF h that] by auto
  have "memory_kept n ?h"
    unfolding memory_kept_def without_cells using u own unfolding unread_def by auto
  then have "send_ok (n\<lparr>bufs := ?h\<rparr>)"
    using memory_kept_ok(1) heldD(1,2) [OF h] heap_without by (simp add: send_ok_def)
  moreover have "extent ?h x \<noteq> None" if "x \<in># H" for x
    using heldD(4) [OF h, of x] that new by auto
  moreover have "held n H" using held_subset [OF h] by simp
  ultimately show "held (n\<lparr>bufs := ?h\<rparr>) H" unfolding held_def by simp
qed

lemma free_others:
  assumes "held n H" "x \<in># H" "p \<noteq> x"
  shows "unread n x \<Longrightarrow> unread (n\<lparr>bufs := without [p] (bufs n)\<rparr>) x" "block (without [p] (bufs n)) x = block (bufs n) x"
  using assms by (auto simp: unread_def block_def)

text \<open>What is in another block stays readable.\<close>

lemma read_without:
  assumes ok: "heap_ok h" and x: "{a..<a + n} \<subseteq> block h x" "x \<noteq> p"
  shows "read_buf (without [p] h) a n = read_buf h a n"
proof -
  have "map (cells (without [p] h)) [a..<a + n] = map (cells h) [a..<a + n]"
    using x blocks_disjoint [OF ok x(2)] by (intro map_cong) (auto simp: without_cells)
  then show ?thesis by (simp only: read_buf_def)
qed

section \<open>Sending\<close>

text \<open>The writes that wait after a call of \<open>Socket_putdatas\<close>: those from before and possibly the new one.\<close>

lemma write_lookup_append:
  "write_lookup (b\<lparr>writes := a_append pw (writes b), mallocs := ms\<rparr>) l = Some qw \<Longrightarrow> write_lookup b l = Some qw \<or> qw = pw"
proof -
  have "find P (xs @ [x]) = Some y \<Longrightarrow> find P xs = Some y \<or> y = x" for P xs x y
    by (induction xs) (auto split: if_splits)
  then show "write_lookup (b\<lparr>writes := a_append pw (writes b), mallocs := ms\<rparr>) l = Some qw \<Longrightarrow> write_lookup b l = Some qw \<or> qw = pw"
    by (simp add: write_lookup_def key_lookup_def a_append_def)
qed

lemma putdatas_writes:
  assumes run: "Socket_putdatas k p n bs s = Some (rc, s')" and l: "write_lookup (sbuf s') l = Some qw"
  shows "write_lookup (sbuf s) l = Some qw \<or>
    (pw_iovecs qw = \<lparr>iov_base = p, iov_len = n\<rparr> # map fst bs \<and> pw_frees qw = True # map snd bs)"
proof -
  have w: "sbuf t = sbuf s" if "Socket_writev k vs s = Some (x, y, t)" for vs x y s t
    using that by (auto simp: Socket_writev_def writev_def Let_def
        split: Option.bind_splits list.splits writev_event.splits if_splits)
  have q: "sbuf t = sbuf s" if "Socket_noPendingWrites k s = (b, t)" for b s t
    using that by (auto simp: Socket_noPendingWrites_def split: prod.splits)
  have m: "writes (sbuf t) = writes (sbuf s)" if "net_malloc s = (b, t)" for b s t
    using that by (auto simp: net_malloc_def next_malloc_def split: list.splits)
  have wl: "write_lookup b = write_lookup b'" if "writes b = writes b'" for b b'
    using that by (simp add: write_lookup_def fun_eq_iff)
  have pw: "write_lookup (sbuf s) j = Some qw \<or> (pw_iovecs qw = vs \<and> pw_frees qw = fs)"
    if "SocketBuffer_pendingWrite k (length vs) vs fs t c (sbuf s) = Some (r, b)" "length fs = length vs"
      "write_lookup b j = Some qw" for vs fs t c r b j s
  proof -
    note hyp = that
    let ?pw = "\<lparr>pw_socket = k, pw_count = length vs, pw_total = t, pw_bytes = c, pw_iovecs = vs, pw_frees = fs\<rparr>"
    have "\<exists>ms. b = (sbuf s)\<lparr>mallocs := ms\<rparr> \<or> b = (sbuf s)\<lparr>writes := a_append ?pw (writes (sbuf s)), mallocs := ms\<rparr>"
      using hyp(1,2) by (auto simp: SocketBuffer_pendingWrite_def Let_def split: if_splits prod.splits)
    then obtain ms where "b = (sbuf s)\<lparr>mallocs := ms\<rparr> \<or> b = (sbuf s)\<lparr>writes := a_append ?pw (writes (sbuf s)), mallocs := ms\<rparr>" ..
    then show ?thesis using hyp(3) write_lookup_append [where b = "sbuf s" and pw = ?pw and ms = ms and l = j and qw = qw] wl [of "(sbuf s)\<lparr>mallocs := ms\<rparr>" "sbuf s"] by auto
  qed
  obtain none s1 where s1: "Socket_noPendingWrites k s = (none, s1)" by fastforce
  note e1 = q [OF s1]
  show ?thesis
  proof (cases "\<not> none \<or> length bs > 4")
    case True
    then show ?thesis using run l e1 s1 by (auto simp: Socket_putdatas_def Let_def split: if_splits)
  next
    case False
    let ?vs = "\<lparr>iov_base = p, iov_len = n\<rparr> # map fst bs"
    obtain r bytes s2 where s2: "Socket_writev k ?vs s1 = Some (r, bytes, s2)"
      using run s1 False by (auto simp: Socket_putdatas_def Let_def split: Option.bind_splits if_splits)
    note e2 = w [OF s2]
    obtain ok s3 where s3: "net_malloc s2 = (ok, s3)" by fastforce
    note e3 = m [OF s3]
    let ?tot = "n + sum_list (map (\<lambda>(v, _). iov_len v) bs)"
    show ?thesis
    proof (cases "r = SOCKET_ERROR \<or> bytes = ?tot \<or> \<not> ok")
      case True
      then have "writes (sbuf s') = writes (sbuf s)"
        using run s1 s2 s3 False e1 e2 e3 by (auto simp: Socket_putdatas_def Let_def split: if_splits)
      then show ?thesis using l wl by metis
    next
      case c: False
      obtain r4 b where b: "SocketBuffer_pendingWrite k (length bs + 1) ?vs (True # map snd bs) ?tot bytes (sbuf s3) = Some (r4, b)"
        using run s1 s2 s3 False c by (auto simp: Socket_putdatas_def Let_def split: Option.bind_splits if_splits)
      have "writes (sbuf s') = writes b"
        using run s1 s2 s3 b False c m [of "set_sbuf b s3"] by (auto simp: Socket_putdatas_def Let_def split: if_splits prod.splits Option.bind_splits)
      then have "write_lookup b l = Some qw" using l wl by metis
      with pw [of ?vs "True # map snd bs", OF _ _ this] b have "write_lookup (sbuf s3) l = Some qw
          \<or> (pw_iovecs qw = ?vs \<and> pw_frees qw = True # map snd bs)" by simp
      then show ?thesis using e1 e2 wl [OF e3] by simp
    qed
  qed
qed

lemma held_net_put:
  assumes al: "buf_allocator alloc" and h: "held s H" and k: "0 \<le> k" "k < FD_SETSIZE" and ne: "buf0 \<noteq> []"
    and len: "length (pb_buffers pb) = length (pb_frees pb)" "length (pb_frees pb) \<le> 4"
    and rd: "readable (bufs s) shared (pieces (zip (pb_buffers pb) (pb_frees pb)))"
    and ap: "apart s (ranges shared (pieces (zip (pb_buffers pb) (pb_frees pb))))"
    and D: "D = buf0 @ concat (pb_buffers pb)"
  obtains rc s' where "net_put alloc shared k buf0 pb s = Some (rc, s')" "handed_over s k D rc s'" "held s' H"
    "\<And>x. x \<in># H \<Longrightarrow> unread s x \<Longrightarrow> block (bufs s) x \<inter> ranges shared (pieces (zip (pb_buffers pb) (pb_frees pb))) = {} \<Longrightarrow> unread s' x"
proof -
  note outcome = that
  let ?xs = "(buf0, True) # zip (pb_buffers pb) (pb_frees pb)"
  obtain rc s' where run: "net_put alloc shared k buf0 pb s = Some (rc, s')" and ho: "handed_over s k D rc s'"
    by (rule net_put_hands_over [OF al heldD(1) [OF h] k ne len rd ap D])
  have so: "send_ok s'" and ext: "extends (bufs s) (bufs s')" using ho by (simp_all add: handed_over_def)
  obtain vs g where lo: "lay_out alloc shared ?xs (bufs s) = Some (vs, g)" and l: "laid_out shared ?xs (bufs s) vs g"
    using lay_out_ok [OF al heldD(2) [OF h], of shared ?xs] rd by auto
  have fresh: "\<forall>p\<in>set (own_blocks vs). extent (bufs s) p = None" and g: "heap_ok g" "extends (bufs s) g"
    and u: "uses (map fst vs) \<subseteq> (\<Union>p\<in>set (own_blocks vs). block g p) \<union> ranges shared (pieces ?xs)"
    using l unfolding laid_out_def by blast+
  obtain v0 bs where vs: "vs = (v0, True) # bs" using lo by (auto split: prod.splits Option.bind_splits)
  have new: "write_lookup (sbuf s) j = Some qw \<or> (bufs s' = g \<and> pw_iovecs qw = map fst vs \<and> pw_frees qw = map snd vs)"
    if "write_lookup (sbuf s') j = Some qw" for j qw
  proof -
    obtain t where t: "Socket_putdatas k (iov_base v0) (iov_len v0) bs (s\<lparr>bufs := g\<rparr>) = Some (rc, t)" "sbuf s' = sbuf t"
      "rc = -22 \<Longrightarrow> s' = t"
      using run lo by (auto simp: net_put_def vs TCPSOCKET_INTERRUPTED_def simp del: lay_out.simps split: Option.bind_splits if_splits)
    show ?thesis
    proof (cases "rc = -22")
      case True
      then have "bufs s' = g" using t(3) putdatas_frame(1) [OF t(1)] by simp
      moreover have "\<lparr>iov_base = iov_base v0, iov_len = iov_len v0\<rparr> = v0" by simp
      ultimately show ?thesis using putdatas_writes [OF t(1), of j qw] that t(2) by (auto simp: vs)
    next
      case False
      then have "rc = 0 \<or> rc = -1" using ho by (auto simp: handed_over_def codes)
      then have "sbuf t = sbuf s" using putdatas_sbuf [OF t(1)] by simp
      then show ?thesis using that t(2) by simp
    qed
  qed
  have live: "extent (bufs s) x \<noteq> None" if "x \<in># H" for x using heldD(4) [OF h that] .
  have "held s' H" unfolding held_def
  proof (intro conjI allI impI ballI)
    show "send_ok s'" by (fact so)
    show "count H x \<le> 1" for x using heldD(5) [OF h] .
    show "x \<noteq> NULL" if "x \<in># H" for x using heldD(3) [OF h that] .
    show "extent (bufs s') x \<noteq> None" if "x \<in># H" for x using live [OF that] extends_extent [OF ext, of x] by auto
    show "set (owned (pw_iovecs qw) (pw_frees qw)) \<inter> set_mset H = {}" if w: "write_lookup (sbuf s') j = Some qw" for j qw
      using new [OF w]
    proof (elim disjE conjE)
      assume "write_lookup (sbuf s) j = Some qw"
      then show ?thesis by (rule heldD(6) [OF h])
    next
      assume "pw_iovecs qw = map fst vs" "pw_frees qw = map snd vs"
      then show ?thesis using fresh live unfolding own_blocks_def by fastforce
    qed
  qed
  then show thesis
  proof (rule outcome [OF run ho])
    fix x
    assume x: "x \<in># H" "unread s x" "block (bufs s) x \<inter> ranges shared (pieces (zip (pb_buffers pb) (pb_frees pb))) = {}"
    show "unread s' x"
    unfolding unread_def
  proof (intro allI impI)
    fix j qw
    assume w: "write_lookup (sbuf s') j = Some qw"
    have b: "block (bufs s') x = block (bufs s) x" by (rule block_extends [OF ext live [OF x(1)]])
    show "uses (pw_iovecs qw) \<inter> block (bufs s') x = {}"
      using new [OF w]
    proof (elim disjE conjE)
      assume "write_lookup (sbuf s) j = Some qw"
      then show ?thesis using x(2) b by (simp add: unread_def)
    next
      assume q: "bufs s' = g" "pw_iovecs qw = map fst vs"
      have "block g p \<inter> block g x = {}" if "p \<in> set (own_blocks vs)" for p
      proof (rule blocks_disjoint [OF g(1)])
        show "p \<noteq> x" using that fresh live [OF x(1)] by auto
      qed
      moreover have "ranges shared (pieces ?xs) \<inter> block g x = {}" using x(3) b q(1) by auto
      ultimately have "uses (map fst vs) \<inter> block g x = {}" using u by blast
      then show ?thesis using q by simp
    qed
  qed
  qed
qed

end
