(* ===== verification/MessageIds.thy ===== *)
theory MessageIds
  imports MessageStore
begin

text \<open>
  Message ids: \<open>MQTTProtocol_assignMsgId\<close> finds the next free id in cyclic order whenever there is one, says
  so when there is none, and runs for ever in the one case in which it cannot say so.
\<close>

definition ids_in_use :: "Clients \<Rightarrow> int set" where
  "ids_in_use c = ms_msgid ` set (items (cl_outboundMsgs c))"

definition valid_ids :: "int set" where
  "valid_ids = {1..MAX_MSG_ID}"

lemma find_id:
  assumes "alist_ok l"
  obtains found l' where "a_find (\<lambda>m. messageIDCompare m k) l = (found, l')"
    "(found = None) = (k \<notin> ms_msgid ` set (items l))" "items l' = items l" "alist_ok l'"
proof -
  have c: "items l ! i \<in> set (items l)" if "cursor l = Some i" for i
    using assms that by (simp add: alist_ok_def)
  show thesis
  proof (cases "find_index (\<lambda>m. messageIDCompare m k) (items l)")
    case None
    then have "\<forall>x\<in>set (items l). ms_msgid x \<noteq> k" by (simp add: find_index_None messageIDCompare_def)
    with None c assms show thesis
      by (intro that [of None l]) (auto simp: a_find_def messageIDCompare_def split: option.splits)
  next
    case (Some i)
    then have i: "i < length (items l)" "ms_msgid (items l ! i) = k"
      by (auto dest: find_index_SomeD simp: messageIDCompare_def)
    then have "k \<in> ms_msgid ` set (items l)" by (auto intro: image_eqI [of _ _ "items l ! i"])
    with i Some assms show thesis
      by (intro that [of "fst (a_find (\<lambda>m. messageIDCompare m k) l)" "snd (a_find (\<lambda>m. messageIDCompare m k) l)"])
        (auto simp: a_find_def alist_ok_def split: option.splits)
  qed
qed

text \<open>The ids the loop tries, one after the other.\<close>

lemma next_id_pow:
  assumes "0 \<le> k" "k \<le> MAX_MSG_ID" "n \<le> nat MAX_MSG_ID"
  shows "(next_id ^^ n) k = (if k + int n \<le> MAX_MSG_ID then k + int n else k + int n - MAX_MSG_ID)"
  using assms(3)
proof (induction n)
  case (Suc n)
  then have IH: "(next_id ^^ n) k = (if k + int n \<le> MAX_MSG_ID then k + int n else k + int n - MAX_MSG_ID)" by simp
  show ?case unfolding funpow.simps comp_apply IH using Suc.prems assms(1,2) by (simp add: next_id_def MAX_MSG_ID_def)
qed (use assms in simp)

lemma assign_loop_finds:
  assumes "alist_ok l" "\<forall>m<n. (next_id ^^ m) k \<in> ms_msgid ` set (items l)" "(next_id ^^ n) k \<notin> ms_msgid ` set (items l)"
    "\<forall>m. 1 \<le> m \<and> m \<le> n \<longrightarrow> (next_id ^^ m) k \<noteq> start"
  shows "\<exists>l'. assign_loop start k l = Some ((next_id ^^ n) k, l') \<and> items l' = items l \<and> alist_ok l'"
  using assms
proof (induction n arbitrary: k l)
  case 0
  obtain l' where "a_find (\<lambda>m. messageIDCompare m k) l = (None, l')" "items l' = items l" "alist_ok l'"
    by (rule find_id [of l k, OF 0(1)]) (use 0(3) in auto)
  then show ?case by (simp add: assign_loop.simps [of start k])
next
  case (Suc n)
  have used: "k \<in> ms_msgid ` set (items l)" using Suc.prems(2) by (auto dest: spec [of _ 0])
  obtain i l' where f: "a_find (\<lambda>m. messageIDCompare m k) l = (Some i, l')" "items l' = items l" "alist_ok l'"
    by (rule find_id [of l k, OF Suc.prems(1)]) (use used in auto)
  have ne: "next_id k \<noteq> start" using Suc.prems(4) by (auto dest: spec [of _ 1])
  have shift: "(next_id ^^ m) (next_id k) = (next_id ^^ Suc m) k" for m by (simp add: funpow_swap1)
  have "\<exists>l''. assign_loop start (next_id k) l' = Some ((next_id ^^ n) (next_id k), l'') \<and> items l'' = items l' \<and> alist_ok l''"
    by (rule Suc.IH [OF f(3)]) (use Suc.prems(2-4) in \<open>auto simp: f(2) shift simp del: funpow.simps\<close>)
  then show ?case using f ne by (auto simp: assign_loop.simps [of start k l] shift simp del: funpow.simps)
qed

text \<open>With every id but the last one taken, the search comes back to where it started.\<close>

lemma assign_loop_full:
  assumes "alist_ok l" "\<forall>m\<le>n. (next_id ^^ m) k \<in> ms_msgid ` set (items l)" "(next_id ^^ Suc n) k = start"
    "\<forall>m. 1 \<le> m \<and> m \<le> n \<longrightarrow> (next_id ^^ m) k \<noteq> start"
  shows "\<exists>l'. assign_loop start k l = Some (0, l') \<and> items l' = items l \<and> alist_ok l'"
  using assms
proof (induction n arbitrary: k l)
  case 0
  obtain i l' where f: "a_find (\<lambda>m. messageIDCompare m k) l = (Some i, l')" "items l' = items l" "alist_ok l'"
    by (rule find_id [of l k, OF 0(1)]) (use 0(2) in auto)
  then show ?case using 0(3) by (simp add: assign_loop.simps [of start k])
next
  case (Suc n)
  obtain i l' where f: "a_find (\<lambda>m. messageIDCompare m k) l = (Some i, l')" "items l' = items l" "alist_ok l'"
    by (rule find_id [of l k, OF Suc.prems(1)]) (use Suc.prems(2) in \<open>auto dest: spec [of _ 0]\<close>)
  have ne: "next_id k \<noteq> start" using Suc.prems(4) by (auto dest: spec [of _ 1])
  have shift: "(next_id ^^ m) (next_id k) = (next_id ^^ Suc m) k" for m by (simp add: funpow_swap1)
  have "\<exists>l''. assign_loop start (next_id k) l' = Some (0, l'') \<and> items l'' = items l' \<and> alist_ok l''"
    by (rule Suc.IH [OF f(3)]) (use Suc.prems(2-4) in \<open>auto simp: f(2) shift simp del: funpow.simps\<close>)
  then show ?case using f ne by (auto simp: assign_loop.simps [of start k l])
qed

text \<open>With every id taken and nothing to come back to, it does not end.\<close>

lemma assign_loop_diverges:
  assumes "alist_ok l" "valid_ids \<subseteq> ms_msgid ` set (items l)" "k \<in> valid_ids" "start \<notin> valid_ids"
  shows "assign_loop start k l = None"
proof -
  have "alist_ok l \<longrightarrow> valid_ids \<subseteq> ms_msgid ` set (items l) \<longrightarrow> k \<in> valid_ids \<longrightarrow> start \<notin> valid_ids \<longrightarrow> False"
    if "assign_loop start k l = Some r" for r
    using that
  proof (induct rule: assign_loop.raw_induct [rotated, consumes 1])
    case (1 loop start k l r)
    show ?case
    proof (intro impI)
      assume a: "alist_ok l" "valid_ids \<subseteq> ms_msgid ` set (items l)" "k \<in> valid_ids" "start \<notin> valid_ids"
      obtain i l' where f: "a_find (\<lambda>m. messageIDCompare m k) l = (Some i, l')" "items l' = items l" "alist_ok l'"
        by (rule find_id [of l k, OF a(1)]) (use a(2,3) in auto)
      have n: "next_id k \<in> valid_ids" using a(3) by (auto simp: valid_ids_def next_id_def MAX_MSG_ID_def)
      then have "loop start (next_id k) l' = Some r" using 1(2) f(1) a(4) by (auto split: if_splits)
      from 1(1) [OF this] f a n show False by simp
    qed
  qed
  then show ?thesis using assms by (cases "assign_loop start k l") auto
qed

lemma next_id_reaches:
  assumes k: "0 \<le> k" "k \<le> MAX_MSG_ID" and t: "t \<in> valid_ids" "t \<noteq> k"
  obtains n where "(next_id ^^ Suc n) k = t" "\<And>m. m \<le> n \<Longrightarrow> (next_id ^^ Suc m) k \<noteq> k \<and> (next_id ^^ Suc m) k \<in> valid_ids"
proof -
  let ?n = "nat (if k < t then t - k else t + MAX_MSG_ID - k)"
  have n: "?n \<noteq> 0" "?n \<le> nat MAX_MSG_ID" using k t by (auto simp: valid_ids_def MAX_MSG_ID_def)
  have "(next_id ^^ ?n) k = t" using next_id_pow [OF k n(2)] k t by (auto simp: valid_ids_def MAX_MSG_ID_def)
  moreover have "(next_id ^^ Suc m) k \<noteq> k \<and> (next_id ^^ Suc m) k \<in> valid_ids" if "m \<le> ?n - 1" for m
  proof -
    have m: "Suc m \<le> ?n" using that n(1) by simp
    then have "Suc m \<le> nat MAX_MSG_ID" using n(2) by simp
    from next_id_pow [OF k this] m k t show ?thesis
      by (auto simp: valid_ids_def MAX_MSG_ID_def simp del: funpow.simps split: if_splits)
  qed
  moreover have "Suc (?n - 1) = ?n" using n(1) by simp
  ultimately show thesis using that [of "?n - 1"] by simp
qed

text \<open>The first free id behind the last one given.\<close>

lemma assignMsgId_finds:
  assumes l: "alist_ok (cl_outboundMsgs c)" and k: "0 \<le> cl_msgID c" "cl_msgID c \<le> MAX_MSG_ID"
    and ex: "\<exists>t\<in>valid_ids. t \<noteq> cl_msgID c \<and> t \<notin> ids_in_use c"
  obtains n l' where "MQTTProtocol_assignMsgId c = Some ((next_id ^^ Suc n) (cl_msgID c),
      c\<lparr>cl_outboundMsgs := l', cl_msgID := (next_id ^^ Suc n) (cl_msgID c)\<rparr>)"
    "items l' = items (cl_outboundMsgs c)" "alist_ok l'" "(next_id ^^ Suc n) (cl_msgID c) \<in> valid_ids - ids_in_use c - {cl_msgID c}"
    "\<forall>m<n. (next_id ^^ Suc m) (cl_msgID c) \<in> ids_in_use c"
proof -
  let ?k = "cl_msgID c" and ?l = "cl_outboundMsgs c"
  have shift: "(next_id ^^ m) (next_id k) = (next_id ^^ Suc m) k" for m k by (simp add: funpow_swap1)
  obtain t where t: "t \<in> valid_ids" "t \<noteq> ?k" "t \<notin> ids_in_use c" using ex by blast
  obtain n0 where n0: "(next_id ^^ Suc n0) ?k = t"
    "\<And>m. m \<le> n0 \<Longrightarrow> (next_id ^^ Suc m) ?k \<noteq> ?k \<and> (next_id ^^ Suc m) ?k \<in> valid_ids"
    by (rule next_id_reaches [OF k t(1,2)]) blast
  define n where "n = (LEAST n. (next_id ^^ Suc n) ?k \<notin> ids_in_use c)"
  have free: "(next_id ^^ Suc n0) ?k \<notin> ids_in_use c" unfolding n0(1) by (rule t(3))
  have n: "(next_id ^^ Suc n) ?k \<notin> ids_in_use c" "n \<le> n0" "\<forall>m<n. (next_id ^^ Suc m) ?k \<in> ids_in_use c"
    unfolding n_def
    subgoal by (rule LeastI [of "\<lambda>n. (next_id ^^ Suc n) ?k \<notin> ids_in_use c", OF free])
    subgoal by (rule Least_le [of "\<lambda>n. (next_id ^^ Suc n) ?k \<notin> ids_in_use c", OF free])
    subgoal using not_less_Least [of _ "\<lambda>n. (next_id ^^ Suc n) ?k \<notin> ids_in_use c"] by blast
    done
  have "\<forall>m. 1 \<le> m \<and> m \<le> n \<longrightarrow> (next_id ^^ m) (next_id ?k) \<noteq> ?k"
    using n0(2) n(2) by (simp add: shift del: funpow.simps)
  then obtain l' where l': "assign_loop ?k (next_id ?k) ?l = Some ((next_id ^^ Suc n) ?k, l')" "items l' = items ?l" "alist_ok l'"
    using assign_loop_finds [OF l, of n "next_id ?k" ?k] n unfolding shift ids_in_use_def by blast
  have v: "(next_id ^^ Suc n) ?k \<in> valid_ids" "(next_id ^^ Suc n) ?k \<noteq> ?k" using n0(2) n(2) by blast+
  show thesis
    by (rule that [of n l']) (use l' v n in \<open>auto simp: MQTTProtocol_assignMsgId_def valid_ids_def simp del: funpow.simps\<close>)
qed

text \<open>C22: A fresh message id.  If any id from 1 to 65535 other than the last one given is free,
  \<open>MQTTProtocol_assignMsgId\<close> terminates and returns the first free id after the last one, counting on from
  65535 to 1; the id is in no message in flight, becomes the last one given, and the messages stay as they
  are.  If there is none it returns 0 and gives no id; but when no id has been given yet (the last one is 0)
  and all of them are taken, the loop never ends.\<close>

theorem assignMsgId_next_free:
  assumes l: "alist_ok (cl_outboundMsgs c)" and k: "0 \<le> cl_msgID c" "cl_msgID c \<le> MAX_MSG_ID"
  shows "((\<exists>t\<in>valid_ids. t \<noteq> cl_msgID c \<and> t \<notin> ids_in_use c) \<longrightarrow>
      (\<exists>c' n. MQTTProtocol_assignMsgId c = Some ((next_id ^^ Suc n) (cl_msgID c), c') \<and>
         (next_id ^^ Suc n) (cl_msgID c) \<in> valid_ids - ids_in_use c - {cl_msgID c} \<and>
         (\<forall>m<n. (next_id ^^ Suc m) (cl_msgID c) \<in> ids_in_use c) \<and>
         cl_msgID c' = (next_id ^^ Suc n) (cl_msgID c) \<and> items (cl_outboundMsgs c') = items (cl_outboundMsgs c))) \<and>
    (valid_ids - {cl_msgID c} \<subseteq> ids_in_use c \<and> cl_msgID c \<noteq> 0 \<longrightarrow>
      (\<exists>c'. MQTTProtocol_assignMsgId c = Some (0, c') \<and> cl_msgID c' = cl_msgID c)) \<and>
    (valid_ids \<subseteq> ids_in_use c \<and> cl_msgID c = 0 \<longrightarrow> MQTTProtocol_assignMsgId c = None)"
proof (intro conjI impI)
  let ?k = "cl_msgID c" and ?l = "cl_outboundMsgs c"
  have shift: "(next_id ^^ m) (next_id k) = (next_id ^^ Suc m) k" for m k by (simp add: funpow_swap1)
  { assume ex: "\<exists>t\<in>valid_ids. t \<noteq> ?k \<and> t \<notin> ids_in_use c"
    show "\<exists>c' n. MQTTProtocol_assignMsgId c = Some ((next_id ^^ Suc n) ?k, c') \<and>
         (next_id ^^ Suc n) ?k \<in> valid_ids - ids_in_use c - {?k} \<and> (\<forall>m<n. (next_id ^^ Suc m) ?k \<in> ids_in_use c) \<and>
         cl_msgID c' = (next_id ^^ Suc n) ?k \<and> items (cl_outboundMsgs c') = items ?l"
      by (rule assignMsgId_finds [OF l k ex]) (auto simp del: funpow.simps) }
  { assume a: "valid_ids - {?k} \<subseteq> ids_in_use c \<and> ?k \<noteq> 0"
    define n where "n = nat MAX_MSG_ID - 1"
    have n: "Suc (Suc m) \<le> nat MAX_MSG_ID" if "m < n" for m using that by (simp add: n_def MAX_MSG_ID_def)
    have fin: "(next_id ^^ Suc n) ?k = ?k"
      using next_id_pow [OF k, of "Suc n"] a k by (simp add: n_def MAX_MSG_ID_def del: funpow.simps split: if_splits)
    have step: "(next_id ^^ Suc m) ?k \<noteq> ?k \<and> (next_id ^^ Suc m) ?k \<in> valid_ids" if "m < n" for m
      using next_id_pow [OF k, of "Suc m"] n [OF that] that a k
      by (auto simp: n_def valid_ids_def MAX_MSG_ID_def simp del: funpow.simps split: if_splits)
    have n1: "n = Suc (n - 1)" by (simp add: n_def MAX_MSG_ID_def)
    have used: "(next_id ^^ m) (next_id ?k) \<in> ms_msgid ` set (items ?l)" if "m \<le> n - 1" for m
    proof -
      have "m < n" using that n1 by linarith
      from step [OF this] a show ?thesis unfolding shift ids_in_use_def by blast
    qed
    have again: "(next_id ^^ Suc (n - 1)) (next_id ?k) = ?k" using fin n1 unfolding shift by simp
    have "(next_id ^^ m) (next_id ?k) \<noteq> ?k" if "1 \<le> m \<and> m \<le> n - 1" for m
    proof -
      have "m < n" using that n1 by linarith
      from step [OF this] show ?thesis unfolding shift by blast
    qed
    then obtain l' where "assign_loop ?k (next_id ?k) ?l = Some (0, l')"
      using assign_loop_full [OF l _ again] used by blast
    then show "\<exists>c'. MQTTProtocol_assignMsgId c = Some (0, c') \<and> cl_msgID c' = ?k"
      by (simp add: MQTTProtocol_assignMsgId_def) }
  { assume "valid_ids \<subseteq> ids_in_use c \<and> ?k = 0"
    then have "assign_loop ?k (next_id ?k) ?l = None"
      by (intro assign_loop_diverges [OF l]) (auto simp: ids_in_use_def valid_ids_def next_id_def MAX_MSG_ID_def)
    then show "MQTTProtocol_assignMsgId c = None" by (simp add: MQTTProtocol_assignMsgId_def) }
qed

theorem assignMsgId_next_free_witness:
  "\<exists>c'. MQTTProtocol_assignMsgId \<lparr>cl_clientID = None, cl_username = None, cl_password = None, cl_passwordlen = 0, cl_good = True,
      cl_connect_state = 0, cl_socket = 7, cl_msgID = 65535, cl_keepAliveInterval = 0, cl_inboundMsgs = empty_alist,
      cl_outboundMsgs = empty_alist, cl_messageQueue = empty_alist, cl_outboundQueue = empty_alist, cl_MQTTVersion = 4\<rparr> = Some (1, c')"
  (is "\<exists>c'. MQTTProtocol_assignMsgId ?c = _")
proof -
  have l: "alist_ok (cl_outboundMsgs ?c)" by (simp add: alist_ok_def empty_alist_def)
  have u: "ids_in_use ?c = {}" by (simp add: ids_in_use_def empty_alist_def)
  have "1 \<in> valid_ids" by (simp add: valid_ids_def MAX_MSG_ID_def)
  then have ex: "\<exists>t\<in>valid_ids. t \<noteq> cl_msgID ?c \<and> t \<notin> ids_in_use ?c" unfolding u by (intro bexI [of _ 1]) simp_all
  have k: "0 \<le> cl_msgID ?c" "cl_msgID ?c \<le> MAX_MSG_ID" by (simp_all add: MAX_MSG_ID_def)
  obtain c' n where n: "MQTTProtocol_assignMsgId ?c = Some ((next_id ^^ Suc n) 65535, c')" "\<forall>m<n. (next_id ^^ Suc m) 65535 \<in> ids_in_use ?c"
    using mp [OF conjunct1 [OF assignMsgId_next_free [OF l k]] ex] by (simp del: funpow.simps) blast
  then have "n = 0" using u by auto
  with n show ?thesis by (simp add: next_id_def MAX_MSG_ID_def)
qed

end
