(* ===== verification/MessageInvariant.thy ===== *)
theory MessageInvariant
  imports Ownership MessageIds
begin

text \<open>
  The invariant of the message layer: reference counts are the numbers of references, every block of a
  topic, a payload or a publication has exactly one holder, ids are unique in the lists of messages.
  And that the layer's operations keep it.
\<close>

section \<open>The invariant\<close>

definition entry_blocks :: "qEntry \<Rightarrow> ptr multiset" where
  "entry_blocks q = {#qe_topicName q, mm_payload (qe_msg q)#}"

definition client_holds :: "Clients \<Rightarrow> ptr multiset" where
  "client_holds cl = (\<Sum>q\<leftarrow>items (cl_messageQueue cl). entry_blocks q)"

definition client_refs :: "Clients \<Rightarrow> ptr multiset" where
  "client_refs cl = mset (map ms_publish (items (cl_outboundMsgs cl))) + mset (map ms_publish (items (cl_inboundMsgs cl)))"

definition pub_blocks :: "ptr \<Rightarrow> Publications \<Rightarrow> ptr multiset" where
  "pub_blocks p pub = {#p, pu_topic pub, pu_payload pub#}"

text \<open>The blocks that the lists hold, and the references to publications in messages and unfinished writes.\<close>

definition holds :: "proto \<Rightarrow> ptr multiset" where
  "holds s = (\<Sum>p\<in>dom (pubs s). pub_blocks p (the (pubs s p))) + (\<Sum>c\<in>set (items (clients s)). client_holds (the (client_at s c)))"

definition refs :: "proto \<Rightarrow> ptr multiset" where
  "refs s = (\<Sum>c\<in>set (items (clients s)). client_refs (the (client_at s c))) + mset (map snd (items (pending_writes s)))"

definition client_ok :: "Clients \<Rightarrow> bool" where
  "client_ok cl \<longleftrightarrow> table_ok ms_msgid (cl_outboundMsgs cl) \<and> table_ok ms_msgid (cl_inboundMsgs cl) \<and>
     alist_ok (cl_messageQueue cl) \<and> alist_ok (cl_outboundQueue cl)"

text \<open>\<open>R\<close> are references on their way: taken out of one place and not yet dropped or put in another.\<close>

definition tables_ok :: "ptr multiset \<Rightarrow> proto \<Rightarrow> bool" where
  "tables_ok R s \<longleftrightarrow> table_ok (\<lambda>x. x) (publications s) \<and> set (items (publications s)) = dom (pubs s) \<and>
     table_ok (\<lambda>c. cl_socket (the (client_at s c))) (clients s) \<and>
     (\<forall>c\<in>set (items (clients s)). \<exists>cl. client_at s c = Some cl \<and> client_ok cl) \<and>
     (\<forall>p. p \<in># refs s + R \<longleftrightarrow> pubs s p \<noteq> None) \<and>
     (\<forall>p pub. pubs s p = Some pub \<longrightarrow> pu_refcount pub = int (count (refs s + R) p))"

text \<open>\<open>L\<close> are blocks that the running operation holds.\<close>

definition store_ok :: "ptr multiset \<Rightarrow> ptr multiset \<Rightarrow> proto \<Rightarrow> bool" where
  "store_ok R L s \<longleftrightarrow> tables_ok R s \<and> held (nw s) (holds s + L)"

section \<open>The lists and the holdings\<close>

lemma finite_pubs: "tables_ok R s \<Longrightarrow> finite (dom (pubs s))"
  unfolding tables_ok_def by (metis List.finite_set)

lemma holds_cong [simp]:
  "holds (s\<lparr>nw := n\<rparr>) = holds s" "holds (s\<lparr>answers := ms\<rparr>) = holds s" "holds (s\<lparr>publications := pl\<rparr>) = holds s"
  "holds (s\<lparr>pending_writes := pw\<rparr>) = holds s"
  "refs (s\<lparr>nw := n\<rparr>) = refs s" "refs (s\<lparr>answers := ms\<rparr>) = refs s" "refs (s\<lparr>publications := pl\<rparr>) = refs s"
  "refs (s\<lparr>pubs := pb\<rparr>) = refs s"
  by (simp_all add: holds_def refs_def)

lemma tables_cong [simp]:
  "tables_ok R (s\<lparr>nw := n\<rparr>) = tables_ok R s" "tables_ok R (s\<lparr>answers := ms\<rparr>) = tables_ok R s"
  by (simp_all add: tables_ok_def)

lemma tablesD:
  assumes "tables_ok R s"
  shows "c \<in> set (items (clients s)) \<Longrightarrow> \<exists>cl. client_at s c = Some cl \<and> client_ok cl"
    "p \<in># refs s + R \<longleftrightarrow> pubs s p \<noteq> None"
    "pubs s p = Some pub \<Longrightarrow> pu_refcount pub = int (count (refs s + R) p)"
  using assms unfolding tables_ok_def by blast+

text \<open>One client changes.\<close>

lemma upd_client_simps [simp]:
  "nw (upd_client c f s) = nw s" "answers (upd_client c f s) = answers s" "pubs (upd_client c f s) = pubs s"
  "publications (upd_client c f s) = publications s" "pending_writes (upd_client c f s) = pending_writes s"
  "clients (upd_client c f s) = clients s"
  "client_at (upd_client c f s) = (client_at s)(c := map_option f (client_at s c))"
  by (simp_all add: upd_client_def)

lemma sum_upd:
  fixes g :: "'a \<Rightarrow> 'b multiset"
  assumes "finite A" "c \<in> A"
  shows "(\<Sum>x\<in>A. g (if x = c then y else m x)) + g (m c) = (\<Sum>x\<in>A. g (m x)) + g y"
proof -
  have "(\<Sum>x\<in>A. g (m x)) = g (m c) + (\<Sum>x\<in>A - {c}. g (m x))" using assms by (rule sum.remove)
  moreover have "(\<Sum>x\<in>A. g (if x = c then y else m x)) = g y + (\<Sum>x\<in>A - {c}. g (m x))"
    using sum.remove [OF assms, of "\<lambda>x. g (if x = c then y else m x)"] by (auto intro!: sum.cong)
  ultimately show ?thesis by simp
qed

lemma upd_client_sums:
  assumes "c \<in> set (items (clients s))" "client_at s c = Some cl"
  shows "holds (upd_client c f s) + client_holds cl = holds s + client_holds (f cl)"
    "refs (upd_client c f s) + client_refs cl = refs s + client_refs (f cl)"
proof -
  have e: "the (client_at (upd_client c f s) x) = (if x = c then f cl else the (client_at s x))" for x
    using assms(2) by simp
  show "holds (upd_client c f s) + client_holds cl = holds s + client_holds (f cl)"
    unfolding holds_def e using sum_upd [OF _ assms(1), of client_holds "f cl" "\<lambda>x. the (client_at s x)"] assms(2) by simp
  show "refs (upd_client c f s) + client_refs cl = refs s + client_refs (f cl)"
    unfolding refs_def e using sum_upd [OF _ assms(1), of client_refs "f cl" "\<lambda>x. the (client_at s x)"] assms(2) by simp
qed

lemma tables_upd_client:
  assumes t: "tables_ok R s" and c: "c \<in> set (items (clients s))" "client_at s c = Some cl"
    and f: "client_ok (f cl)" "cl_socket (f cl) = cl_socket cl" and R: "client_refs (f cl) + R' = client_refs cl + R"
  shows "tables_ok R' (upd_client c f s)"
proof -
  have "refs (upd_client c f s) + R' + client_refs cl = refs s + R + client_refs cl"
    using upd_client_sums(2) [OF c, of f] R by (metis (no_types, lifting) add.assoc add.commute)
  then have r: "refs (upd_client c f s) + R' = refs s + R" by simp
  have k: "cl_socket (the (client_at (upd_client c f s) x)) = cl_socket (the (client_at s x))" for x using c(2) f(2) by simp
  have "table_ok (\<lambda>c'. cl_socket (the (client_at (upd_client c f s) c'))) (clients (upd_client c f s))"
    unfolding k using t by (simp add: tables_ok_def)
  moreover have "\<forall>x\<in>set (items (clients s)). \<exists>cl. client_at (upd_client c f s) x = Some cl \<and> client_ok cl"
    using tablesD(1) [OF t] c(2) f(1) by simp
  ultimately show ?thesis using t unfolding tables_ok_def r by simp
qed

text \<open>One publication changes, comes or goes.\<close>

lemma holds_pub:
  assumes "finite (dom (pubs s))"
  shows "pubs s p = None \<Longrightarrow> holds (s\<lparr>pubs := (pubs s)(p \<mapsto> pub)\<rparr>) = holds s + pub_blocks p pub"
    "pubs s p = Some pub \<Longrightarrow> holds (s\<lparr>pubs := (pubs s)(p := None)\<rparr>) + pub_blocks p pub = holds s"
    "pubs s p = Some pub \<Longrightarrow> pub_blocks p pub' = pub_blocks p pub \<Longrightarrow> holds (s\<lparr>pubs := (pubs s)(p \<mapsto> pub')\<rparr>) = holds s"
proof -
  let ?g = "\<lambda>q. pub_blocks q (the (pubs s q))"
  have same: "(\<Sum>q\<in>A. pub_blocks q (the (((pubs s)(p := x)) q))) = (\<Sum>q\<in>A. ?g q)" if "p \<notin> A" for A x
    using that by (intro sum.cong) auto
  show "holds (s\<lparr>pubs := (pubs s)(p \<mapsto> pub)\<rparr>) = holds s + pub_blocks p pub" if "pubs s p = None"
    using that assms same [of "dom (pubs s)"] by (simp add: holds_def domIff sum.insert_remove)
  show "holds (s\<lparr>pubs := (pubs s)(p := None)\<rparr>) + pub_blocks p pub = holds s" if "pubs s p = Some pub"
    using that same [of "dom (pubs s) - {p}" None] sum.remove [OF assms domI [of "pubs s" p, OF that], of ?g]
    by (simp add: holds_def)
  show "holds (s\<lparr>pubs := (pubs s)(p \<mapsto> pub')\<rparr>) = holds s"
    if "pubs s p = Some pub" "pub_blocks p pub' = pub_blocks p pub"
    using that same [of "dom (pubs s) - {p}" "Some pub'"] sum.remove [OF assms domI [of "pubs s" p, OF that(1)], of ?g]
    by (simp add: holds_def sum.insert_remove [OF assms])
qed

section \<open>Dropping a reference\<close>

lemma a_unlink_self:
  assumes "table_ok (\<lambda>x. x) l"
  obtains l' where "a_unlink (\<lambda>x. x = p) l = (if p \<in> set (items l) then Some p else None, l')" "table_ok (\<lambda>x. x) l'"
    "set (items l') = set (items l) - {p}"
proof -
  note u = a_unlink_key [OF assms, of p]
  have "key_lookup (\<lambda>x. x) l p = (if p \<in> set (items l) then Some p else None)"
    using assms by (auto simp: key_lookup_def table_ok_def find_by_key find_None_iff)
  then have "a_unlink (\<lambda>x. x = p) l = (if p \<in> set (items l) then Some p else None, snd (a_unlink (\<lambda>x. x = p) l))"
    using u(1) by (simp add: prod_eq_iff)
  with u(2,3) show thesis by (intro that) auto
qed

lemma free_block_held:
  assumes "held (nw s) (add_mset p H)" "unread (nw s) p"
  shows "free_block p s = Some (set_mem (without [p] (mem_of s)) s)" "held (nw (set_mem (without [p] (mem_of s)) s)) H"
  using held_free [OF assms] by (simp_all add: free_block_def set_mem_def)

lemma set_mem_simps [simp]:
  "nw (set_mem h s) = (nw s)\<lparr>bufs := h\<rparr>" "answers (set_mem h s) = answers s" "pubs (set_mem h s) = pubs s"
  "publications (set_mem h s) = publications s" "pending_writes (set_mem h s) = pending_writes s"
  "client_at (set_mem h s) = client_at s" "clients (set_mem h s) = clients s"
  by (simp_all add: set_mem_def)

text \<open>The reference is the last one.\<close>

lemma free_three:
  assumes h: "held (nw s) (pub_blocks p pub + H)" and u: "\<forall>x\<in>#pub_blocks p pub. unread (nw s) x"
  obtains h' where "free_block (pu_payload pub) s \<bind> free_block (pu_topic pub) \<bind> free_block p = Some (set_mem h' s)"
    "h' = without [p] (without [pu_topic pub] (without [pu_payload pub] (mem_of s)))"
    "held ((nw s)\<lparr>bufs := h'\<rparr>) H"
proof -
  let ?a = "pu_payload pub" and ?b = "pu_topic pub"
  have u': "unread (nw s) ?a" "unread (nw s) ?b" "unread (nw s) p" using u by (simp_all add: pub_blocks_def)
  have h1: "held (nw s) (add_mset ?a (add_mset ?b (add_mset p H)))"
    using h by (simp add: pub_blocks_def add_mset_commute)
  note f1 = free_block_held [OF h1 u'(1)] and d1 = held_free(3) [OF h1 u'(1)]
  let ?s1 = "set_mem (without [?a] (mem_of s)) s"
  have u1: "unread (nw ?s1) ?b" "unread (nw ?s1) p"
    using free_others(1) [OF h1, of ?b ?a] free_others(1) [OF h1, of p ?a] u' d1 by auto
  note f2 = free_block_held [OF f1(2) u1(1)] and d2 = held_free(3) [OF f1(2) u1(1)]
  let ?s2 = "set_mem (without [?b] (mem_of ?s1)) ?s1"
  have u2: "unread (nw ?s2) p" using free_others(1) [OF f1(2), of p ?b] u1(2) d2 by auto
  note f3 = free_block_held [OF f2(2) u2]
  have "free_block ?a s \<bind> free_block ?b \<bind> free_block p = Some (set_mem (without [p] (mem_of ?s2)) ?s2)"
    using f1(1) f2(1) f3(1) by simp
  moreover have "set_mem (without [p] (mem_of ?s2)) ?s2 = set_mem (without [p] (without [?b] (without [?a] (mem_of s)))) s"
    by (simp add: set_mem_def)
  ultimately show thesis using f3(2) by (intro that) simp_all
qed

lemma free_block_tables [simp]:
  "free_block p (s\<lparr>publications := l, pubs := pb\<rparr>) = map_option (\<lambda>s. s\<lparr>publications := l, pubs := pb\<rparr>) (free_block p s)"
  by (cases "free_buf p (mem_of s)") (simp_all add: free_block_def set_mem_def)

lemma tables_pubs:
  assumes t: "tables_ok R s" and l: "table_ok (\<lambda>x. x) l" "set (items l) = dom pb"
    and r: "\<And>q. q \<in># refs s + R' \<longleftrightarrow> pb q \<noteq> None" "\<And>q x. pb q = Some x \<Longrightarrow> pu_refcount x = int (count (refs s + R') q)"
  shows "tables_ok R' (s\<lparr>publications := l, pubs := pb\<rparr>)"
proof -
  have "refs (s\<lparr>publications := l, pubs := pb\<rparr>) = refs s" by (simp add: refs_def)
  then show ?thesis using t l r unfolding tables_ok_def by (simp del: union_iff)
qed

definition drop_publication :: "ptr \<Rightarrow> Publications \<Rightarrow> bufmem \<Rightarrow> bufmem" where
  "drop_publication p pub h = without [p] (without [pu_topic pub] (without [pu_payload pub] h))"

lemma removePublication_ok:
  assumes ok: "store_ok (add_mset p R) L s" and pub: "pubs s p = Some pub"
    and u: "p \<notin># refs s + R \<Longrightarrow> \<forall>x\<in>#pub_blocks p pub. unread (nw s) x"
  obtains s' where "MQTTProtocol_removePublication p s = Some s'" "store_ok R L s'"
    "client_at s' = client_at s" "clients s' = clients s" "pending_writes s' = pending_writes s" "answers s' = answers s"
    "pubs s' = (if p \<in># refs s + R then (pubs s)(p \<mapsto> pub\<lparr>pu_refcount := pu_refcount pub - 1\<rparr>) else (pubs s)(p := None))"
    "nw s' = (if p \<in># refs s + R then nw s else (nw s)\<lparr>bufs := drop_publication p pub (mem_of s)\<rparr>)"
    "refs s' = refs s" "holds s = holds s' + (if p \<in># refs s + R then {#} else pub_blocks p pub)"
    "dom (extent (mem_of s')) = dom (extent (mem_of s)) - set_mset (holds s - holds s')"
proof -
  note outcome = that
  have t: "tables_ok (add_mset p R) s" and h: "held (nw s) (holds s + L)" using ok by (simp_all add: store_ok_def)
  note fin = finite_pubs [OF t]
  have rc: "pu_refcount pub = int (count (refs s + R) p) + 1" using tablesD(3) [OF t pub] by simp
  have dom: "q \<in># refs s + R \<longleftrightarrow> pubs s q \<noteq> None \<and> (q = p \<longrightarrow> p \<in># refs s + R)" for q
    using tablesD(2) [OF t, of q] by auto
  have cnt: "pubs s q = Some pb \<Longrightarrow> q \<noteq> p \<Longrightarrow> pu_refcount pb = int (count (refs s + R) q)" for q pb
    using tablesD(3) [OF t, of q pb] by simp
  have p0: "p \<noteq> NULL"
    using heldD(3) [OF h, of p] holds_pub(2) [OF fin pub, symmetric] by (simp add: pub_blocks_def)
  show thesis
  proof (cases "p \<in># refs s + R")
    case True
    let ?pub = "pub\<lparr>pu_refcount := pu_refcount pub - 1\<rparr>" let ?s = "s\<lparr>pubs := (pubs s)(p \<mapsto> ?pub)\<rparr>"
    have "0 < count (refs s + R) p" using True by (simp only: count_greater_zero_iff)
    then have "pu_refcount pub - 1 \<noteq> 0" using rc by linarith
    then have run: "MQTTProtocol_removePublication p s = Some ?s"
      using p0 pub by (simp add: MQTTProtocol_removePublication_def Let_def)
    have hs: "holds ?s = holds s" by (rule holds_pub(3) [OF fin pub]) (simp add: pub_blocks_def)
    have "tables_ok R (s\<lparr>publications := publications s, pubs := (pubs s)(p \<mapsto> ?pub)\<rparr>)"
    proof (rule tables_pubs [OF t], goal_cases list dom refs count)
      case list then show ?case using t by (simp add: tables_ok_def)
    next
      case dom then show ?case using t pub by (auto simp: tables_ok_def)
    next
      case (refs q) then show ?case using dom [of q] True pub by (auto simp del: union_iff)
    next
      case (count q x) then show ?case using cnt [of q x] rc by (auto split: if_splits)
    qed
    then have "tables_ok R ?s" by simp
    then have "store_ok R L ?s" using h hs by (simp add: store_ok_def)
    with run True hs show thesis by (intro outcome [of ?s]) simp_all
  next
    case False
    then have rc1: "pu_refcount pub = 1" using rc by (simp add: not_in_iff)
    have hl: "held (nw s) (pub_blocks p pub + (holds (s\<lparr>pubs := (pubs s)(p := None)\<rparr>) + L))"
      using h holds_pub(2) [OF fin pub] by (simp add: ac_simps)
    obtain h' where fr: "free_block (pu_payload pub) s \<bind> free_block (pu_topic pub) \<bind> free_block p = Some (set_mem h' s)"
      and h': "h' = without [p] (without [pu_topic pub] (without [pu_payload pub] (mem_of s)))"
      "held ((nw s)\<lparr>bufs := h'\<rparr>) (holds (s\<lparr>pubs := (pubs s)(p := None)\<rparr>) + L)"
      using free_three [OF hl u [OF False]] by blast
    have tp: "table_ok (\<lambda>x. x) (publications s)" "p \<in> set (items (publications s))" using t pub by (auto simp: tables_ok_def)
    obtain l where l: "a_unlink (\<lambda>x. x = p) (publications s) = (Some p, l)" "table_ok (\<lambda>x. x) l" "set (items l) = set (items (publications s)) - {p}"
      using a_unlink_self [OF tp(1), of p] tp(2) by auto
    obtain s1 where s1: "free_block (pu_payload pub) s = Some s1" using fr by (auto split: Option.bind_splits)
    obtain s2 where s2: "free_block (pu_topic pub) s1 = Some s2" using fr s1 by (auto split: Option.bind_splits)
    have s3: "free_block p s2 = Some (set_mem h' s)" using fr s1 s2 by simp
    have same: "publications s2 = publications s" "pubs s2 = pubs s"
      using s1 s2 by (auto simp: free_block_def)
    let ?s = "(set_mem h' s)\<lparr>publications := l, pubs := (pubs s)(p := None)\<rparr>"
    have run: "MQTTProtocol_removePublication p s = Some ?s"
      using p0 pub rc1 s1 s2 s3 l same by (simp add: MQTTProtocol_removePublication_def Let_def)
    have hs: "holds ?s = holds (s\<lparr>pubs := (pubs s)(p := None)\<rparr>)" "refs ?s = refs s" by (simp_all add: holds_def refs_def)
    have "tables_ok R (s\<lparr>publications := l, pubs := (pubs s)(p := None)\<rparr>)"
    proof (rule tables_pubs [OF t l(2)], goal_cases dom refs count)
      case dom then show ?case using t l(3) by (auto simp: tables_ok_def)
    next
      case (refs q) then show ?case using dom [of q] False by (auto simp del: union_iff)
    next
      case (count q x) then show ?case using cnt [of q x] by (auto split: if_splits)
    qed
    moreover have "?s = (s\<lparr>publications := l, pubs := (pubs s)(p := None)\<rparr>)\<lparr>nw := (nw s)\<lparr>bufs := h'\<rparr>\<rparr>"
      by (cases s) (simp add: set_mem_def)
    ultimately have "tables_ok R ?s" by (simp only: tables_cong)
    then have "store_ok R L ?s" using h'(2) hs(1) by (simp add: store_ok_def)
    moreover have ha: "holds s = holds ?s + pub_blocks p pub" using holds_pub(2) [OF fin pub] hs(1) by simp
    moreover have "dom (extent (mem_of ?s)) = dom (extent (mem_of s)) - set_mset (holds s - holds ?s)"
      unfolding ha by (auto simp: h'(1) pub_blocks_def split: if_splits)
    ultimately show thesis using run False h'(1) hs(2) by (intro outcome [of ?s]) (simp_all add: drop_publication_def)
  qed
qed

text \<open>Dropping a reference and changing a client commute.\<close>

lemma upd_client_commutes [simp]:
  "upd_client c f (s\<lparr>pubs := pb\<rparr>) = (upd_client c f s)\<lparr>pubs := pb\<rparr>"
  "upd_client c f (s\<lparr>publications := l\<rparr>) = (upd_client c f s)\<lparr>publications := l\<rparr>"
  "upd_client c f (set_mem h s) = set_mem h (upd_client c f s)"
  by (simp_all add: upd_client_def set_mem_def)

lemma free_block_upd_client [simp]:
  "free_block p (upd_client c f s) = map_option (upd_client c f) (free_block p s)"
  by (cases "free_buf p (mem_of s)") (simp_all add: free_block_def)

lemma removePublication_upd_client:
  "MQTTProtocol_removePublication p (upd_client c f s) = map_option (upd_client c f) (MQTTProtocol_removePublication p s)"
proof -
  have fb: "publications t = publications s \<and> pubs t = pubs s" if "free_block x s = Some t" for x s t
    using that by (auto simp: free_block_def)
  show ?thesis
    unfolding MQTTProtocol_removePublication_def Let_def
    by (auto simp: free_block_tables option.map_comp comp_def split: Option.bind_splits option.splits prod.splits dest!: fb)
qed

section \<open>Finding the client of a socket\<close>

lemma find_client_ok:
  assumes t: "tables_ok R s" and c: "c \<in> set (items (clients s))" "client_at s c = Some cl"
  obtains l where "find_client (cl_socket cl) s = Some (c, s\<lparr>clients := l\<rparr>)" "items l = items (clients s)"
    "tables_ok R (s\<lparr>clients := l\<rparr>)" "holds (s\<lparr>clients := l\<rparr>) = holds s" "refs (s\<lparr>clients := l\<rparr>) = refs s"
proof -
  let ?key = "\<lambda>c. cl_socket (the (client_at s c))"
  have tab: "table_ok ?key (clients s)" using t by (simp add: tables_ok_def)
  have all: "\<not> (\<exists>c\<in>set (items (clients s)). client_at s c = None)" using tablesD(1) [OF t] by fastforce
  show thesis
  proof (rule a_find_key [OF tab, of "cl_socket cl"])
    assume "key_lookup ?key (clients s) (cl_socket cl) = None"
    then have False using c by (auto simp: key_lookup_def find_None_iff)
    then show thesis ..
  next
    fix j
    assume j: "a_find (\<lambda>x. ?key x = cl_socket cl) (clients s) = (Some j, (clients s)\<lparr>cursor := Some j\<rparr>)" "j < length (items (clients s))"
      "?key (items (clients s) ! j) = cl_socket cl"
    have "distinct (map ?key (items (clients s)))" using tab by (simp add: table_ok_def)
    then have "inj_on ?key (set (items (clients s)))" by (simp add: distinct_map)
    then have "items (clients s) ! j = c"
      by (rule inj_onD) (use j(2,3) c in simp_all)
    then have run: "find_client (cl_socket cl) s = Some (c, s\<lparr>clients := (clients s)\<lparr>cursor := Some j\<rparr>\<rparr>)"
      using all j(1) by (auto simp: find_client_def MQTTProperties_socketCompare_def)
    have r: "refs (s\<lparr>clients := (clients s)\<lparr>cursor := Some j\<rparr>\<rparr>) = refs s" by (simp add: refs_def)
    have "tables_ok R (s\<lparr>clients := (clients s)\<lparr>cursor := Some j\<rparr>\<rparr>)"
      using t j(2) unfolding tables_ok_def r by simp
    then show thesis using run r by (intro that) (simp_all add: holds_def)
  qed
qed

section \<open>PUBACK\<close>

lemma filter_remove_nth:
  assumes "distinct (map ms_msgid ms)" "i < length ms" "P (ms ! i)" "\<And>m. P m \<Longrightarrow> ms_msgid m = ms_msgid (ms ! i)"
  shows "remove_nth i ms = filter (\<lambda>m. \<not> P m) ms"
proof -
  have "filter (\<lambda>m. \<not> P m) ms = filter (\<lambda>m. ms_msgid m \<noteq> ms_msgid (ms ! i)) ms"
  proof (rule filter_cong [OF refl])
    fix m assume "m \<in> set ms"
    then obtain j where j: "j < length ms" "m = ms ! j" by (auto simp: in_set_conv_nth)
    show "(\<not> P m) = (ms_msgid m \<noteq> ms_msgid (ms ! i))"
    proof (cases "j = i")
      case False
      then have "ms_msgid m \<noteq> ms_msgid (ms ! i)"
        using nth_eq_iff_index_eq [OF assms(1), of j i] assms(2) j by simp
      then show ?thesis using assms(4) by blast
    qed (use assms(3) j in simp)
  qed
  then show ?thesis using remove_nth_filter [OF assms(1,2)] by simp
qed

lemma mset_remove_nth: "i < length xs \<Longrightarrow> mset xs = add_mset (xs ! i) (mset (remove_nth i xs))"
  by (subst id_take_nth_drop [of i xs]) (simp_all add: remove_nth_def)

lemma mset_map_remove_nth: "i < length xs \<Longrightarrow> mset (map f xs) = add_mset (f (xs ! i)) (mset (map f (remove_nth i xs)))"
  using mset_remove_nth [of i xs] by (metis image_mset_add_mset mset_map)

lemma table_ok_remove_key:
  assumes "table_ok key l" "i < length (items l)"
  shows "table_ok key (remove_at i l)"
proof -
  have "remove_nth i (items l) = filter (\<lambda>x. key x \<noteq> key (items l ! i)) (items l)"
    using assms by (intro remove_nth_filter) (simp_all add: table_ok_def)
  then have "distinct (map key (remove_nth i (items l)))"
    using assms by (simp add: table_ok_def distinct_map_filter)
  then show ?thesis using cursor_after_removal_ok [of l i] assms by (simp add: table_ok_def remove_at_def)
qed

lemma table_ok_unique: "table_ok ms_msgid l \<Longrightarrow> distinct (map ms_msgid (items l))"
  by (simp add: table_ok_def)

text \<open>What a PUBACK for the id \<open>mid\<close> acknowledges.\<close>

definition acknowledged :: "int \<Rightarrow> Messages \<Rightarrow> bool" where
  "acknowledged mid m \<longleftrightarrow> ms_msgid m = mid \<and> ms_qos m = 1"

text \<open>What is to be shown of the handling of a PUBACK with the id \<open>mid\<close> for the client \<open>cl\<close> at \<open>c\<close>.\<close>

definition puback_done :: "Ack \<Rightarrow> int \<Rightarrow> ptr \<Rightarrow> Clients \<Rightarrow> ptr multiset \<Rightarrow> proto \<Rightarrow> bool" where
  "puback_done puback mid c cl L s \<longleftrightarrow> (\<exists>s' out. MQTTProtocol_handlePubacks puback (cl_socket cl) s = Some (TCPSOCKET_COMPLETE, s') \<and> store_ok {#} L s' \<and>
     client_at s' = (client_at s)(c \<mapsto> cl\<lparr>cl_outboundMsgs := out\<rparr>) \<and>
     items out = filter (\<lambda>m. \<not> acknowledged mid m) (items (cl_outboundMsgs cl)) \<and>
     (\<forall>p. pubs s' p \<noteq> None \<longleftrightarrow> p \<in># refs s') \<and>
     refs s = refs s' + mset (map ms_publish (filter (acknowledged mid) (items (cl_outboundMsgs cl)))) \<and>
     dom (extent (mem_of s')) = dom (extent (mem_of s)) - set_mset (holds s - holds s'))"

lemma puback_keeps:
  assumes ok: "store_ok {#} L s" and c: "c \<in> set (items (clients s))" "client_at s c = Some cl"
    and id: "ack_msgId puback = Some mid"
    and fc: "find_client (cl_socket cl) s = Some (c, s\<lparr>clients := l\<rparr>)" "items l = items (clients s)"
    and tl: "tables_ok {#} (s\<lparr>clients := l\<rparr>)" and hl: "holds (s\<lparr>clients := l\<rparr>) = holds s" "refs (s\<lparr>clients := l\<rparr>) = refs s"
    and run: "MQTTProtocol_handlePubacks puback (cl_socket cl) s =
        Some (TCPSOCKET_COMPLETE, upd_client c (cl_outboundMsgs_update (\<lambda>_. out)) (s\<lparr>clients := l\<rparr>))"
    and out: "table_ok ms_msgid out" "items out = items (cl_outboundMsgs cl)"
    and no: "filter (acknowledged mid) (items (cl_outboundMsgs cl)) = []"
  shows "puback_done puback mid c cl L s"
proof -
  have t: "tables_ok {#} s" and h: "held (nw s) (holds s + L)" using ok by (simp_all add: store_ok_def)
  let ?s = "s\<lparr>clients := l\<rparr>" and ?out = "cl_outboundMsgs cl"
  have c': "c \<in> set (items (clients ?s))" "client_at ?s c = Some cl" using c fc(2) by simp_all
  have cok: "client_ok cl" using tablesD(1) [OF t c(1)] c(2) by simp
  then have tab: "table_ok ms_msgid ?out" by (simp add: client_ok_def)
  note d = table_ok_unique [OF tab]
  let ?f = "cl_outboundMsgs_update (\<lambda>_. out)" let ?u = "upd_client c ?f ?s"
  have cr: "client_refs (?f cl) = client_refs cl" "client_holds (?f cl) = client_holds cl"
    using out by (simp_all add: client_refs_def client_holds_def)
  have "client_ok (?f cl)" using cok out by (simp add: client_ok_def)
  then have "tables_ok {#} ?u" using cr by (intro tables_upd_client [OF tl c']) simp_all
  moreover have e: "holds ?u = holds s" "refs ?u = refs s"
    using upd_client_sums [OF c', of ?f] cr hl by simp_all
  ultimately have "store_ok {#} L ?u" using h by (simp add: store_ok_def)
  moreover have "\<forall>p. pubs ?u p \<noteq> None \<longleftrightarrow> p \<in># refs ?u" using tablesD(2) [OF t] e(2) by simp
  moreover have "filter (\<lambda>m. \<not> acknowledged mid m) (items ?out) = items ?out"
    using no by (simp add: filter_empty_conv filter_id_conv)
  ultimately show ?thesis unfolding puback_done_def using run out no e c(2)
    by (intro exI [of _ ?u] exI [of _ out]) simp
qed

lemma puback_removes:
  assumes ok: "store_ok {#} L s" and c: "c \<in> set (items (clients s))" "client_at s c = Some cl"
    and id: "ack_msgId puback = Some mid"
    and fc: "find_client (cl_socket cl) s = Some (c, s\<lparr>clients := l\<rparr>)" "items l = items (clients s)"
    and tl: "tables_ok {#} (s\<lparr>clients := l\<rparr>)" and hl: "holds (s\<lparr>clients := l\<rparr>) = holds s" "refs (s\<lparr>clients := l\<rparr>) = refs s"
    and written: "\<forall>m\<in>set (items (cl_outboundMsgs cl)). acknowledged mid m \<longrightarrow>
        (\<forall>x\<in>#pub_blocks (ms_publish m) (the (pubs s (ms_publish m))). unread (nw s) x)"
    and f: "a_find (\<lambda>m. messageIDCompare m mid) (cl_outboundMsgs cl) = (Some i, (cl_outboundMsgs cl)\<lparr>cursor := Some i\<rparr>)"
      "i < length (items (cl_outboundMsgs cl))" "ms_msgid (items (cl_outboundMsgs cl) ! i) = mid" "ms_qos (items (cl_outboundMsgs cl) ! i) = 1"
  shows "puback_done puback mid c cl L s"
proof -
  have t: "tables_ok {#} s" and h: "held (nw s) (holds s + L)" using ok by (simp_all add: store_ok_def)
  let ?s = "s\<lparr>clients := l\<rparr>" and ?out = "cl_outboundMsgs cl"
  have c': "c \<in> set (items (clients ?s))" "client_at ?s c = Some cl" using c fc(2) by simp_all
  have cok: "client_ok cl" using tablesD(1) [OF t c(1)] c(2) by simp
  then have tab: "table_ok ms_msgid ?out" by (simp add: client_ok_def)
  note d = table_ok_unique [OF tab]
  let ?m = "items ?out ! i" let ?p = "ms_publish ?m" let ?l = "remove_at i (?out\<lparr>cursor := Some i\<rparr>)"
  let ?f = "cl_outboundMsgs_update (\<lambda>_. ?l)" let ?u = "upd_client c ?f ?s"
  have l: "table_ok ms_msgid ?l" using table_ok_remove_key [of ms_msgid "?out\<lparr>cursor := Some i\<rparr>" i] tab f(2) by simp
  have il: "items ?l = remove_nth i (items ?out)" by (simp add: remove_at_def)
  have cr: "client_refs cl = add_mset ?p (client_refs (?f cl))" "client_holds (?f cl) = client_holds cl"
    using mset_map_remove_nth [OF f(2), of ms_publish] il by (simp_all add: client_refs_def client_holds_def del: mset_map)
  have "client_ok (?f cl)" using cok l by (simp add: client_ok_def)
  then have tu: "tables_ok {#?p#} ?u" using cr by (intro tables_upd_client [OF tl c']) simp_all
  have e: "holds ?u = holds s" "refs s = add_mset ?p (refs ?u)"
    using upd_client_sums [OF c', of ?f] cr hl by simp_all
  have su: "store_ok (add_mset ?p {#}) L ?u" using tu e h by (simp add: store_ok_def)
  have "?p \<in># refs s" by (simp add: e(2))
  then obtain pub where pub: "pubs s ?p = Some pub" using tablesD(2) [OF t, of ?p] by auto
  have ak: "acknowledged mid m \<longleftrightarrow> m = ?m" if "m \<in> set (items ?out)" for m
    using that d f(2-4) by (metis (no_types, lifting) acknowledged_def distinct_map inj_on_def nth_mem)
  have w: "\<forall>x\<in>#pub_blocks ?p pub. unread (nw ?u) x" using written ak f(2) pub by auto
  obtain s' where s': "MQTTProtocol_removePublication ?p ?u = Some s'" "store_ok {#} L s'" "client_at s' = client_at ?u"
    "refs s' = refs ?u" "dom (extent (mem_of s')) = dom (extent (mem_of ?u)) - set_mset (holds ?u - holds s')"
  proof (rule removePublication_ok [OF su, of pub], goal_cases pub unread result)
    case pub then show ?case using \<open>pubs s ?p = Some pub\<close> by simp
  next
    case unread then show ?case using w by simp
  next
    case (result s') then show ?case by (intro that [of s']) simp_all
  qed
  obtain s0 where s0: "MQTTProtocol_removePublication ?p ?s = Some s0" "upd_client c ?f s0 = s'"
    using s'(1) unfolding removePublication_upd_client by (auto simp: map_option_case split: option.splits)
  have run: "MQTTProtocol_handlePubacks puback (cl_socket cl) s = Some (TCPSOCKET_COMPLETE, s')"
    using fc c' id f s0 by (simp add: MQTTProtocol_handlePubacks_def Let_def)
  have fl: "items ?l = filter (\<lambda>m. \<not> acknowledged mid m) (items ?out)"
    unfolding il using f(2-4) by (intro filter_remove_nth [OF d f(2)]) (auto simp: acknowledged_def)
  let ?no = "mset (filter (\<lambda>m. \<not> acknowledged mid m) (items ?out))"
  have "{#?m#} + ?no = mset (items ?out)" using mset_remove_nth [OF f(2)] fl il by simp
  also have "\<dots> = mset (filter (acknowledged mid) (items ?out)) + ?no"
    unfolding mset_filter by (rule multiset_partition)
  finally have "mset (filter (acknowledged mid) (items ?out)) = {#?m#}" by (simp only: add_right_cancel)
  then have ms: "mset (map ms_publish (filter (acknowledged mid) (items ?out))) = {#?p#}" by simp
  have "\<forall>q. pubs s' q \<noteq> None \<longleftrightarrow> q \<in># refs s'" using tablesD(2) [of "{#}" s'] s'(2) by (simp add: store_ok_def)
  then show ?thesis unfolding puback_done_def using run s'(2,3,5) s'(4) e ms fl c(2)
    by (intro exI [of _ s'] exI [of _ ?l]) (simp del: mset_map)
qed

text \<open>C28: A PUBACK removes the message of quality of service 1 with its id from the messages in flight of the
  client it came from, and nothing else; a PUBACK for an unknown id or for a message of another quality changes
  no list.  The reference counts stay exact: the publication, its topic and its payload are freed exactly when
  this was the last reference.  The invariant is kept.  The hypothesis on unfinished writes excludes a PUBACK
  for a message that is still being written.\<close>

theorem handlePubacks_correct:
  assumes ok: "store_ok {#} L s" and c: "c \<in> set (items (clients s))" "client_at s c = Some cl"
    and id: "ack_msgId puback = Some mid"
    and written: "\<forall>m\<in>set (items (cl_outboundMsgs cl)). acknowledged mid m \<longrightarrow>
        (\<forall>x\<in>#pub_blocks (ms_publish m) (the (pubs s (ms_publish m))). unread (nw s) x)"
  shows "\<exists>s' out. MQTTProtocol_handlePubacks puback (cl_socket cl) s = Some (TCPSOCKET_COMPLETE, s') \<and> store_ok {#} L s' \<and>
     client_at s' = (client_at s)(c \<mapsto> cl\<lparr>cl_outboundMsgs := out\<rparr>) \<and>
     items out = filter (\<lambda>m. \<not> acknowledged mid m) (items (cl_outboundMsgs cl)) \<and>
     (\<forall>p. pubs s' p \<noteq> None \<longleftrightarrow> p \<in># refs s') \<and>
     refs s = refs s' + mset (map ms_publish (filter (acknowledged mid) (items (cl_outboundMsgs cl)))) \<and>
     dom (extent (mem_of s')) = dom (extent (mem_of s)) - set_mset (holds s - holds s')"
proof -
  have t: "tables_ok {#} s" using ok by (simp add: store_ok_def)
  obtain l where l: "find_client (cl_socket cl) s = Some (c, s\<lparr>clients := l\<rparr>)" "items l = items (clients s)"
    "tables_ok {#} (s\<lparr>clients := l\<rparr>)" "holds (s\<lparr>clients := l\<rparr>) = holds s" "refs (s\<lparr>clients := l\<rparr>) = refs s"
    by (rule find_client_ok [OF t c])
  note keep = puback_keeps [OF ok c id l] and rem = puback_removes [OF ok c id l written]
  let ?s = "s\<lparr>clients := l\<rparr>" and ?out = "cl_outboundMsgs cl"
  have c': "client_at ?s c = Some cl" using c by simp
  have tab: "table_ok ms_msgid ?out" using tablesD(1) [OF t c(1)] c(2) by (simp add: client_ok_def)
  note d = table_ok_unique [OF tab]
  have "puback_done puback mid c cl L s"
  proof (rule a_find_key [OF tab, of mid])
    assume none: "a_find (\<lambda>x. ms_msgid x = mid) ?out = (None, ?out)" "key_lookup ms_msgid ?out mid = None"
    show ?thesis
      by (rule keep [of ?out])
        (use none tab l c' id in \<open>auto simp: MQTTProtocol_handlePubacks_def messageIDCompare_def key_lookup_def find_None_iff
          acknowledged_def filter_empty_conv\<close>)
  next
    fix i
    assume i: "a_find (\<lambda>x. ms_msgid x = mid) ?out = (Some i, ?out\<lparr>cursor := Some i\<rparr>)" "i < length (items ?out)"
      "ms_msgid (items ?out ! i) = mid"
    show ?thesis
    proof (cases "ms_qos (items ?out ! i) = 1")
      case True
      with i show ?thesis by (intro rem [of i]) (simp_all add: messageIDCompare_def)
    next
      case False
      have "ms_msgid m = mid \<Longrightarrow> m \<in> set (items ?out) \<Longrightarrow> m = items ?out ! i" for m
        using d i(2,3) by (metis (no_types, lifting) distinct_map inj_on_def nth_mem)
      then have "filter (acknowledged mid) (items ?out) = []" using False by (auto simp: acknowledged_def filter_empty_conv)
      moreover have "MQTTProtocol_handlePubacks puback (cl_socket cl) s
          = Some (TCPSOCKET_COMPLETE, upd_client c (cl_outboundMsgs_update (\<lambda>_. ?out\<lparr>cursor := Some i\<rparr>)) ?s)"
        using l c' id i False by (simp add: MQTTProtocol_handlePubacks_def messageIDCompare_def)
      ultimately show ?thesis using keep [of "?out\<lparr>cursor := Some i\<rparr>"] tab i(2) by simp
    qed
  qed
  then show ?thesis unfolding puback_done_def .
qed

section \<open>When memory is available\<close>

lemma malloc_ok_nil [simp]: "answers s = [] \<Longrightarrow> malloc_ok s = (True, s)"
  by (cases s) (simp add: malloc_ok_def)

lemma append_item_nil [simp]: "answers s = [] \<Longrightarrow> append_item x l s = (True, a_append x l, s)"
  by (simp add: append_item_def)

lemma store_ok_cong: "store_ok R L s \<Longrightarrow> held n (holds s + L') \<Longrightarrow> store_ok R L' (s\<lparr>nw := n\<rparr>)"
  by (simp add: store_ok_def)

lemma malloc_block_held:
  assumes al: "buf_allocator alloc" and a: "answers s = []" and h: "held (nw s) H"
  obtains p h' where "malloc_block alloc n s = (p, set_mem h' s)" "p \<noteq> NULL" "heap_ok h'" "extends (mem_of s) h'"
    "extent (mem_of s) p = None" "extent h' = (extent (mem_of s))(p \<mapsto> n)" "held ((nw s)\<lparr>bufs := h'\<rparr>) (add_mset p H)"
    "unread ((nw s)\<lparr>bufs := h'\<rparr>) p"
proof -
  obtain p h' where p: "alloc_buf alloc n (mem_of s) = (p, h')" by fastforce
  note b = alloc_block [OF al heldD(2) [OF h] p]
  have "extent h' p \<noteq> None" using b(6) by simp
  note n = held_new [OF h b(1,2,3,4) this]
  show thesis
    by (rule that [of p h']) (use a p b n in \<open>simp_all add: malloc_block_def Let_def\<close>)
qed

text \<open>Allocating a block and copying \<open>n\<close> bytes into it.\<close>

lemma malloc_copy_held:
  assumes al: "buf_allocator alloc" and a: "answers s = []" and h: "held (nw s) H" and src: "read_buf (mem_of s) src n = Some bs"
  obtains p h1 h2 where "malloc_block alloc n s = (p, set_mem h1 s)" "p \<noteq> NULL" "copy_to p src n (set_mem h1 s) = Some (set_mem h2 s)"
    "extends (mem_of s) h2" "extent (mem_of s) p = None" "dom (extent h2) = insert p (dom (extent (mem_of s)))"
    "held ((nw s)\<lparr>bufs := h2\<rparr>) (add_mset p H)" "read_buf h2 p n = Some bs"
    "\<And>x. x \<in># H \<Longrightarrow> unread (nw s) x \<Longrightarrow> unread ((nw s)\<lparr>bufs := h2\<rparr>) x"
proof -
  obtain p h1 where p: "malloc_block alloc n s = (p, set_mem h1 s)" "p \<noteq> NULL" "heap_ok h1" "extends (mem_of s) h1"
    "extent (mem_of s) p = None" "extent h1 = (extent (mem_of s))(p \<mapsto> n)" "held ((nw s)\<lparr>bufs := h1\<rparr>) (add_mset p H)"
    "unread ((nw s)\<lparr>bufs := h1\<rparr>) p" by (rule malloc_block_held [OF al a h])
  have bs: "length bs = n" using read_buf_length [OF src] by simp
  have src1: "read_buf h1 src n = Some bs" by (rule extends_read [OF heldD(2) [OF h] p(4) src])
  let ?h2 = "fill p bs h1"
  have cp: "copy_to p src n (set_mem h1 s) = Some (set_mem ?h2 s)"
    using src1 p(6) by (simp add: copy_to_def set_mem_def)
  have h2: "held ((nw s)\<lparr>bufs := ?h2\<rparr>) (add_mset p H)"
    using held_fill [OF p(7) _ p(8), of n bs] p(6) bs by simp
  have ext: "extends (mem_of s) ?h2"
    unfolding extends_def
  proof (intro conjI allI impI ballI)
    show "extent ?h2 q = Some k" if "extent (mem_of s) q = Some k" for q k
      using extends_extent [OF p(4) that] by simp
    show "cells ?h2 a = cells (mem_of s) a" if "a \<in> live (mem_of s)" for a
    proof -
      have "a \<notin> block h1 p" by (rule new_block_apart [OF p(3,4,5) that])
      then have "a \<notin> {p..<p + length bs}" using p(6) bs by (simp add: block_def)
      then have "cells ?h2 a = cells h1 a" by (simp only: fill_cells if_False)
      then show ?thesis using p(4) that by (simp add: extends_def)
    qed
  qed
  have un: "unread ((nw s)\<lparr>bufs := ?h2\<rparr>) x" if "x \<in># H" "unread (nw s) x" for x
    using unread_extends [OF h that(1) ext that(2)] .
  have "dom (extent ?h2) = insert p (dom (extent (mem_of s)))" by (simp add: p(6))
  then show thesis
    using p(1,2,5) cp ext h2 read_fill [of p bs h1] bs un by (intro that) simp_all
qed

section \<open>An incoming message\<close>

text \<open>The properties of an entry: a copy in MQTT 5, none before.\<close>

definition copied :: "Publish_struct \<Rightarrow> MQTTProperties \<Rightarrow> bool" where
  "copied p props \<longleftrightarrow> (if ps_version p \<ge> 5 then MQTTProperties_copy (ps_properties p) [] = Some (props, [])
     else props = MQTTProperties_initializer)"

definition entry_of :: "Publish_struct \<Rightarrow> ptr \<Rightarrow> MQTTProperties \<Rightarrow> qEntry" where
  "entry_of p b props = \<lparr>qe_msg = \<lparr>mm_payloadlen = ps_payloadlen p, mm_payload = b, mm_qos = h_qos (ps_header p),
      mm_retained = h_retain (ps_header p), mm_dup = (if h_qos (ps_header p) = 2 then 0 else h_dup (ps_header p)),
      mm_msgid = ps_msgId p, mm_properties = props\<rparr>, qe_topicName = ps_topic p, qe_topicLen = ps_topiclen p\<rparr>"

lemma alist_ok_append [simp]: "alist_ok l \<Longrightarrow> alist_ok (a_append x l)"
  by (auto simp: alist_ok_def a_append_def split: option.splits)

lemma items_append [simp]: "items (a_append x l) = items l @ [x]"
  by (simp add: a_append_def)

lemma processPublication_ok:
  assumes al: "buf_allocator alloc" and ok: "store_ok R (add_mset (ps_topic p) L) s" and a: "answers s = []"
    and c: "c \<in> set (items (clients s))" "client_at s c = Some cl" and props: "copied p props"
    and b: "0 \<le> ps_payloadlen p" "read_buf (mem_of s) (ps_payload p) (nat (ps_payloadlen p)) = Some bs"
    and t: "read_cstr (mem_of s) (ps_topic p) = Some tp"
  obtains s' q where "Protocol_processPublication alloc p c True s = Some (p\<lparr>ps_topic := NULL\<rparr>, s')" "store_ok R L s'"
    "answers s' = []" "extends (mem_of s) (mem_of s')" "nw s' = (nw s)\<lparr>bufs := mem_of s'\<rparr>"
    "client_at s' = (client_at s)(c \<mapsto> cl\<lparr>cl_messageQueue := a_append (entry_of p q props) (cl_messageQueue cl)\<rparr>)"
    "clients s' = clients s" "pubs s' = pubs s" "pending_writes s' = pending_writes s" "refs s' = refs s"
    "read_buf (mem_of s') q (nat (ps_payloadlen p)) = Some bs" "read_cstr (mem_of s') (ps_topic p) = Some tp"
    "holds s' = holds s + {#ps_topic p, q#}" "dom (extent (mem_of s')) = insert q (dom (extent (mem_of s)))"
proof -
  have tb: "tables_ok R s" and h: "held (nw s) (holds s + add_mset (ps_topic p) L)" using ok by (simp_all add: store_ok_def)
  obtain q h1 h2 where q: "malloc_block alloc (nat (ps_payloadlen p)) s = (q, set_mem h1 s)" "q \<noteq> NULL"
    "copy_to q (ps_payload p) (nat (ps_payloadlen p)) (set_mem h1 s) = Some (set_mem h2 s)"
    "extends (mem_of s) h2" "extent (mem_of s) q = None" "dom (extent h2) = insert q (dom (extent (mem_of s)))"
    "held ((nw s)\<lparr>bufs := h2\<rparr>) (add_mset q (holds s + add_mset (ps_topic p) L))" "read_buf h2 q (nat (ps_payloadlen p)) = Some bs"
    by (rule malloc_copy_held [OF al a h b(2)])
  note t2 = extends_cstr [OF q(4) t]
  let ?e = "entry_of p q props" let ?l = "a_append ?e (cl_messageQueue cl)"
  let ?f = "cl_messageQueue_update (\<lambda>_. ?l)" let ?s = "upd_client c ?f (set_mem h2 s)"
  have run: "Protocol_processPublication alloc p c True s = Some (p\<lparr>ps_topic := NULL\<rparr>, ?s)"
    using a c q b(1) t2 props
    by (auto simp: Protocol_processPublication_def Let_def copied_def entry_of_def)
  have cr: "client_refs (?f cl) = client_refs cl" "client_holds (?f cl) = client_holds cl + {#ps_topic p, q#}"
    by (simp_all add: client_refs_def client_holds_def entry_blocks_def entry_of_def)
  have c': "c \<in> set (items (clients (set_mem h2 s)))" "client_at (set_mem h2 s) c = Some cl" using c by simp_all
  have "client_ok cl" using tablesD(1) [OF tb c(1)] c(2) by simp
  then have "client_ok (?f cl)" by (simp add: client_ok_def)
  moreover have tm: "tables_ok R (set_mem h2 s)" using tb by (simp add: set_mem_def)
  ultimately have ts: "tables_ok R ?s" using cr by (intro tables_upd_client [OF _ c']) simp_all
  have hs: "holds (set_mem h2 s) = holds s" "refs (set_mem h2 s) = refs s" by (simp_all add: set_mem_def)
  have e: "holds ?s = holds s + {#ps_topic p, q#}" "refs ?s = refs s"
    using upd_client_sums [OF c', of ?f] cr hs by simp_all
  have "store_ok R L ?s" using ts q(7) e by (simp add: store_ok_def add_mset_commute)
  then show thesis
    using run a q c t2 e by (intro that [of ?s q]) simp_all
qed

lemma noPendingWrites_held:
  assumes "held n H"
  obtains l where "Socket_noPendingWrites k n = (todo n k = [], upd_mod (write_pending_update (\<lambda>_. l)) n)"
    "held (upd_mod (write_pending_update (\<lambda>_. l)) n) H" "todo (upd_mod (write_pending_update (\<lambda>_. l)) n) = todo n"
proof -
  have po: "pending_ok n" using heldD(1) [OF assms] by (simp add: send_ok_def)
  obtain l where l: "Socket_noPendingWrites k n = (todo n k = [], upd_mod (write_pending_update (\<lambda>_. l)) n)"
    "pending_ok (upd_mod (write_pending_update (\<lambda>_. l)) n)"
    by (rule noPendingWrites_correct [OF po])
  have "held (upd_mod (write_pending_update (\<lambda>_. l)) n) H"
    using assms l(2) unfolding held_def send_ok_def by simp
  moreover have "todo (upd_mod (write_pending_update (\<lambda>_. l)) n) = todo n" by (simp add: todo_def fun_eq_iff upd_mod_def cong: option.case_cong)
  ultimately show thesis using l(1) by (intro that)
qed

lemma freePublish_null [simp]: "MQTTPacket_freePublish (p\<lparr>ps_topic := NULL\<rparr>) s = Some s"
  by (simp add: MQTTPacket_freePublish_def)

text \<open>A packet of the builder's own bytes, sent by the message layer.\<close>

lemma store_send:
  assumes al: "buf_allocator alloc" and ok: "store_ok R L s" and k: "0 \<le> k" "k < FD_SETSIZE" and ne: "buf0 \<noteq> []"
    and len: "length bss \<le> 4"
  obtains rc n where "net_put alloc [] k buf0 \<lparr>pb_buffers = bss, pb_frees = replicate (length bss) True\<rparr> (nw s) = Some (rc, n)"
    "handed_over (nw s) k (buf0 @ concat bss) rc n" "store_ok R L (s\<lparr>nw := n\<rparr>)"
    "\<And>x. x \<in># holds s + L \<Longrightarrow> unread (nw s) x \<Longrightarrow> unread n x"
proof -
  have h: "held (nw s) (holds s + L)" using ok by (simp add: store_ok_def)
  let ?pb = "\<lparr>pb_buffers = bss, pb_frees = replicate (length bss) True\<rparr>"
  have "pieces (zip bss (replicate m True)) = []" for m
  proof (induction bss arbitrary: m)
    case (Cons bs bss)
    then show ?case by (cases m) simp_all
  qed simp
  then have pc: "pieces (zip (pb_buffers ?pb) (pb_frees ?pb)) = []" by simp
  show thesis
  proof (rule held_net_put [OF al h k ne, of ?pb "[]" "buf0 @ concat bss"], goal_cases)
    case (6 rc n)
    then have "store_ok R L (s\<lparr>nw := n\<rparr>)" using ok by (simp add: store_ok_def)
    with 6 pc show thesis by (intro that [of rc n]) simp_all
  qed (use len pc in \<open>simp_all add: readable_def apart_def\<close>)
qed

text \<open>What the delivery of a message adds to the client's queue.\<close>

definition delivered :: "Publish_struct \<Rightarrow> MQTTProperties \<Rightarrow> byte list \<Rightarrow> byte list \<Rightarrow> Clients \<Rightarrow> proto \<Rightarrow> Clients \<Rightarrow> bool" where
  "delivered p props tp bs cl s' cl' \<longleftrightarrow>
     (\<exists>q. cl_messageQueue cl' = a_append (entry_of p q props) (cl_messageQueue cl) \<and>
        read_cstr (mem_of s') (ps_topic p) = Some tp \<and> read_buf (mem_of s') q (nat (ps_payloadlen p)) = Some bs)"

lemma delivered_extends:
  assumes "delivered p props tp bs cl s cl'" "heap_ok (mem_of s)" "extends (mem_of s) (mem_of s')" "cl_messageQueue cl'' = cl_messageQueue cl'"
  shows "delivered p props tp bs cl s' cl''"
  using assms extends_read [OF assms(2,3)] extends_cstr [OF assms(3)] unfolding delivered_def by metis

lemma handlePublishes_qos0:
  assumes al: "buf_allocator alloc" and ok: "store_ok {#} (add_mset (ps_topic p) L) s" and a: "answers s = []"
    and c: "c \<in> set (items (clients s))" "client_at s c = Some cl" and props: "copied p props"
    and b: "0 \<le> ps_payloadlen p" "read_buf (mem_of s) (ps_payload p) (nat (ps_payloadlen p)) = Some bs"
    and t: "read_cstr (mem_of s) (ps_topic p) = Some tp" and qos: "h_qos (ps_header p) = 0"
  obtains s' cl' where "MQTTProtocol_handlePublishes alloc p (cl_socket cl) s = Some (TCPSOCKET_COMPLETE, s')" "store_ok {#} L s'"
    "client_at s' = (client_at s)(c \<mapsto> cl')" "cl' = cl\<lparr>cl_messageQueue := cl_messageQueue cl'\<rparr>" "delivered p props tp bs cl s' cl'"
    "outgoing (nw s') = outgoing (nw s)" "todo (nw s') = todo (nw s)" "pubs s' = pubs s"
proof -
  have tb: "tables_ok {#} s" and h: "held (nw s) (holds s + add_mset (ps_topic p) L)" using ok by (simp_all add: store_ok_def)
  obtain l where fc: "find_client (cl_socket cl) s = Some (c, s\<lparr>clients := l\<rparr>)" "items l = items (clients s)"
    "tables_ok {#} (s\<lparr>clients := l\<rparr>)" "holds (s\<lparr>clients := l\<rparr>) = holds s" by (rule find_client_ok [OF tb c])
  let ?s = "s\<lparr>clients := l\<rparr>"
  have ok1: "store_ok {#} (add_mset (ps_topic p) L) ?s" using fc h by (simp add: store_ok_def)
  obtain s' q where s': "Protocol_processPublication alloc p c True ?s = Some (p\<lparr>ps_topic := NULL\<rparr>, s')" "store_ok {#} L s'"
    "extends (mem_of ?s) (mem_of s')" "nw s' = (nw ?s)\<lparr>bufs := mem_of s'\<rparr>"
    "client_at s' = (client_at ?s)(c \<mapsto> cl\<lparr>cl_messageQueue := a_append (entry_of p q props) (cl_messageQueue cl)\<rparr>)"
    "pubs s' = pubs ?s" "read_buf (mem_of s') q (nat (ps_payloadlen p)) = Some bs" "read_cstr (mem_of s') (ps_topic p) = Some tp"
    by (rule processPublication_ok [OF al ok1 _ _ _ props b(1), of c cl bs tp]) (use a c fc b t in simp_all)
  have run: "MQTTProtocol_handlePublishes alloc p (cl_socket cl) s = Some (TCPSOCKET_COMPLETE, s')"
    using fc c s'(1) qos by (simp add: MQTTProtocol_handlePublishes_def)
  have "heap_ok (mem_of s')" using s'(2) heldD(2) by (auto simp: store_ok_def)
  then have td: "todo (nw s') = todo (nw s)"
    using send_ok_bufs(2) [OF heldD(1) [OF h], of "mem_of s'"] s'(3) by (subst s'(4)) simp
  have og: "outgoing (nw s') = outgoing (nw s)" by (subst s'(4)) simp
  show thesis
    by (rule that [OF run s'(2), of "cl\<lparr>cl_messageQueue := a_append (entry_of p q props) (cl_messageQueue cl)\<rparr>"])
      (use s' td og in \<open>auto simp: delivered_def\<close>)
qed

text \<open>What the handling of a PUBLISH of quality 0 or 1 achieves.\<close>

definition publish_done ::
  "alloc \<Rightarrow> Publish_struct \<Rightarrow> MQTTProperties \<Rightarrow> byte list \<Rightarrow> byte list \<Rightarrow> ptr \<Rightarrow> Clients \<Rightarrow> ptr multiset \<Rightarrow> proto \<Rightarrow>
   int \<Rightarrow> proto \<Rightarrow> Clients \<Rightarrow> bool" where
  "publish_done alloc p props tp bs c cl L s rc s' cl' \<longleftrightarrow> MQTTProtocol_handlePublishes alloc p (cl_socket cl) s = Some (rc, s') \<and> store_ok {#} L s' \<and>
    client_at s' = (client_at s)(c \<mapsto> cl') \<and> delivered p props tp bs cl s' cl' \<and> pubs s' = pubs s \<and>
    cl' = cl\<lparr>cl_messageQueue := cl_messageQueue cl', cl_outboundQueue := cl_outboundQueue cl'\<rparr> \<and>
    (if h_qos (ps_header p) = 1 \<and> todo (nw s) (cl_socket cl) \<noteq> []
     then cl_outboundQueue cl' = a_append \<lparr>ar_messageId = ps_msgId p, ar_ackType = PUBACK\<rparr> (cl_outboundQueue cl)
     else cl_outboundQueue cl' = cl_outboundQueue cl) \<and>
    (if h_qos (ps_header p) = 1 \<and> todo (nw s) (cl_socket cl) = [] \<and> rc \<noteq> SOCKET_ERROR
     then outgoing (nw s') (cl_socket cl) @ todo (nw s') (cl_socket cl)
        = outgoing (nw s) (cl_socket cl) @ [0x40, 2] @ be16 (ps_msgId p)
     else outgoing (nw s') = outgoing (nw s) \<and> todo (nw s') = todo (nw s)) \<and>
    (if rc = SOCKET_ERROR
     then h_qos (ps_header p) = 1 \<and> todo (nw s) (cl_socket cl) = [] \<and> refused (nw s) (cl_socket cl)
     else rc = (if h_qos (ps_header p) = 1 \<and> todo (nw s) (cl_socket cl) = [] \<and> todo (nw s') (cl_socket cl) \<noteq> []
                then TCPSOCKET_INTERRUPTED else TCPSOCKET_COMPLETE))"

text \<open>The message of quality 1 is in the queue, in the state \<open>s1\<close>; the acknowledgement is still to come.\<close>

lemma handlePublishes_qos1:
  assumes al: "buf_allocator alloc" and ok: "store_ok {#} (add_mset (ps_topic p) L) s" and a: "answers s = []"
    and c: "c \<in> set (items (clients s))" "client_at s c = Some cl" and props: "copied p props"
    and b: "0 \<le> ps_payloadlen p" "read_buf (mem_of s) (ps_payload p) (nat (ps_payloadlen p)) = Some bs"
    and t: "read_cstr (mem_of s) (ps_topic p) = Some tp" and q1: "h_qos (ps_header p) = 1"
    and k: "0 \<le> cl_socket cl" "cl_socket cl < FD_SETSIZE" "0 \<le> ps_msgId p"
  obtains s1 q where "store_ok {#} L s1" "answers s1 = []"
    "client_at s1 = (client_at s)(c \<mapsto> cl\<lparr>cl_messageQueue := a_append (entry_of p q props) (cl_messageQueue cl)\<rparr>)"
    "items (clients s1) = items (clients s)" "pubs s1 = pubs s" "heap_ok (mem_of s1)"
    "todo (nw s1) = todo (nw s)" "outgoing (nw s1) = outgoing (nw s)" "refused (nw s1) = refused (nw s)"
    "delivered p props tp bs cl s1 (cl\<lparr>cl_messageQueue := a_append (entry_of p q props) (cl_messageQueue cl)\<rparr>)"
    "MQTTProtocol_handlePublishes alloc p (cl_socket cl) s =
       (if todo (nw s) (cl_socket cl) \<noteq> [] then MQTTProtocol_queueAck c PUBACK (ps_msgId p) s1
        else on_net (MQTTPacket_send_puback (net_put alloc [] (cl_socket cl)) (ps_msgId p)) s1)"
proof -
  let ?k = "cl_socket cl"
  have tb: "tables_ok {#} s" and h: "held (nw s) (holds s + add_mset (ps_topic p) L)" using ok by (simp_all add: store_ok_def)
  obtain l where fc: "find_client ?k s = Some (c, s\<lparr>clients := l\<rparr>)" "items l = items (clients s)"
    "tables_ok {#} (s\<lparr>clients := l\<rparr>)" "holds (s\<lparr>clients := l\<rparr>) = holds s" by (rule find_client_ok [OF tb c])
  let ?s = "s\<lparr>clients := l\<rparr>"
  obtain wl where wl: "Socket_noPendingWrites ?k (nw s) = (todo (nw s) ?k = [], upd_mod (write_pending_update (\<lambda>_. wl)) (nw s))"
    "held (upd_mod (write_pending_update (\<lambda>_. wl)) (nw s)) (holds s + add_mset (ps_topic p) L)"
    "todo (upd_mod (write_pending_update (\<lambda>_. wl)) (nw s)) = todo (nw s)" by (rule noPendingWrites_held [OF h])
  let ?n = "upd_mod (write_pending_update (\<lambda>_. wl)) (nw s)" let ?t = "?s\<lparr>nw := ?n\<rparr>"
  have ok1: "store_ok {#} (add_mset (ps_topic p) L) ?t" using fc wl(2) by (simp add: store_ok_def)
  have mn: "mem_of ?t = mem_of s" "outgoing ?n = outgoing (nw s)" by (simp_all add: upd_mod_def)
  obtain s1 q where s1: "Protocol_processPublication alloc p c True ?t = Some (p\<lparr>ps_topic := NULL\<rparr>, s1)" "store_ok {#} L s1"
    "answers s1 = []" "extends (mem_of ?t) (mem_of s1)" "nw s1 = (nw ?t)\<lparr>bufs := mem_of s1\<rparr>"
    "client_at s1 = (client_at ?t)(c \<mapsto> cl\<lparr>cl_messageQueue := a_append (entry_of p q props) (cl_messageQueue cl)\<rparr>)"
    "clients s1 = clients ?t" "pubs s1 = pubs ?t" "read_buf (mem_of s1) q (nat (ps_payloadlen p)) = Some bs"
    "read_cstr (mem_of s1) (ps_topic p) = Some tp"
    by (rule processPublication_ok [OF al ok1 _ _ _ props b(1), of c cl bs tp]) (use a c fc b t mn in simp_all)
  let ?cl = "cl\<lparr>cl_messageQueue := a_append (entry_of p q props) (cl_messageQueue cl)\<rparr>"
  have h1: "heap_ok (mem_of s1)" using s1(2) heldD(2) by (auto simp: store_ok_def)
  have n1: "todo (nw s1) = todo (nw s)" "outgoing (nw s1) = outgoing (nw s)"
    using send_ok_bufs(2) [OF heldD(1) [OF wl(2)], of "mem_of s1"] s1(4) h1 wl(3) mn
    by (subst s1(5), simp)+
  have r1: "refused (nw s1) = refused (nw s)" by (rule refused_cong, subst s1(5), simp add: upd_mod_def)
  have d1: "delivered p props tp bs cl s1 ?cl" using s1(9,10) by (auto simp: delivered_def)
  have pre: "MQTTProtocol_handlePublishes alloc p ?k s =
      (if todo (nw s) ?k \<noteq> [] then MQTTProtocol_queueAck c PUBACK (ps_msgId p) s1
       else on_net (MQTTPacket_send_puback (net_put alloc [] ?k) (ps_msgId p)) s1)"
    using fc c s1(1) wl(1) q1 by (simp add: MQTTProtocol_handlePublishes_def Let_def) (auto split: Option.bind_split)
  show thesis
    by (rule that [of s1 q]) (use s1 h1 n1 r1 d1 pre fc(2) in simp_all)
qed

lemma qos1_acknowledged:
  assumes al: "buf_allocator alloc" and ok: "store_ok {#} (add_mset (ps_topic p) L) s" and a: "answers s = []"
    and c: "c \<in> set (items (clients s))" "client_at s c = Some cl" and props: "copied p props"
    and b: "0 \<le> ps_payloadlen p" "read_buf (mem_of s) (ps_payload p) (nat (ps_payloadlen p)) = Some bs"
    and t: "read_cstr (mem_of s) (ps_topic p) = Some tp" and q1: "h_qos (ps_header p) = 1"
    and k: "0 \<le> cl_socket cl" "cl_socket cl < FD_SETSIZE" "0 \<le> ps_msgId p"
    and True: "todo (nw s) (cl_socket cl) = []"
  shows "\<exists>rc s' cl'. publish_done alloc p props tp bs c cl L s rc s' cl'"
proof -
  let ?k = "cl_socket cl"
  obtain s1 q where s1: "store_ok {#} L s1" "answers s1 = []"
    "client_at s1 = (client_at s)(c \<mapsto> cl\<lparr>cl_messageQueue := a_append (entry_of p q props) (cl_messageQueue cl)\<rparr>)"
    "items (clients s1) = items (clients s)" "pubs s1 = pubs s" and h1: "heap_ok (mem_of s1)"
    and n1: "todo (nw s1) = todo (nw s)" "outgoing (nw s1) = outgoing (nw s)" "refused (nw s1) = refused (nw s)"
    and d1: "delivered p props tp bs cl s1 (cl\<lparr>cl_messageQueue := a_append (entry_of p q props) (cl_messageQueue cl)\<rparr>)"
    and pre: "MQTTProtocol_handlePublishes alloc p ?k s =
       (if todo (nw s) ?k \<noteq> [] then MQTTProtocol_queueAck c PUBACK (ps_msgId p) s1
        else on_net (MQTTPacket_send_puback (net_put alloc [] ?k) (ps_msgId p)) s1)"
    by (rule handlePublishes_qos1 [OF al ok a c props b t q1 k])
  let ?cl = "cl\<lparr>cl_messageQueue := a_append (entry_of p q props) (cl_messageQueue cl)\<rparr>"
  obtain rc n where n: "net_put alloc [] ?k [0x40, 2] \<lparr>pb_buffers = [be16 (ps_msgId p)], pb_frees = replicate (length [be16 (ps_msgId p)]) True\<rparr> (nw s1) = Some (rc, n)"
    "handed_over (nw s1) ?k ([0x40, 2] @ concat [be16 (ps_msgId p)]) rc n" "store_ok {#} L (s1\<lparr>nw := n\<rparr>)"
    by (rule store_send [OF al s1(1) k(1,2), of "[0x40, 2]" "[be16 (ps_msgId p)]"]) simp_all
  let ?s' = "s1\<lparr>answers := [], nw := n\<rparr>"
  have eq: "?s' = s1\<lparr>nw := n\<rparr>" using s1(2) by (cases s1) simp
  have run: "MQTTProtocol_handlePublishes alloc p ?k s = Some (rc, ?s')"
    using pre True n(1) s1(2) by (simp add: on_net_def puback_bytes [OF k(3)])
  have "extends (mem_of s1) (mem_of ?s')" using n(2) by (simp add: handed_over_def)
  then have d: "delivered p props tp bs cl ?s' ?cl" by (rule delivered_extends [OF d1 h1]) simp
  have st: "rc \<noteq> SOCKET_ERROR \<Longrightarrow> outgoing n ?k @ todo n ?k = outgoing (nw s) ?k @ [0x40, 2] @ be16 (ps_msgId p)"
    "rc = SOCKET_ERROR \<Longrightarrow> outgoing n = outgoing (nw s) \<and> todo n = todo (nw s)"
    using n(2) n1 by (simp_all add: handed_over_def)
  have rc: "if rc = SOCKET_ERROR then refused (nw s) ?k
      else rc = (if todo n ?k \<noteq> [] then TCPSOCKET_INTERRUPTED else TCPSOCKET_COMPLETE)"
    using n(2) n1 True by (auto simp: handed_over_def)
  show ?thesis unfolding publish_done_def
    by (rule exI [of _ rc], rule exI [of _ ?s'], rule exI [of _ ?cl])
      (use run n(3) eq d s1(3,5) st rc True q1 in simp)
qed

lemma qos1_queued:
  assumes al: "buf_allocator alloc" and ok: "store_ok {#} (add_mset (ps_topic p) L) s" and a: "answers s = []"
    and c: "c \<in> set (items (clients s))" "client_at s c = Some cl" and props: "copied p props"
    and b: "0 \<le> ps_payloadlen p" "read_buf (mem_of s) (ps_payload p) (nat (ps_payloadlen p)) = Some bs"
    and t: "read_cstr (mem_of s) (ps_topic p) = Some tp" and q1: "h_qos (ps_header p) = 1"
    and k: "0 \<le> cl_socket cl" "cl_socket cl < FD_SETSIZE" "0 \<le> ps_msgId p"
    and busy: "todo (nw s) (cl_socket cl) \<noteq> []"
  shows "\<exists>rc s' cl'. publish_done alloc p props tp bs c cl L s rc s' cl'"
proof -
  let ?k = "cl_socket cl"
  obtain s1 q where s1: "store_ok {#} L s1" "answers s1 = []"
    "client_at s1 = (client_at s)(c \<mapsto> cl\<lparr>cl_messageQueue := a_append (entry_of p q props) (cl_messageQueue cl)\<rparr>)"
    "items (clients s1) = items (clients s)" "pubs s1 = pubs s" and h1: "heap_ok (mem_of s1)"
    and n1: "todo (nw s1) = todo (nw s)" "outgoing (nw s1) = outgoing (nw s)" "refused (nw s1) = refused (nw s)"
    and d1: "delivered p props tp bs cl s1 (cl\<lparr>cl_messageQueue := a_append (entry_of p q props) (cl_messageQueue cl)\<rparr>)"
    and pre: "MQTTProtocol_handlePublishes alloc p ?k s =
       (if todo (nw s) ?k \<noteq> [] then MQTTProtocol_queueAck c PUBACK (ps_msgId p) s1
        else on_net (MQTTPacket_send_puback (net_put alloc [] ?k) (ps_msgId p)) s1)"
    by (rule handlePublishes_qos1 [OF al ok a c props b t q1 k])
  let ?cl = "cl\<lparr>cl_messageQueue := a_append (entry_of p q props) (cl_messageQueue cl)\<rparr>"
  let ?f = "cl_outboundQueue_update (\<lambda>_. a_append \<lparr>ar_messageId = ps_msgId p, ar_ackType = PUBACK\<rparr> (cl_outboundQueue cl))"
  let ?s' = "upd_client c ?f s1"
  have c1: "c \<in> set (items (clients s1))" "client_at s1 c = Some ?cl" using s1(3,4) c by simp_all
  have run: "MQTTProtocol_handlePublishes alloc p ?k s = Some (0, ?s')"
    using pre busy s1(2) c1 by (simp add: MQTTProtocol_queueAck_def)
  have t1: "tables_ok {#} s1" using s1(1) by (simp add: store_ok_def)
  have "client_ok ?cl" using tablesD(1) [OF t1 c1(1)] c1(2) by simp
  then have "tables_ok {#} ?s'"
    by (intro tables_upd_client [OF t1 c1]) (simp_all add: client_ok_def client_refs_def)
  moreover have "holds ?s' = holds s1"
    using upd_client_sums(1) [OF c1, of ?f] by (simp add: client_holds_def)
  ultimately have ok': "store_ok {#} L ?s'" using s1(1) by (simp add: store_ok_def)
  have d: "delivered p props tp bs cl ?s' (?f ?cl)" by (rule delivered_extends [OF d1 h1]) simp_all
  show ?thesis unfolding publish_done_def
    by (rule exI [of _ 0], rule exI [of _ ?s'], rule exI [of _ "?f ?cl"])
      (use run ok' d s1(3,5) n1 busy q1 in \<open>simp add: fun_upd_twist codes\<close>)
qed

lemma handlePublishes_done:
  assumes al: "buf_allocator alloc" and ok: "store_ok {#} (add_mset (ps_topic p) L) s" and a: "answers s = []"
    and c: "c \<in> set (items (clients s))" "client_at s c = Some cl" and props: "copied p props"
    and b: "0 \<le> ps_payloadlen p" "read_buf (mem_of s) (ps_payload p) (nat (ps_payloadlen p)) = Some bs"
    and t: "read_cstr (mem_of s) (ps_topic p) = Some tp" and qos: "h_qos (ps_header p) \<in> {0, 1}"
    and k: "0 \<le> cl_socket cl" "cl_socket cl < FD_SETSIZE" "0 \<le> ps_msgId p"
  shows "\<exists>rc s' cl'. publish_done alloc p props tp bs c cl L s rc s' cl'"
proof (cases "h_qos (ps_header p) = 0")
  case True
  obtain s' cl' where "MQTTProtocol_handlePublishes alloc p (cl_socket cl) s = Some (TCPSOCKET_COMPLETE, s')" "store_ok {#} L s'"
    "client_at s' = (client_at s)(c \<mapsto> cl')" "cl' = cl\<lparr>cl_messageQueue := cl_messageQueue cl'\<rparr>" "delivered p props tp bs cl s' cl'"
    "outgoing (nw s') = outgoing (nw s)" "todo (nw s') = todo (nw s)" "pubs s' = pubs s"
    by (rule handlePublishes_qos0 [OF al ok a c props b t True])
  moreover from this(4) have "cl_outboundQueue cl' = cl_outboundQueue cl" by (metis Clients.select_convs(13) Clients.surjective Clients.update_convs(12))
  ultimately show ?thesis unfolding publish_done_def using True by (intro exI [of _ TCPSOCKET_COMPLETE] exI [of _ s'] exI [of _ cl']) (cases cl; cases cl'; simp add: codes)
next
  case False
  then have "h_qos (ps_header p) = 1" using qos by simp
  then show ?thesis
    using qos1_acknowledged [OF al ok a c props b t _ k] qos1_queued [OF al ok a c props b t _ k] by blast
qed

text \<open>C29: An incoming PUBLISH of quality of service 0 or 1 is delivered exactly once: the queue of the client that
  uses the socket gains one entry at its end, with the topic, a copy of the payload and the flags of the packet.
  For quality 0 nothing is sent.  For quality 1 the acknowledgement with the message id joins the stream of the
  socket, or, when a write of this socket is unfinished, is put into the queue of acknowledgements.  An error is
  returned only when the acknowledgement was tried and the kernel refuses a write on this socket; otherwise the
  result is that of the write, complete or interrupted, and complete when nothing was written.  The invariant
  is kept: the topic's block, which the packet held, and the copy's now belong to the queue.\<close>

theorem handlePublishes_delivers:
  assumes al: "buf_allocator alloc" and ok: "store_ok {#} (add_mset (ps_topic p) L) s" and a: "answers s = []"
    and c: "c \<in> set (items (clients s))" "client_at s c = Some cl" and props: "copied p props"
    and b: "0 \<le> ps_payloadlen p" "read_buf (mem_of s) (ps_payload p) (nat (ps_payloadlen p)) = Some bs"
    and t: "read_cstr (mem_of s) (ps_topic p) = Some tp" and qos: "h_qos (ps_header p) \<in> {0, 1}"
    and k: "0 \<le> cl_socket cl" "cl_socket cl < FD_SETSIZE" "0 \<le> ps_msgId p"
  shows "\<exists>rc s' cl'. MQTTProtocol_handlePublishes alloc p (cl_socket cl) s = Some (rc, s') \<and> store_ok {#} L s' \<and>
    client_at s' = (client_at s)(c \<mapsto> cl') \<and> delivered p props tp bs cl s' cl' \<and> pubs s' = pubs s \<and>
    cl' = cl\<lparr>cl_messageQueue := cl_messageQueue cl', cl_outboundQueue := cl_outboundQueue cl'\<rparr> \<and>
    (if h_qos (ps_header p) = 1 \<and> todo (nw s) (cl_socket cl) \<noteq> []
     then cl_outboundQueue cl' = a_append \<lparr>ar_messageId = ps_msgId p, ar_ackType = PUBACK\<rparr> (cl_outboundQueue cl)
     else cl_outboundQueue cl' = cl_outboundQueue cl) \<and>
    (if h_qos (ps_header p) = 1 \<and> todo (nw s) (cl_socket cl) = [] \<and> rc \<noteq> SOCKET_ERROR
     then outgoing (nw s') (cl_socket cl) @ todo (nw s') (cl_socket cl)
        = outgoing (nw s) (cl_socket cl) @ [0x40, 2] @ be16 (ps_msgId p)
     else outgoing (nw s') = outgoing (nw s) \<and> todo (nw s') = todo (nw s)) \<and>
    (if rc = SOCKET_ERROR
     then h_qos (ps_header p) = 1 \<and> todo (nw s) (cl_socket cl) = [] \<and> refused (nw s) (cl_socket cl)
     else rc = (if h_qos (ps_header p) = 1 \<and> todo (nw s) (cl_socket cl) = [] \<and> todo (nw s') (cl_socket cl) \<noteq> []
                then TCPSOCKET_INTERRUPTED else TCPSOCKET_COMPLETE))"
  using handlePublishes_done [OF assms] unfolding publish_done_def .

section \<open>A store with one message\<close>

definition store_mem :: bufmem where
  "store_mem = \<lparr>cells = [100 \<mapsto> 97, 101 \<mapsto> 0, 200 \<mapsto> 7, 400 \<mapsto> 98, 401 \<mapsto> 0, 500 \<mapsto> 1, 501 \<mapsto> 2],
     extent = [100 \<mapsto> 2, 200 \<mapsto> 1, 300 \<mapsto> 40, 400 \<mapsto> 2, 500 \<mapsto> 2]\<rparr>"

definition demo_client :: Clients where
  "demo_client = \<lparr>cl_clientID = Some [97], cl_username = None, cl_password = None, cl_passwordlen = 0, cl_good = True,
     cl_connect_state = 0, cl_socket = 7, cl_msgID = 9, cl_keepAliveInterval = 60, cl_inboundMsgs = empty_alist,
     cl_outboundMsgs = \<lparr>items = [\<lparr>ms_qos = 1, ms_retain = 0, ms_msgid = 9, ms_version = 4, ms_properties = None,
        ms_publish = 300, ms_nextMessageType = None\<rparr>], cursor = None\<rparr>,
     cl_messageQueue = empty_alist, cl_outboundQueue = empty_alist, cl_MQTTVersion = 4\<rparr>"

definition demo_store :: proto where
  "demo_store = \<lparr>nw = (demo_net [])\<lparr>bufs := store_mem\<rparr>, answers = [],
     pubs = [300 \<mapsto> \<lparr>pu_topic = 100, pu_topiclen = 1, pu_payload = 200, pu_payloadlen = 1, pu_refcount = 1\<rparr>],
     publications = \<lparr>items = [300], cursor = None\<rparr>, pending_writes = empty_alist,
     client_at = [50 \<mapsto> demo_client], clients = \<lparr>items = [50], cursor = None\<rparr>\<rparr>"

definition demo_publish_struct :: "Header \<Rightarrow> Publish_struct" where
  "demo_publish_struct h = \<lparr>ps_header = h, ps_topic = 400, ps_topiclen = 1, ps_msgId = 3, ps_payload = 500, ps_payloadlen = 2,
     ps_version = 4, ps_properties = MQTTProperties_initializer\<rparr>"

lemma no_writes: "write_lookup (sbuf (nw demo_store)) l = None"
  by (simp add: demo_store_def demo_net_def write_lookup_def key_lookup_def idle_sockbuf_def empty_alist_def)

lemma demo_unread: "unread (nw demo_store) x"
  by (simp add: unread_def no_writes)

lemma demo_holds: "holds demo_store = {#300, 100, 200#}" "refs demo_store = {#300#}"
  by (simp_all add: holds_def refs_def demo_store_def demo_client_def pub_blocks_def client_holds_def client_refs_def empty_alist_def)

lemma heap_ok_store_mem: "heap_ok store_mem"
proof -
  have ext: "extent store_mem p = Some n \<longleftrightarrow> (p, n) \<in> {(100, 2), (200, 1), (300, 40), (400, 2), (500, 2)}" for p n
    by (auto simp: store_mem_def)
  have "dom (extent store_mem) = {100, 200, 300, 400, 500}" by (auto simp: store_mem_def)
  then have "finite (dom (extent store_mem))" by simp
  moreover have "a \<in> live store_mem" if "cells store_mem a \<noteq> None" for a
  proof -
    have "a \<in> {100, 101, 200, 400, 401, 500, 501}" using that by (simp add: store_mem_def split: if_splits)
    then consider "a \<in> {100, 101}" | "a = 200" | "a \<in> {400, 401}" | "a \<in> {500, 501}" by blast
    then show ?thesis
    proof cases
      case 1 show ?thesis by (rule liveI [of _ 100 2]) (use 1 in \<open>auto simp: ext\<close>)
    next
      case 2 show ?thesis by (rule liveI [of _ 200 1]) (use 2 in \<open>auto simp: ext\<close>)
    next
      case 3 show ?thesis by (rule liveI [of _ 400 2]) (use 3 in \<open>auto simp: ext\<close>)
    next
      case 4 show ?thesis by (rule liveI [of _ 500 2]) (use 4 in \<open>auto simp: ext\<close>)
    qed
  qed
  moreover have "span p n \<inter> span q k = {}" if "extent store_mem p = Some n" "extent store_mem q = Some k" "p \<noteq> q" for p n q k
  proof -
    have "a div 100 = p div 100" if "extent store_mem p = Some n" "a \<in> span p n" for a p n
    proof -
      have "p \<in> {100, 200, 300, 400, 500}" "n \<le> 40" using that(1) unfolding ext by auto
      moreover have "p \<le> a" "a < p + max n 1" using that(2) by (simp_all add: span_def)
      ultimately have "p \<in> {100, 200, 300, 400, 500}" "p \<le> a" "a < p + 100" by auto
      then show ?thesis by auto
    qed
    then have "a \<in> span p n \<Longrightarrow> a \<in> span q k \<Longrightarrow> p div 100 = q div 100" for a using that(1,2) by metis
    moreover have "p div 100 \<noteq> q div 100" using that unfolding ext by auto
    ultimately show ?thesis by blast
  qed
  moreover have "extent store_mem NULL = None" by (simp add: store_mem_def)
  ultimately show ?thesis unfolding heap_ok_def by blast
qed

lemma demo_store_ok: "store_ok {#} {#400#} demo_store"
proof -
  have po: "pending_ok (demo_net [])" using demo_send_ok(1) by (simp add: send_ok_def)
  have none: "write_lookup (sbuf (demo_net [])) l = None" for l using no_writes [of l] by (simp add: demo_store_def)
  have "memory_kept (demo_net []) store_mem" by (simp add: memory_kept_def none)
  then have "send_ok (nw demo_store)"
    using memory_kept_ok(1) [OF po] heap_ok_store_mem by (simp add: send_ok_def demo_store_def)
  then have "held (nw demo_store) {#300, 100, 200, 400#}"
    unfolding held_def no_writes by (auto simp: demo_store_def store_mem_def)
  moreover have "tables_ok {#} demo_store"
    unfolding tables_ok_def demo_holds
    by (auto simp: demo_store_def demo_client_def client_ok_def table_ok_def alist_ok_def empty_alist_def)
  ultimately show ?thesis by (simp add: store_ok_def demo_holds add_mset_commute)
qed

lemma handlePubacks_correct_witness:
  "\<exists>s'. MQTTProtocol_handlePubacks \<lparr>ack_header = 0x40, ack_msgId = Some 9, ack_version = 4\<rparr> 7 demo_store = Some (0, s') \<and>
     store_ok {#} {#400#} s' \<and> refs s' = {#} \<and> (\<forall>p. pubs s' p = None)"
proof -
  have c: "(50 :: ptr) \<in> set (items (clients demo_store))" "client_at demo_store 50 = Some demo_client"
    by (simp_all add: demo_store_def)
  have id: "ack_msgId \<lparr>ack_header = 0x40, ack_msgId = Some 9, ack_version = 4\<rparr> = Some 9" by simp
  from handlePubacks_correct [OF demo_store_ok c id] show ?thesis
    by (auto simp: demo_unread demo_holds demo_client_def acknowledged_def codes)
qed

lemma handlePublishes_delivers_witness:
  "\<exists>rc s' cl'. MQTTProtocol_handlePublishes next_room (demo_publish_struct 0x32) 7 demo_store = Some (rc, s') \<and>
     delivered (demo_publish_struct 0x32) MQTTProperties_initializer [98] [1, 2] demo_client s' cl' \<and>
     rc \<noteq> SOCKET_ERROR \<and> outgoing (nw s') 7 @ todo (nw s') 7 = [0x40, 2, 0, 3]"
proof -
  let ?p = "demo_publish_struct 0x32"
  have c: "(50 :: ptr) \<in> set (items (clients demo_store))" "client_at demo_store 50 = Some demo_client"
    by (simp_all add: demo_store_def)
  have ok: "store_ok {#} (add_mset (ps_topic ?p) {#}) demo_store" using demo_store_ok by (simp add: demo_publish_struct_def)
  have prem: "answers demo_store = []" "copied ?p MQTTProperties_initializer" "0 \<le> ps_payloadlen ?p"
    "read_buf (mem_of demo_store) (ps_payload ?p) (nat (ps_payloadlen ?p)) = Some [1, 2]"
    "read_cstr (mem_of demo_store) (ps_topic ?p) = Some [98]" "h_qos (ps_header ?p) \<in> {0, 1}"
    by (simp_all add: demo_store_def demo_publish_struct_def copied_def store_mem_def read_buf_def read_cstr_def upt_conv_Cons h_qos_def)
  have sock: "0 \<le> cl_socket demo_client" "cl_socket demo_client < FD_SETSIZE" "0 \<le> ps_msgId ?p" and seven: "cl_socket demo_client = 7"
    by (simp_all add: demo_client_def demo_publish_struct_def FD_SETSIZE_def)
  have "\<exists>rc s' cl'. publish_done next_room ?p MQTTProperties_initializer [98] [1, 2] 50 demo_client {#} demo_store rc s' cl'"
    unfolding publish_done_def by (rule handlePublishes_delivers [OF next_room_allocator ok prem(1) c prem(2-6) sock])
  then obtain rc s' cl' where d: "publish_done next_room ?p MQTTProperties_initializer [98] [1, 2] 50 demo_client {#} demo_store rc s' cl'"
    by (elim exE)
  have idle: "\<not> refused (nw demo_store) 7" "outgoing (nw demo_store) 7 = []"
    by (simp_all add: refused_def demo_store_def demo_net_def)
  have free: "todo (nw demo_store) 7 = []" by (simp add: todo_def no_writes)
  have p: "h_qos (ps_header ?p) = 1" "be16 (ps_msgId ?p) = [0, 3]"
    by (simp_all add: demo_publish_struct_def h_qos_def be16_def)
  have rc: "rc \<noteq> SOCKET_ERROR" using d idle(1) unfolding publish_done_def seven by argo
  have sent: "outgoing (nw s') 7 @ todo (nw s') 7 = [0x40, 2, 0, 3]"
    using d rc idle free p unfolding publish_done_def seven by simp
  have "MQTTProtocol_handlePublishes next_room ?p 7 demo_store = Some (rc, s')"
    "delivered ?p MQTTProperties_initializer [98] [1, 2] demo_client s' cl'"
    using d unfolding publish_done_def seven by argo+
  then show ?thesis using rc sent by (intro exI [of _ rc] exI [of _ s'] exI [of _ cl'] conjI)
qed

end
