(* ===== verification/Publishing.thy ===== *)
theory Publishing
  imports MessageInvariant
begin

text \<open>
  Publishing from the client: a message of quality of service 1 or 2 is stored with the blocks of its topic
  and payload, its PUBLISH joins the stream of the connection, and the invariant of the message store is kept.
\<close>

section \<open>Storing a publication\<close>

lemma storePublication_ok:
  assumes al: "buf_allocator alloc" and ok: "store_ok R (L + {#ps_topic p, ps_payload p#}) s" and a: "answers s = []"
    and t: "read_cstr (mem_of s) (ps_topic p) = Some tp"
  obtains q s' where "MQTTProtocol_storePublication alloc p s = Some (q, p\<lparr>ps_topic := NULL, ps_payload := NULL\<rparr>, s')" "q \<noteq> NULL"
    "store_ok (add_mset q R) L s'" "answers s' = []" "client_at s' = client_at s" "clients s' = clients s" "refs s' = refs s"
    "pubs s' = (pubs s)(q \<mapsto> \<lparr>pu_topic = ps_topic p, pu_topiclen = ps_topiclen p, pu_payload = ps_payload p,
       pu_payloadlen = ps_payloadlen p, pu_refcount = 1\<rparr>)"
    "extends (mem_of s) (mem_of s')" "nw s' = (nw s)\<lparr>bufs := mem_of s'\<rparr>" "pubs s q = None"
    "holds s' = holds s + {#q, ps_topic p, ps_payload p#}"
proof -
  have tb: "tables_ok R s" and h: "held (nw s) (holds s + (L + {#ps_topic p, ps_payload p#}))" using ok by (simp_all add: store_ok_def)
  obtain q h' where q: "malloc_block alloc 40 s = (q, set_mem h' s)" "q \<noteq> NULL" "heap_ok h'" "extends (mem_of s) h'"
    "extent (mem_of s) q = None" "extent h' = (extent (mem_of s))(q \<mapsto> 40)"
    "held ((nw s)\<lparr>bufs := h'\<rparr>) (add_mset q (holds s + (L + {#ps_topic p, ps_payload p#})))"
    by (rule malloc_block_held [OF al a h])
  let ?pub = "\<lparr>pu_topic = ps_topic p, pu_topiclen = ps_topiclen p, pu_payload = ps_payload p,
       pu_payloadlen = ps_payloadlen p, pu_refcount = 1\<rparr>"
  let ?l = "a_append q (publications s)"
  let ?s = "(set_mem h' s)\<lparr>publications := ?l, pubs := (pubs s)(q \<mapsto> ?pub)\<rparr>"
  have new: "pubs s q = None"
  proof (rule ccontr)
    assume "pubs s q \<noteq> None"
    then obtain pb where pb: "pubs s q = Some pb" by blast
    have "q \<in># holds s" by (subst holds_pub(2) [OF finite_pubs [OF tb] pb, symmetric]) (simp add: pub_blocks_def)
    then show False using heldD(4) [OF h, of q] q(5) by simp
  qed
  have run: "MQTTProtocol_storePublication alloc p s = Some (q, p\<lparr>ps_topic := NULL, ps_payload := NULL\<rparr>, ?s)"
    using q a extends_cstr [OF q(4) t] by (simp add: MQTTProtocol_storePublication_def Let_def)
  have hs: "holds ?s = holds s + {#q, ps_topic p, ps_payload p#}"
    using holds_pub(1) [OF finite_pubs [OF tb] new, of ?pub] by (simp add: holds_def set_mem_def pub_blocks_def)
  have rs: "refs ?s = refs s" by (simp add: refs_def)
  have no: "q \<notin># refs s + R" using tablesD(2) [OF tb, of q] new by simp
  have "tables_ok (add_mset q R) (s\<lparr>publications := ?l, pubs := (pubs s)(q \<mapsto> ?pub)\<rparr>)"
  proof (rule tables_pubs [OF tb], goal_cases list dom refs count)
    case list
    have "q \<notin> set (items (publications s))" using tb new by (auto simp: tables_ok_def)
    moreover have "table_ok (\<lambda>x. x) (publications s)" using tb by (simp add: tables_ok_def)
    ultimately show ?case by (intro table_ok_append) (auto simp: key_lookup_def find_None_iff)
  next
    case dom
    show ?case using tb by (auto simp: tables_ok_def)
  next
    case (refs x)
    show ?case using tablesD(2) [OF tb, of x] by auto
  next
    case (count x pb)
    then show ?case using tablesD(3) [OF tb, of x pb] no by (auto simp: not_in_iff split: if_splits)
  qed
  moreover have "?s = (s\<lparr>publications := ?l, pubs := (pubs s)(q \<mapsto> ?pub)\<rparr>)\<lparr>nw := (nw s)\<lparr>bufs := h'\<rparr>\<rparr>"
    by (cases s) (simp add: set_mem_def)
  ultimately have "tables_ok (add_mset q R) ?s" by (simp only: tables_cong)
  then have "store_ok (add_mset q R) L ?s" using q(7) hs by (simp add: store_ok_def ac_simps)
  then show thesis using run q(2,4) a new hs rs by (intro that [of q ?s]) simp_all
qed

section \<open>The PUBLISH on the wire\<close>

lemma strlen_no_null: "0 \<notin> set t \<Longrightarrow> strlen t = length t"
proof -
  assume "0 \<notin> set t"
  then have "takeWhile (\<lambda>b. b \<noteq> 0) t = t" by (subst takeWhile_eq_all_conv) auto
  then show "strlen t = length t" unfolding strlen_def by (rule arg_cong)
qed

lemma read_cstr_part:
  assumes "heap_ok h" "read_cstr h p = Some t"
  shows "0 \<notin> set t" "read_buf h p (length t) = Some t" "{p..<p + length t} \<subseteq> block h p"
proof -
  obtain n where n: "extent h p = Some n" using assms(2) by (auto simp: read_cstr_def split: Option.bind_splits)
  let ?cs = "takeWhile (\<lambda>c. c \<noteq> Some 0) (map (cells h) [p..<p + n])"
  have t: "those ?cs = Some t" "length ?cs \<noteq> n"
    using assms(2) n by (auto simp: read_cstr_def Let_def split: if_splits)
  then have cs: "?cs = map Some t" by (simp add: those_Some)
  have "Some 0 \<notin> set ?cs" using set_takeWhileD [of "Some 0" "\<lambda>c. c \<noteq> Some 0"] by blast
  then show "0 \<notin> set t" unfolding cs by auto
  have le: "length ?cs \<le> n" using length_takeWhile_le [of "\<lambda>c. c \<noteq> Some 0" "map (cells h) [p..<p + n]"] by simp
  have "take (length ?cs) (map (cells h) [p..<p + n]) = ?cs" by (rule takeWhile_eq_take [symmetric])
  moreover have "length ?cs = length t" unfolding cs by simp
  ultimately have "map (cells h) [p..<p + length t] = map Some t" using cs le by (simp add: take_map take_upt)
  then show "read_buf h p (length t) = Some t" by (simp add: read_buf_def)
  have "length t \<le> n" using le cs by simp
  then show "{p..<p + length t} \<subseteq> block h p" using n by (auto simp: block_def)
qed

text \<open>Sending a PUBLISH whose topic and payload are held by the message layer.\<close>

definition wire_packet :: "Publish_struct \<Rightarrow> byte list \<Rightarrow> byte list \<Rightarrow> Publish" where
  "wire_packet p t b = \<lparr>pub_header = ps_header p, pub_topic = t, pub_topiclen = ps_topiclen p, pub_msgId = ps_msgId p,
     pub_payload = b, pub_payloadlen = ps_payloadlen p, pub_version = ps_version p, pub_properties = ps_properties p\<rparr>"

lemma send_publish_held:
  assumes al: "buf_allocator alloc" and ok: "store_ok R L s" and a: "answers s = []" and k: "0 \<le> k" "k < FD_SETSIZE"
    and t: "ps_topic p \<in># holds s" "read_cstr (mem_of s) (ps_topic p) = Some t" "length t < 65536"
    and b: "ps_payload p \<in># holds s" "0 \<le> ps_payloadlen p" "read_buf (mem_of s) (ps_payload p) (nat (ps_payloadlen p)) = Some bs"
      "{ps_payload p..<ps_payload p + nat (ps_payloadlen p)} \<subseteq> block (mem_of s) (ps_payload p)"
    and q: "0 < qos" "ps_version p < 5" "0 \<le> ps_msgId p"
  obtains rc n where "on_net (MQTTPacket_send_publish (net_put alloc [ps_topic p, ps_payload p] k) (wire_packet p t bs) dup qos retained) s
      = Some (rc, s\<lparr>nw := n\<rparr>)" "publish_value (mem_of s) p = Some (wire_packet p t bs)"
    "handed_over (nw s) k (packet_bytes (publish_header dup qos retained) (publish_body (wire_packet p t bs) qos)) rc n"
    "store_ok R L (s\<lparr>nw := n\<rparr>)"
proof -
  note outcome = that
  let ?w = "wire_packet p t bs"
  have h: "held (nw s) (holds s + L)" using ok by (simp add: store_ok_def)
  note tp = read_cstr_part [OF heldD(2) [OF h] t(2)]
  have lb: "length bs = nat (ps_payloadlen p)" using read_buf_length [OF b(3)] .
  have pok: "publish_ok ?w qos"
    using q t(3) b(2) lb strlen_no_null [OF tp(1)] by (simp add: publish_ok_def wire_packet_def)
  let ?pb = "\<lparr>pb_buffers = [be16 (int (strlen (pub_topic ?w))), take (strlen (pub_topic ?w)) (pub_topic ?w), publish_extra ?w qos,
      take (nat (pub_payloadlen ?w)) (pub_payload ?w)], pb_frees = [True, False, True, False]\<rparr>"
  let ?buf0 = "publish_header dup qos retained # vbi (length (publish_body ?w qos))"
  have pc: "pieces (zip (pb_buffers ?pb) (pb_frees ?pb)) = [t, bs]"
    using strlen_no_null [OF tp(1)] lb by (simp add: wire_packet_def)
  have ap: "apart (nw s) (ranges [ps_topic p, ps_payload p] [t, bs])"
    unfolding apart_def
  proof (intro allI impI)
    fix l qw
    assume w: "write_lookup (sbuf (nw s)) l = Some qw"
    have "block (mem_of s) x \<inter> block (mem_of s) y = {}" if "x \<in> set (owned (pw_iovecs qw) (pw_frees qw))" "y \<in># holds s" for x y
      using blocks_disjoint [OF heldD(2) [OF h], of x y] heldD(6) [OF h w] that by auto
    then show "(\<Union>x\<in>set (owned (pw_iovecs qw) (pw_frees qw)). block (mem_of s) x) \<inter> ranges [ps_topic p, ps_payload p] [t, bs] = {}"
      using tp(3) b(4) t(1) b(1) lb by (auto simp: disjoint_iff)
  qed
  have D: "packet_bytes (publish_header dup qos retained) (publish_body ?w qos) = ?buf0 @ concat (pb_buffers ?pb)"
    by (simp add: packet_bytes_def publish_body_def utf_field_def)
  show thesis
  proof (rule held_net_put [OF al h k, of ?buf0 ?pb "[ps_topic p, ps_payload p]" "packet_bytes (publish_header dup qos retained) (publish_body ?w qos)"],
      goal_cases)
    case (7 rc n)
    have "s\<lparr>answers := [], nw := n\<rparr> = s\<lparr>nw := n\<rparr>" using a by (cases s) simp
    then have "on_net (MQTTPacket_send_publish (net_put alloc [ps_topic p, ps_payload p] k) ?w dup qos retained) s = Some (rc, s\<lparr>nw := n\<rparr>)"
      using 7(1) a by (simp add: on_net_def publish_bytes [OF pok])
    moreover have "publish_value (mem_of s) p = Some ?w"
      using t(2) b(2,3) by (simp add: publish_value_def wire_packet_def)
    moreover have "store_ok R L (s\<lparr>nw := n\<rparr>)" using ok 7(3) by (simp add: store_ok_def)
    ultimately show thesis using 7(2) by (intro outcome)
  next
    case 4
    show ?case using pc tp(2) b(3) lb by (simp add: readable_def)
  qed (use pc ap D in \<open>simp_all\<close>)
qed

section \<open>A message of quality of service 1 or 2\<close>

definition message_of :: "Publish_struct \<Rightarrow> int \<Rightarrow> int \<Rightarrow> ptr \<Rightarrow> Messages" where
  "message_of p qos retained q = \<lparr>ms_qos = qos, ms_retain = retained, ms_msgid = ps_msgId p, ms_version = ps_version p,
     ms_properties = None, ms_publish = q, ms_nextMessageType = (if qos = 2 then Some PUBREC else None)\<rparr>"

lemma client_at_same: "client_at s c = Some cl \<Longrightarrow> upd_client c (cl_outboundMsgs_update (\<lambda>_. l)) s
   = s\<lparr>client_at := (client_at s)(c \<mapsto> cl\<lparr>cl_outboundMsgs := l\<rparr>)\<rparr>"
  by (simp add: upd_client_def)

lemma startPublish_stores:
  assumes al: "buf_allocator alloc" and ok: "store_ok {#} (L + {#ps_topic p, ps_payload p#}) s" and a: "answers s = []"
    and c: "c \<in> set (items (clients s))" "client_at s c = Some cl" and k: "0 \<le> cl_socket cl" "cl_socket cl < FD_SETSIZE"
    and t: "read_cstr (mem_of s) (ps_topic p) = Some t" "length t < 65536"
    and b: "0 \<le> ps_payloadlen p" "extent (mem_of s) (ps_payload p) = Some (nat (ps_payloadlen p))"
      "read_buf (mem_of s) (ps_payload p) (nat (ps_payloadlen p)) = Some bs"
    and q: "0 < qos" "ps_version p < 5" "0 \<le> ps_msgId p" and free: "key_lookup ms_msgid (cl_outboundMsgs cl) (ps_msgId p) = None"
  obtains rc m s' where "MQTTProtocol_startPublish alloc c p qos retained None s = Some (rc, Some m, p\<lparr>ps_topic := NULL, ps_payload := NULL\<rparr>, s')"
    "store_ok {#} L s'" "m = message_of p qos retained (ms_publish m)"
    "client_at s' = (client_at s)(c \<mapsto> cl\<lparr>cl_outboundMsgs := a_append m (cl_outboundMsgs cl)\<rparr>)"
    "pubs s' = (pubs s)(ms_publish m \<mapsto> \<lparr>pu_topic = ps_topic p, pu_topiclen = ps_topiclen p, pu_payload = ps_payload p,
       pu_payloadlen = ps_payloadlen p, pu_refcount = 1\<rparr>)" "pubs s (ms_publish m) = None"
    "extends (mem_of s) (mem_of s')"
    "rc \<noteq> SOCKET_ERROR \<Longrightarrow> outgoing (nw s') (cl_socket cl) @ todo (nw s') (cl_socket cl) = outgoing (nw s) (cl_socket cl) @
       packet_bytes (publish_header 0 qos retained) (publish_body (wire_packet p t bs) qos)"
    "rc = SOCKET_ERROR \<Longrightarrow> outgoing (nw s') = outgoing (nw s) \<and> todo (nw s') = todo (nw s) \<and>
       (todo (nw s) (cl_socket cl) \<noteq> [] \<or> refused (nw s) (cl_socket cl))"
proof -
  note outcome = that
  have h: "held (nw s) (holds s + (L + {#ps_topic p, ps_payload p#}))" using ok by (simp add: store_ok_def)
  obtain x s1 where x: "MQTTProtocol_storePublication alloc p s = Some (x, p\<lparr>ps_topic := NULL, ps_payload := NULL\<rparr>, s1)" "x \<noteq> NULL"
    "store_ok (add_mset x {#}) L s1" "answers s1 = []" "client_at s1 = client_at s" "clients s1 = clients s" "refs s1 = refs s"
    and pb: "pubs s1 = (pubs s)(x \<mapsto> \<lparr>pu_topic = ps_topic p, pu_topiclen = ps_topiclen p, pu_payload = ps_payload p,
       pu_payloadlen = ps_payloadlen p, pu_refcount = 1\<rparr>)"
    and n1: "extends (mem_of s) (mem_of s1)" "nw s1 = (nw s)\<lparr>bufs := mem_of s1\<rparr>" and new: "pubs s x = None"
    and hs: "holds s1 = holds s + {#x, ps_topic p, ps_payload p#}"
    by (rule storePublication_ok [OF al ok a t(1)])
  let ?m = "message_of p qos retained x" let ?l = "a_append ?m (cl_outboundMsgs cl)"
  let ?f = "cl_outboundMsgs_update (\<lambda>_. ?l)" let ?s2 = "upd_client c ?f s1"
  have cm: "MQTTProtocol_createMessage alloc p None qos retained False s = Some (Message ?m, p\<lparr>ps_topic := NULL, ps_payload := NULL\<rparr>, s1)"
    using a x(1,2,4) q(2) by (cases s1) (simp add: MQTTProtocol_createMessage_def message_of_def)
  have t1: "tables_ok (add_mset x {#}) s1" using x(3) by (simp add: store_ok_def)
  have c1: "c \<in> set (items (clients s1))" "client_at s1 c = Some cl" using x(5,6) c by simp_all
  have cok: "client_ok cl" using tablesD(1) [OF t1 c1(1)] c1(2) by simp
  have "table_ok ms_msgid ?l"
    using cok free by (intro table_ok_append) (simp_all add: client_ok_def message_of_def)
  then have "client_ok (?f cl)" using cok by (simp add: client_ok_def)
  then have t2: "tables_ok {#} ?s2"
    by (intro tables_upd_client [OF t1 c1]) (simp_all add: client_refs_def message_of_def)
  have h2: "holds ?s2 = holds s1" using upd_client_sums(1) [OF c1, of ?f] by (simp add: client_holds_def)
  have ok2: "store_ok {#} L ?s2" using t2 h2 x(3) by (simp add: store_ok_def)
  let ?p = "p\<lparr>ps_payload := ps_payload p, ps_topic := ps_topic p, ps_properties := ps_properties p, ps_version := ps_version p\<rparr>"
  have pp: "?p = p" by (cases p) simp
  have m2: "mem_of ?s2 = mem_of s1" "answers ?s2 = []" using x(4) by simp_all
  have pw: "{ps_payload p..<ps_payload p + nat (ps_payloadlen p)} \<subseteq> block (mem_of ?s2) (ps_payload p)"
    using extends_extent [OF n1(1) b(2)] m2 by (simp add: block_def)
  obtain rc n where snd: "on_net (MQTTPacket_send_publish (net_put alloc [ps_topic p, ps_payload p] (cl_socket cl)) (wire_packet p t bs) 0 qos retained) ?s2
      = Some (rc, ?s2\<lparr>nw := n\<rparr>)" "publish_value (mem_of ?s2) p = Some (wire_packet p t bs)"
    "handed_over (nw ?s2) (cl_socket cl) (packet_bytes (publish_header 0 qos retained) (publish_body (wire_packet p t bs) qos)) rc n"
    "store_ok {#} L (?s2\<lparr>nw := n\<rparr>)"
    by (rule send_publish_held [OF al ok2 m2(2) k, of p t bs qos 0 retained])
      (use hs h2 m2 t b q pw extends_cstr [OF n1(1) t(1)] extends_read [OF heldD(2) [OF h] n1(1) b(3)] in simp_all)
  have run: "MQTTProtocol_startPublish alloc c p qos retained None s = Some (rc, Some ?m, p\<lparr>ps_topic := NULL, ps_payload := NULL\<rparr>, ?s2\<lparr>nw := n\<rparr>)"
    using c(2) q(1,2) cm x(4) pb snd(1,2)
    by (simp add: MQTTProtocol_startPublish_def MQTTProtocol_startPublishCommon_def message_of_def pp)
  have "heap_ok (mem_of s1)" using x(3) heldD(2) by (auto simp: store_ok_def)
  note td = send_ok_bufs(2) [OF heldD(1) [OF h] this n1(1)]
  have w: "todo (nw s1) = todo (nw s)" by (subst n1(2)) (rule td)
  have w2: "outgoing (nw s1) = outgoing (nw s)" by (subst n1(2)) simp
  have w3: "refused (nw s1) = refused (nw s)" by (rule refused_cong, subst n1(2), simp)
  have e: "extends (mem_of s) (bufs n)" using extends_trans [OF n1(1)] snd(3) by (simp add: handed_over_def)
  have mp: "ms_publish ?m = x" "?m = message_of p qos retained (ms_publish ?m)" by (simp_all add: message_of_def)
  have ca: "client_at (?s2\<lparr>nw := n\<rparr>) = (client_at s)(c \<mapsto> cl\<lparr>cl_outboundMsgs := ?l\<rparr>)"
    using x(5) c1(2) by simp
  have st: "rc \<noteq> SOCKET_ERROR \<Longrightarrow> outgoing n (cl_socket cl) @ todo n (cl_socket cl) = outgoing (nw s) (cl_socket cl) @
       packet_bytes (publish_header 0 qos retained) (publish_body (wire_packet p t bs) qos)"
    "rc = SOCKET_ERROR \<Longrightarrow> outgoing n = outgoing (nw s) \<and> todo n = todo (nw s) \<and>
       (todo (nw s) (cl_socket cl) \<noteq> [] \<or> refused (nw s) (cl_socket cl))"
    using snd(3) w w2 w3 unfolding handed_over_def upd_client_simps by simp_all
  have pb2: "pubs (?s2\<lparr>nw := n\<rparr>) = pubs s1" by simp
  show thesis
    by (rule outcome [OF run snd(4) mp(2) ca], unfold mp(1) pb2, fact pb, fact new) (use e st in simp_all)
qed

end
