(* ===== verification/Client.thy ===== *)
theory Client
  imports Publishing
begin

text \<open>
  The interface of the library, \<^verbatim>\<open>src/src/MQTTClient.c\<close>: handles and their clients, publishing and
  subscribing.  A message that is published with quality of service 1 or 2 gets a free id, is stored with
  copies of its topic and payload and goes out on the connection of the client; with quality of service 0 it goes
  out and every block is free again.
\<close>

definition MQTTCLIENT_MAX_MESSAGES_INFLIGHT :: int where [codes]: "MQTTCLIENT_MAX_MESSAGES_INFLIGHT = -4"
definition MQTTCLIENT_FAILURE :: int where [codes]: "MQTTCLIENT_FAILURE = -1"
definition MQTTCLIENT_SUCCESS :: int where [codes]: "MQTTCLIENT_SUCCESS = 0"
definition MQTTREASONCODE_SUCCESS :: int where [codes]: "MQTTREASONCODE_SUCCESS = 0"
definition MQTT_BAD_SUBSCRIBE :: int where [codes]: "MQTT_BAD_SUBSCRIBE = 0x80"

section \<open>Handles\<close>

text \<open>Of the callbacks only their presence matters here.  \<open>mc_c\<close> is the address of the client.\<close>

record MQTTClients =
  mc_serverURI :: "byte list option"
  mc_c :: ptr
  mc_ma :: bool
  mc_dc :: bool
  mc_context :: ptr
  mc_commandTimeout :: int

record library =
  pr :: proto
  handles :: "ptr alist"
  handle_at :: "ptr \<Rightarrow> MQTTClients option"
  library_initialized :: bool

section \<open>Publishing\<close>

text \<open>The end of \<open>MQTTClient_publish5\<close>: what the packet still owns is freed.\<close>

definition free_message :: "Publish_struct \<Rightarrow> proto \<Rightarrow> proto option" where
  "free_message p s = do {
     s \<leftarrow> (if ps_topic p \<noteq> NULL then free_block (ps_topic p) s else Some s);
     if ps_payload p \<noteq> NULL then free_block (ps_payload p) s else Some s
   }"

text \<open>From the allocation of the packet on.  \<open>junk\<close> is what \<open>malloc\<close> finds in the block: the fields \<open>topiclen\<close>,
  \<open>header\<close> and \<open>properties\<close> are never assigned, and when there is no memory for the payload \<open>topic\<close> is freed
  before it is assigned.  The results are the code, the message if one was stored, and the state.\<close>

definition publish_message ::
  "alloc \<Rightarrow> Publish_struct \<Rightarrow> ptr \<Rightarrow> int \<Rightarrow> ptr \<Rightarrow> int \<Rightarrow> ptr \<Rightarrow> int \<Rightarrow> int \<Rightarrow> proto \<Rightarrow> (int \<times> Messages option \<times> proto) option" where
  "publish_message alloc junk c msgid topicName payloadlen payload qos retained s =
     (let (ok, s) = malloc_ok s in
      if \<not> ok then Some (PAHO_MEMORY_ERROR, None, s)
      else
        let p = junk\<lparr>ps_payload := NULL, ps_payloadlen := payloadlen\<rparr>;
            (b, s) = (if payloadlen > 0 then malloc_block alloc (nat payloadlen) s else (NULL, s));
            p = p\<lparr>ps_payload := b\<rparr>
        in
        if payloadlen > 0 \<and> b = NULL then do {
          s \<leftarrow> free_message p s;
          Some (PAHO_MEMORY_ERROR, None, s)
        }
        else do {
          s \<leftarrow> (if payloadlen > 0 then copy_to b payload (nat payloadlen) s else Some s);
          let (ok, s) = malloc_ok s;
          (t, h) \<leftarrow> MQTTStrdup alloc ok topicName (mem_of s);
          let s = set_mem h s;
          let p = p\<lparr>ps_topic := t\<rparr>;
          if t = NULL then do {
            s \<leftarrow> free_message p s;
            Some (PAHO_MEMORY_ERROR, None, s)
          }
          else do {
            client \<leftarrow> client_at s c;
            let p = p\<lparr>ps_msgId := msgid, ps_version := cl_MQTTVersion client\<rparr>;
            (rc, msg, p, s) \<leftarrow> MQTTProtocol_startPublish alloc c p qos retained None s;
            s \<leftarrow> free_message p s;
            Some (rc, msg, s)
          }
        })"

text \<open>\<open>token\<close> is whether the caller wants the delivery token, the second result.\<close>

definition MQTTClient_publish5 ::
  "alloc \<Rightarrow> Publish_struct \<Rightarrow> ptr \<Rightarrow> ptr \<Rightarrow> int \<Rightarrow> ptr \<Rightarrow> int \<Rightarrow> int \<Rightarrow> bool \<Rightarrow> library \<Rightarrow> (int \<times> int option \<times> library) option" where
  "MQTTClient_publish5 alloc junk handle topicName payloadlen payload qos retained token s = do {
     m \<leftarrow> handle_at s handle;
     client \<leftarrow> client_at (pr s) (mc_c m);
     (msgid, client) \<leftarrow> (if qos > 0 then MQTTProtocol_assignMsgId client else Some (0, client));
     let p = upd_client (mc_c m) (\<lambda>_. client) (pr s);
     if qos > 0 \<and> msgid = 0 then Some (MQTTCLIENT_MAX_MESSAGES_INFLIGHT, None, s\<lparr>pr := p\<rparr>)
     else do {
       (rc, msg, p) \<leftarrow> publish_message alloc junk (mc_c m) msgid topicName payloadlen payload qos retained p;
       Some (rc, if token \<and> qos > 0 then map_option ms_msgid msg else None, s\<lparr>pr := p\<rparr>)
     }
   }"

definition MQTTClient_publishMessage5 ::
  "alloc \<Rightarrow> Publish_struct \<Rightarrow> ptr \<Rightarrow> ptr \<Rightarrow> MQTTClient_message \<Rightarrow> bool \<Rightarrow> library \<Rightarrow> (int \<times> int option \<times> library) option" where
  "MQTTClient_publishMessage5 alloc junk handle topicName message token s =
     MQTTClient_publish5 alloc junk handle topicName (mm_payloadlen message) (mm_payload message) (mm_qos message)
       (mm_retained message) token s"

definition MQTTClient_publishMessage ::
  "alloc \<Rightarrow> Publish_struct \<Rightarrow> ptr \<Rightarrow> ptr \<Rightarrow> MQTTClient_message \<Rightarrow> bool \<Rightarrow> library \<Rightarrow> (int \<times> int option \<times> library) option" where
  "MQTTClient_publishMessage alloc junk handle topicName message token s =
     MQTTClient_publishMessage5 alloc junk handle topicName message token s"

section \<open>Subscribing\<close>

definition MQTTProtocol_subscribe :: "alloc \<Rightarrow> ptr \<Rightarrow> byte list list \<Rightarrow> int list \<Rightarrow> int \<Rightarrow> proto \<Rightarrow> (int \<times> proto) option" where
  "MQTTProtocol_subscribe alloc c topics qoss msgID s = do {
     client \<leftarrow> client_at s c;
     on_net (MQTTPacket_send_subscribe (net_put alloc [] (cl_socket client)) topics qoss msgID 0) s
   }"

text \<open>The two lists are made for one topic; \<open>ListInitialize\<close> writes through the null pointer when there is no
  memory.  The message id is always 0 and the result of the send is thrown away.  The first result is the
  reason code of the response.\<close>

definition MQTTClient_subscribeMany5 :: "alloc \<Rightarrow> ptr \<Rightarrow> ptr \<Rightarrow> int \<Rightarrow> library \<Rightarrow> (int \<times> library) option" where
  "MQTTClient_subscribeMany5 alloc handle topic qos s = do {
     m \<leftarrow> handle_at s handle;
     let (ok, p) = malloc_ok (pr s);
     let (ok', p) = malloc_ok p;
     if \<not> ok \<or> \<not> ok' then None
     else do {
       t \<leftarrow> read_cstr (mem_of p) topic;
       let (_, topics, p) = append_item t empty_alist p;
       let (_, qoss, p) = append_item qos empty_alist p;
       (_, p) \<leftarrow> MQTTProtocol_subscribe alloc (mc_c m) (items topics) (items qoss) 0 p;
       Some (MQTTREASONCODE_SUCCESS, s\<lparr>pr := p\<rparr>)
     }
   }"

definition MQTTClient_subscribe5 :: "alloc \<Rightarrow> ptr \<Rightarrow> ptr \<Rightarrow> int \<Rightarrow> library \<Rightarrow> (int \<times> library) option" where
  "MQTTClient_subscribe5 alloc handle topic qos s = do {
     (rc, s) \<leftarrow> MQTTClient_subscribeMany5 alloc handle topic qos s;
     Some (if qos = MQTT_BAD_SUBSCRIBE then MQTT_BAD_SUBSCRIBE else rc, s)
   }"

definition MQTTClient_subscribe :: "alloc \<Rightarrow> ptr \<Rightarrow> ptr \<Rightarrow> int \<Rightarrow> library \<Rightarrow> (int \<times> library) option" where
  "MQTTClient_subscribe alloc handle topic qos s = MQTTClient_subscribe5 alloc handle topic qos s"

section \<open>Blocks for a message\<close>

lemma store_mem: "store_ok R L s \<Longrightarrow> held ((nw s)\<lparr>bufs := h\<rparr>) (add_mset p (holds s + L)) \<Longrightarrow> store_ok R (add_mset p L) (set_mem h s)"
  by (simp add: store_ok_def set_mem_def)

lemma put_mem_simps [simp]:
  "mem_of (set_mem h s) = h" "set_mem h' (set_mem h s) = set_mem h' s" "answers (set_mem h s) = answers s"
  "client_at (set_mem h s) = client_at s" "clients (set_mem h s) = clients s" "pubs (set_mem h s) = pubs s"
  "holds (set_mem h s) = holds s" "refs (set_mem h s) = refs s" "outgoing (nw (set_mem h s)) = outgoing (nw s)"
  by (simp_all add: set_mem_def)

lemma todo_mem:
  assumes "store_ok R L s" "heap_ok h" "extends (mem_of s) h"
  shows "todo (nw (set_mem h s)) = todo (nw s)"
proof -
  have "held (nw s) (holds s + L)" using assms(1) by (simp add: store_ok_def)
  from send_ok_bufs(2) [OF heldD(1) [OF this] assms(2,3)] show ?thesis by (simp add: set_mem_def)
qed

lemma store_copy:
  assumes al: "buf_allocator alloc" and ok: "store_ok R L s" and a: "answers s = []" and src: "read_buf (mem_of s) src n = Some bs"
  obtains p h1 h where "malloc_block alloc n s = (p, set_mem h1 s)" "p \<noteq> NULL" "copy_to p src n (set_mem h1 s) = Some (set_mem h s)"
    "store_ok R (add_mset p L) (set_mem h s)" "extends (mem_of s) h" "extent h p = Some n" "read_buf h p n = Some bs"
    "extent (mem_of s) p = None" "dom (extent h) = insert p (dom (extent (mem_of s)))"
proof -
  have h: "held (nw s) (holds s + L)" using ok by (simp add: store_ok_def)
  obtain p h1 where p: "malloc_block alloc n s = (p, set_mem h1 s)" "p \<noteq> NULL" "extends (mem_of s) h1"
    "extent (mem_of s) p = None" "extent h1 = (extent (mem_of s))(p \<mapsto> n)"
    by (rule malloc_block_held [OF al a h])
  obtain p' h1' h2 where q: "malloc_block alloc n s = (p', set_mem h1' s)" "copy_to p' src n (set_mem h1' s) = Some (set_mem h2 s)"
    "extends (mem_of s) h2" "held ((nw s)\<lparr>bufs := h2\<rparr>) (add_mset p' (holds s + L))" "read_buf h2 p' n = Some bs"
    "dom (extent h2) = insert p' (dom (extent (mem_of s)))"
    by (rule malloc_copy_held [OF al a h src])
  have "(p, set_mem h1 s) = (p', set_mem h1' s)" by (rule trans [OF p(1) [symmetric] q(1)])
  then have same: "p' = p" "h1' = h1" by (simp, metis prod.inject put_mem_simps(1))
  obtain x where "set_mem (fill p x h1) s = set_mem h2 s"
    using q(2) unfolding same by (auto simp: copy_to_def split: Option.bind_splits if_splits)
  then have "h2 = fill p x h1" by (metis put_mem_simps(1))
  then have "extent h2 = extent h1" by simp
  then show thesis
    using p q store_mem [OF ok q(4)] unfolding same by (intro that [of p h1 h2]) simp_all
qed

lemma store_strdup:
  assumes al: "buf_allocator alloc" and ok: "store_ok R L s" and src: "read_cstr (mem_of s) src = Some t"
  obtains p h where "MQTTStrdup alloc True src (mem_of s) = Some (p, h)" "p \<noteq> NULL" "store_ok R (add_mset p L) (set_mem h s)"
    "extends (mem_of s) h" "read_cstr h p = Some t" "extent (mem_of s) p = None" "extent h = (extent (mem_of s))(p \<mapsto> length t + 1)"
    "heap_ok h"
proof -
  have h: "held (nw s) (holds s + L)" using ok by (simp add: store_ok_def)
  obtain p h' where p: "MQTTStrdup alloc True src (mem_of s) = Some (p, h')" "p \<noteq> NULL" "extent (mem_of s) p = None"
    "extent h' = (extent (mem_of s))(p \<mapsto> length t + 1)" "extends (mem_of s) h'" "heap_ok h'" "read_cstr h' p = Some t"
    by (rule MQTTStrdup_copies [OF al heldD(2) [OF h] src])
  have "extent h' p \<noteq> None" using p(4) by simp
  note n = held_new(1) [OF h p(6,5,3,2) this]
  then show thesis using p store_mem [OF ok n] by (intro that [of p h']) simp_all
qed

section \<open>A new id\<close>

lemma store_assign:
  assumes ok: "store_ok R L s" and c: "c \<in> set (items (clients s))" "client_at s c = Some cl"
    and k: "0 \<le> cl_msgID cl" "cl_msgID cl \<le> MAX_MSG_ID" and ex: "\<exists>t\<in>valid_ids. t \<noteq> cl_msgID cl \<and> t \<notin> ids_in_use cl"
  obtains i l where "MQTTProtocol_assignMsgId cl = Some (i, cl\<lparr>cl_outboundMsgs := l, cl_msgID := i\<rparr>)" "i \<in> valid_ids" "i \<notin> ids_in_use cl"
    "items l = items (cl_outboundMsgs cl)" "store_ok R L (upd_client c (\<lambda>_. cl\<lparr>cl_outboundMsgs := l, cl_msgID := i\<rparr>) s)"
    "holds (upd_client c (\<lambda>_. cl\<lparr>cl_outboundMsgs := l, cl_msgID := i\<rparr>) s) = holds s"
    "refs (upd_client c (\<lambda>_. cl\<lparr>cl_outboundMsgs := l, cl_msgID := i\<rparr>) s) = refs s"
proof -
  have t: "tables_ok R s" using ok by (simp add: store_ok_def)
  have cok: "client_ok cl" using tablesD(1) [OF t c(1)] c(2) by simp
  then have al: "alist_ok (cl_outboundMsgs cl)" by (simp add: client_ok_def table_ok_def)
  obtain n l where n: "MQTTProtocol_assignMsgId cl = Some ((next_id ^^ Suc n) (cl_msgID cl),
      cl\<lparr>cl_outboundMsgs := l, cl_msgID := (next_id ^^ Suc n) (cl_msgID cl)\<rparr>)"
    "items l = items (cl_outboundMsgs cl)" "alist_ok l" "(next_id ^^ Suc n) (cl_msgID cl) \<in> valid_ids - ids_in_use cl - {cl_msgID cl}"
    by (rule assignMsgId_finds [OF al k ex])
  define i where "i = (next_id ^^ Suc n) (cl_msgID cl)"
  let ?f = "\<lambda>_. cl\<lparr>cl_outboundMsgs := l, cl_msgID := i\<rparr>"
  have co: "client_ok (?f cl)" using cok n(2,3) by (simp add: client_ok_def table_ok_def)
  have cr: "client_refs (?f cl) = client_refs cl" "client_holds (?f cl) = client_holds cl"
    using n(2) by (simp_all add: client_refs_def client_holds_def)
  have "tables_ok R (upd_client c ?f s)" by (rule tables_upd_client [OF t c]) (use co cr in simp_all)
  moreover have hs: "holds (upd_client c ?f s) = holds s" "refs (upd_client c ?f s) = refs s"
    using upd_client_sums [OF c, of ?f] cr by simp_all
  ultimately have "store_ok R L (upd_client c ?f s)" using ok by (simp add: store_ok_def)
  then show thesis using n hs by (intro that [of i l]) (simp_all add: i_def)
qed

section \<open>Quality of service 1 and 2\<close>

lemma wire_body:
  assumes "0 \<notin> set t" "length bs = nat (ps_payloadlen p)" "ps_version p < 5" "0 < qos"
  shows "publish_body (wire_packet p t bs) qos = utf_field t @ be16 (ps_msgId p) @ bs"
  using assms by (simp add: publish_body_def publish_extra_def wire_packet_def)

lemma publish_message_stores:
  assumes al: "buf_allocator alloc" and ok: "store_ok {#} {#} s" and a: "answers s = []"
    and c: "c \<in> set (items (clients s))" "client_at s c = Some cl" and k: "0 \<le> cl_socket cl" "cl_socket cl < FD_SETSIZE" "cl_MQTTVersion cl < 5"
    and t: "read_cstr (mem_of s) topicName = Some t" "length t < 65536"
    and b: "0 < n" "read_buf (mem_of s) payload (nat n) = Some bs"
    and q: "0 < qos" "0 \<le> msgid" and free: "key_lookup ms_msgid (cl_outboundMsgs cl) msgid = None"
  obtains rc m pub s' where "publish_message alloc junk c msgid topicName n payload qos retained s = Some (rc, Some m, s')"
    "store_ok {#} {#} s'" "ms_msgid m = msgid" "ms_qos m = qos" "ms_retain m = retained"
    "client_at s' = (client_at s)(c \<mapsto> cl\<lparr>cl_outboundMsgs := a_append m (cl_outboundMsgs cl)\<rparr>)"
    "pubs s' = (pubs s)(ms_publish m \<mapsto> pub)" "pubs s (ms_publish m) = None" "pu_refcount pub = 1" "pu_payloadlen pub = n"
    "read_cstr (mem_of s') (pu_topic pub) = Some t" "read_buf (mem_of s') (pu_payload pub) (nat n) = Some bs"
    "rc \<noteq> SOCKET_ERROR \<Longrightarrow> outgoing (nw s') (cl_socket cl) @ todo (nw s') (cl_socket cl) = outgoing (nw s) (cl_socket cl) @
       packet_bytes (publish_header 0 qos retained) (utf_field t @ be16 msgid @ bs)"
    "rc = SOCKET_ERROR \<Longrightarrow> outgoing (nw s') = outgoing (nw s) \<and> todo (nw s') = todo (nw s) \<and>
       (todo (nw s) (cl_socket cl) \<noteq> [] \<or> refused (nw s) (cl_socket cl))"
proof -
  note outcome = that
  have h: "heap_ok (mem_of s)" using ok heldD(2) by (auto simp: store_ok_def)
  obtain p h1 h2 where p: "malloc_block alloc (nat n) s = (p, set_mem h1 s)" "p \<noteq> NULL" "copy_to p payload (nat n) (set_mem h1 s) = Some (set_mem h2 s)"
    "store_ok {#} (add_mset p {#}) (set_mem h2 s)" "extends (mem_of s) h2" "extent h2 p = Some (nat n)" "read_buf h2 p (nat n) = Some bs"
    by (rule store_copy [OF al ok a b(2)])
  let ?s2 = "set_mem h2 s"
  have h2: "heap_ok h2" using p(4) heldD(2) by (fastforce simp: store_ok_def)
  obtain x h3 where x: "MQTTStrdup alloc True topicName h2 = Some (x, h3)" "x \<noteq> NULL" "store_ok {#} (add_mset x {#p#}) (set_mem h3 s)"
    "extends h2 h3" "read_cstr h3 x = Some t" "heap_ok h3"
    by (rule store_strdup [OF al p(4), of topicName t]) (use extends_cstr [OF p(5) t(1)] in simp_all)
  let ?s3 = "set_mem h3 s"
  let ?p = "junk\<lparr>ps_payloadlen := n, ps_payload := p, ps_topic := x, ps_msgId := msgid, ps_version := cl_MQTTVersion cl\<rparr>"
  have e: "extends (mem_of s) h3" using extends_trans [OF p(5) x(4)] .
  have rp: "extent h3 p = Some (nat n)" "read_buf h3 p (nat n) = Some bs"
    using extends_extent [OF x(4) p(6)] extends_read [OF h2 x(4) p(7)] .
  obtain rc m s' where st: "MQTTProtocol_startPublish alloc c ?p qos retained None ?s3 = Some (rc, Some m, ?p\<lparr>ps_topic := NULL, ps_payload := NULL\<rparr>, s')"
    "store_ok {#} {#} s'" "m = message_of ?p qos retained (ms_publish m)"
    "client_at s' = (client_at ?s3)(c \<mapsto> cl\<lparr>cl_outboundMsgs := a_append m (cl_outboundMsgs cl)\<rparr>)"
    "pubs s' = (pubs ?s3)(ms_publish m \<mapsto> \<lparr>pu_topic = ps_topic ?p, pu_topiclen = ps_topiclen ?p, pu_payload = ps_payload ?p,
       pu_payloadlen = ps_payloadlen ?p, pu_refcount = 1\<rparr>)" "pubs ?s3 (ms_publish m) = None"
    "extends (mem_of ?s3) (mem_of s')"
    "rc \<noteq> SOCKET_ERROR \<Longrightarrow> outgoing (nw s') (cl_socket cl) @ todo (nw s') (cl_socket cl) = outgoing (nw ?s3) (cl_socket cl) @
       packet_bytes (publish_header 0 qos retained) (publish_body (wire_packet ?p t bs) qos)"
    "rc = SOCKET_ERROR \<Longrightarrow> outgoing (nw s') = outgoing (nw ?s3) \<and> todo (nw s') = todo (nw ?s3) \<and>
       (todo (nw ?s3) (cl_socket cl) \<noteq> [] \<or> refused (nw ?s3) (cl_socket cl))"
    by (rule startPublish_stores [OF al, of "{#}" ?p ?s3 c cl t bs qos retained])
      (use x p(2) rp a c k t b q free in \<open>simp_all add: add_mset_commute\<close>)
  have run: "publish_message alloc junk c msgid topicName n payload qos retained s = Some (rc, Some m, s')"
    using a b(1) p(1,2,3) x(1,2) c(2) st(1) by (simp add: publish_message_def free_message_def Let_def)
  have "0 \<notin> set t" using read_cstr_part(1) [OF h t(1)] .
  moreover have "length bs = nat n" using read_buf_length [OF b(2)] .
  ultimately have body: "publish_body (wire_packet ?p t bs) qos = utf_field t @ be16 msgid @ bs"
    using wire_body [of t bs ?p qos] k(3) q(1) by simp
  have td: "todo (nw ?s3) = todo (nw s)" by (rule todo_mem [OF ok x(6) e])
  have rf: "refused (nw ?s3) = refused (nw s)" by (rule refused_cong) simp
  have m: "ms_msgid m = msgid" "ms_qos m = qos" "ms_retain m = retained" by (subst st(3), simp add: message_of_def)+
  have rd: "read_cstr (mem_of s') x = Some t" "read_buf (mem_of s') p (nat n) = Some bs"
    using extends_cstr [of h3 "mem_of s'"] extends_read [OF x(6), of "mem_of s'"] st(7) x(5) rp(2) by simp_all
  show thesis
    by (rule outcome [OF run st(2) m, of "\<lparr>pu_topic = x, pu_topiclen = ps_topiclen junk, pu_payload = p, pu_payloadlen = n, pu_refcount = 1\<rparr>"]) (use st(4-6,8,9) td rf body rd in simp_all)
qed

text \<open>What the client's tables and its connection are after a message \<open>t\<close>, \<open>bs\<close> was published with the id \<open>i\<close>.\<close>

definition in_flight :: "int \<Rightarrow> byte list \<Rightarrow> byte list \<Rightarrow> int \<Rightarrow> int \<Rightarrow> ptr \<Rightarrow> Clients \<Rightarrow> proto \<Rightarrow> proto \<Rightarrow> bool" where
  "in_flight i t bs qos retained c cl s s' \<longleftrightarrow> (\<exists>m pub cl'.
     client_at s' = (client_at s)(c \<mapsto> cl') \<and> cl_msgID cl' = i \<and> items (cl_outboundMsgs cl') = items (cl_outboundMsgs cl) @ [m] \<and>
     ms_msgid m = i \<and> ms_qos m = qos \<and> ms_retain m = retained \<and>
     pubs s (ms_publish m) = None \<and> pubs s' = (pubs s)(ms_publish m \<mapsto> pub) \<and> pu_refcount pub = 1 \<and>
     read_cstr (mem_of s') (pu_topic pub) = Some t \<and> pu_payloadlen pub = int (length bs) \<and>
     read_buf (mem_of s') (pu_payload pub) (length bs) = Some bs)"

text \<open>C30: Publishing with quality of service 1 or 2.  On a client whose tables are in order and that has an id left,
  \<open>MQTTClient_publish5\<close> with a topic and a payload in memory takes a free id, which it gives out as the delivery
  token, and stores a message of that id with copies of topic and payload, referred to once.  Unless the code it
  returns is an error, exactly the PUBLISH packet with that id has joined the stream of the client's connection;
  if it is, nothing was sent, and a write on that connection was unfinished or is refused by the kernel.  Either way the invariant of the message store holds again: no block is lost or
  belongs to two owners.\<close>

theorem publish5_stores:
  assumes al: "buf_allocator alloc" and ok: "store_ok {#} {#} (pr s)" and a: "answers (pr s) = []"
    and m: "handle_at s handle = Some m" and c: "mc_c m \<in> set (items (clients (pr s)))" "client_at (pr s) (mc_c m) = Some cl"
    and k: "0 \<le> cl_socket cl" "cl_socket cl < FD_SETSIZE" "cl_MQTTVersion cl < 5"
    and id: "0 \<le> cl_msgID cl" "cl_msgID cl \<le> MAX_MSG_ID" "\<exists>i\<in>valid_ids. i \<noteq> cl_msgID cl \<and> i \<notin> ids_in_use cl"
    and t: "read_cstr (mem_of (pr s)) topicName = Some t" "length t < 65536"
    and b: "read_buf (mem_of (pr s)) payload (length bs) = Some bs" "bs \<noteq> []" and q: "0 < qos"
  shows "\<exists>rc i p'. MQTTClient_publish5 alloc junk handle topicName (int (length bs)) payload qos retained True s = Some (rc, Some i, s\<lparr>pr := p'\<rparr>) \<and>
    i \<in> valid_ids - ids_in_use cl \<and> store_ok {#} {#} p' \<and> in_flight i t bs qos retained (mc_c m) cl (pr s) p' \<and>
    (rc \<noteq> SOCKET_ERROR \<longrightarrow> outgoing (nw p') (cl_socket cl) @ todo (nw p') (cl_socket cl) = outgoing (nw (pr s)) (cl_socket cl) @
       packet_bytes (publish_header 0 qos retained) (utf_field t @ be16 i @ bs)) \<and>
    (rc = SOCKET_ERROR \<longrightarrow> outgoing (nw p') = outgoing (nw (pr s)) \<and> todo (nw p') = todo (nw (pr s)) \<and>
       (todo (nw (pr s)) (cl_socket cl) \<noteq> [] \<or> refused (nw (pr s)) (cl_socket cl)))"
proof -
  obtain i l where i: "MQTTProtocol_assignMsgId cl = Some (i, cl\<lparr>cl_outboundMsgs := l, cl_msgID := i\<rparr>)" "i \<in> valid_ids" "i \<notin> ids_in_use cl"
    "items l = items (cl_outboundMsgs cl)" "store_ok {#} {#} (upd_client (mc_c m) (\<lambda>_. cl\<lparr>cl_outboundMsgs := l, cl_msgID := i\<rparr>) (pr s))"
    by (rule store_assign [OF ok c id])
  let ?cl = "cl\<lparr>cl_outboundMsgs := l, cl_msgID := i\<rparr>" let ?p = "upd_client (mc_c m) (\<lambda>_. ?cl) (pr s)"
  have free: "key_lookup ms_msgid (cl_outboundMsgs ?cl) i = None"
    using i(3,4) by (auto simp: key_lookup_def find_None_iff ids_in_use_def)
  have pos: "0 < i" using i(2) by (simp add: valid_ids_def)
  obtain rc mm pub s' where r: "publish_message alloc junk (mc_c m) i topicName (int (length bs)) payload qos retained ?p = Some (rc, Some mm, s')"
    "store_ok {#} {#} s'" "ms_msgid mm = i" "ms_qos mm = qos" "ms_retain mm = retained"
    "client_at s' = (client_at ?p)(mc_c m \<mapsto> ?cl\<lparr>cl_outboundMsgs := a_append mm (cl_outboundMsgs ?cl)\<rparr>)"
    "pubs s' = (pubs ?p)(ms_publish mm \<mapsto> pub)" "pubs ?p (ms_publish mm) = None" "pu_refcount pub = 1" "pu_payloadlen pub = int (length bs)"
    "read_cstr (mem_of s') (pu_topic pub) = Some t" "read_buf (mem_of s') (pu_payload pub) (nat (int (length bs))) = Some bs"
    "rc \<noteq> SOCKET_ERROR \<Longrightarrow> outgoing (nw s') (cl_socket ?cl) @ todo (nw s') (cl_socket ?cl) = outgoing (nw ?p) (cl_socket ?cl) @
       packet_bytes (publish_header 0 qos retained) (utf_field t @ be16 i @ bs)"
    "rc = SOCKET_ERROR \<Longrightarrow> outgoing (nw s') = outgoing (nw ?p) \<and> todo (nw s') = todo (nw ?p) \<and>
       (todo (nw ?p) (cl_socket ?cl) \<noteq> [] \<or> refused (nw ?p) (cl_socket ?cl))"
    by (rule publish_message_stores [OF al i(5), of "mc_c m" ?cl topicName t "int (length bs)" payload bs qos i junk retained])
      (use a c k t b q free pos in simp_all)
  have "MQTTClient_publish5 alloc junk handle topicName (int (length bs)) payload qos retained True s = Some (rc, Some i, s\<lparr>pr := s'\<rparr>)"
    using m c(2) q i(1) pos r(1,3) by (simp add: MQTTClient_publish5_def)
  moreover have "in_flight i t bs qos retained (mc_c m) cl (pr s) s'"
    unfolding in_flight_def
    by (rule exI [of _ mm], rule exI [of _ pub], rule exI [of _ "?cl\<lparr>cl_outboundMsgs := a_append mm (cl_outboundMsgs ?cl)\<rparr>"])
      (use r i(4) in \<open>simp add: a_append_def\<close>)
  ultimately show ?thesis using i(2,3) r(2,13,14) by auto
qed

definition demo_library :: library where
  "demo_library = \<lparr>pr = demo_store, handles = \<lparr>items = [60], cursor = None\<rparr>,
     handle_at = [60 \<mapsto> \<lparr>mc_serverURI = None, mc_c = 50, mc_ma = True, mc_dc = False, mc_context = 0, mc_commandTimeout = 10000\<rparr>],
     library_initialized = True\<rparr>"

theorem publish5_stores_witness:
  "\<exists>rc i p'. MQTTClient_publish5 next_room (demo_publish_struct 0) 60 400 2 500 2 0 True demo_library = Some (rc, Some i, demo_library\<lparr>pr := p'\<rparr>) \<and>
     in_flight i [98] [1, 2] 2 0 50 demo_client demo_store p'"
proof -
  have ok: "store_ok {#} {#} (pr demo_library)"
    using demo_store_ok held_subset [of "nw demo_store" "holds demo_store + {#400#}" "holds demo_store"]
    by (simp add: store_ok_def demo_library_def)
  have m: "handle_at demo_library 60 = Some (the (handle_at demo_library 60))" by (simp add: demo_library_def)
  have c: "mc_c (the (handle_at demo_library 60)) \<in> set (items (clients (pr demo_library)))"
    "client_at (pr demo_library) (mc_c (the (handle_at demo_library 60))) = Some demo_client"
    by (simp_all add: demo_library_def demo_store_def)
  have rest: "answers (pr demo_library) = []" "0 \<le> cl_socket demo_client" "cl_socket demo_client < FD_SETSIZE" "cl_MQTTVersion demo_client < 5"
    "0 \<le> cl_msgID demo_client" "cl_msgID demo_client \<le> MAX_MSG_ID"
    "read_cstr (mem_of (pr demo_library)) 400 = Some [98]" "read_buf (mem_of (pr demo_library)) 500 (length [1, 2 :: byte]) = Some [1, 2]"
    by (simp_all add: demo_library_def demo_client_def demo_store_def FD_SETSIZE_def MAX_MSG_ID_def store_mem_def read_buf_def read_cstr_def upt_conv_Cons)
  have ex: "\<exists>i\<in>valid_ids. i \<noteq> cl_msgID demo_client \<and> i \<notin> ids_in_use demo_client"
    by (intro bexI [of _ 77]) (simp_all add: valid_ids_def ids_in_use_def MAX_MSG_ID_def demo_client_def)
  show ?thesis
    using publish5_stores [OF next_room_allocator ok rest(1) m c rest(2-6) ex rest(7) _ rest(8), of 2 "demo_publish_struct 0" 0]
    by (auto simp: demo_library_def)
qed

section \<open>Quality of service 0\<close>

lemma send_publish_qos0: "pub_version p < 5 \<Longrightarrow> MQTTPacket_send_publish put p dup 0 retained [] n = Some (SOCKET_ERROR, [], n)"
  by (simp add: MQTTPacket_send_publish_def)

lemma startPublish_qos0:
  assumes "client_at s c = Some cl" "answers s = []" "ps_version p < 5" "publish_value (mem_of s) p = Some w"
  shows "MQTTProtocol_startPublish alloc c p 0 retained None s = Some (SOCKET_ERROR, None, p, s)"
proof -
  have "pub_version w < 5" using assms(3,4) by (auto simp: publish_value_def split: Option.bind_splits if_splits)
  then show ?thesis
    using assms by (cases s) (simp add: MQTTProtocol_startPublish_def MQTTProtocol_startPublishCommon_def on_net_def send_publish_qos0 codes)
qed

lemma free_new:
  assumes "heap_ok h" "heap_ok h'" "extends h h'" "extent h p = None" "dom (extent h') = insert p (dom (extent h))" "p \<noteq> NULL"
  shows "free_block p (set_mem h' s) = Some (set_mem h s)"
proof -
  have "extent h' p \<noteq> None" using assms(5) by auto
  then have "free_buf p h' = Some (without [p] h')" using assms(6) by (intro free_buf_without)
  moreover have "without [p] h' = h" by (rule without_new) (use assms in simp_all)
  ultimately show ?thesis by (simp add: free_block_def)
qed

text \<open>C31: Publishing with quality of service 0 before MQTT 5 does nothing.  \<open>MQTTPacket_send_publish\<close> has no branch
  for it: with all memory available, \<open>MQTTClient_publish5\<close> copies topic and payload, sends nothing, returns
  \<open>SOCKET_ERROR\<close> and frees both copies; the whole state, its memory included, is as it was before.\<close>

theorem publish5_qos0_fails:
  assumes al: "buf_allocator alloc" and ok: "store_ok R L (pr s)" and a: "answers (pr s) = []"
    and m: "handle_at s handle = Some m" and c: "client_at (pr s) (mc_c m) = Some cl" "cl_MQTTVersion cl < 5"
    and t: "read_cstr (mem_of (pr s)) topicName = Some t" and b: "read_buf (mem_of (pr s)) payload (length bs) = Some bs"
  shows "MQTTClient_publish5 alloc junk handle topicName (int (length bs)) payload 0 retained token s = Some (SOCKET_ERROR, None, s)"
proof -
  let ?s = "pr s"
  have same: "upd_client (mc_c m) (\<lambda>_. cl) ?s = ?s" using c(1) by (cases ?s) (auto simp: upd_client_def)
  have h: "heap_ok (mem_of ?s)" using ok heldD(2) by (auto simp: store_ok_def)
  have restored: "set_mem (mem_of ?s) ?s = ?s" by (simp add: set_mem_def)
  let ?n = "int (length bs)"
  have "publish_message alloc junk (mc_c m) 0 topicName ?n payload 0 retained ?s = Some (SOCKET_ERROR, None, ?s)"
  proof (cases "bs = []")
    case True
    obtain x h3 where x: "MQTTStrdup alloc True topicName (mem_of ?s) = Some (x, h3)" "x \<noteq> NULL" "extends (mem_of ?s) h3"
      "read_cstr h3 x = Some t" "extent (mem_of ?s) x = None" "extent h3 = (extent (mem_of ?s))(x \<mapsto> length t + 1)" "heap_ok h3"
      by (rule store_strdup [OF al ok t])
    let ?p = "junk\<lparr>ps_payloadlen := 0, ps_payload := NULL, ps_topic := x, ps_msgId := 0, ps_version := cl_MQTTVersion cl\<rparr>"
    have v: "publish_value h3 ?p \<noteq> None" using x(4) by (simp add: publish_value_def read_buf_def)
    have fr: "free_block x (set_mem h3 ?s) = Some ?s"
      by (subst free_new [OF h x(7,3,5)]) (use x restored in auto)
    show ?thesis
      using True a x(1,2) c fr v startPublish_qos0 [of "set_mem h3 ?s" "mc_c m" cl ?p _ alloc retained]
      by (auto simp: publish_message_def free_message_def Let_def)
  next
    case False
    obtain p h1 h2 where p: "malloc_block alloc (length bs) ?s = (p, set_mem h1 ?s)" "p \<noteq> NULL"
      "copy_to p payload (length bs) (set_mem h1 ?s) = Some (set_mem h2 ?s)" "store_ok R (add_mset p L) (set_mem h2 ?s)"
      "extends (mem_of ?s) h2" "read_buf h2 p (length bs) = Some bs" "extent (mem_of ?s) p = None"
      "dom (extent h2) = insert p (dom (extent (mem_of ?s)))"
      by (rule store_copy [OF al ok a b])
    have h2: "heap_ok h2" using p(4) heldD(2) by (fastforce simp: store_ok_def)
    obtain x h3 where x: "MQTTStrdup alloc True topicName h2 = Some (x, h3)" "x \<noteq> NULL" "extends h2 h3" "read_cstr h3 x = Some t"
      "extent h2 x = None" "extent h3 = (extent h2)(x \<mapsto> length t + 1)" "heap_ok h3"
      by (rule store_strdup [OF al p(4), of topicName t]) (use extends_cstr [OF p(5) t] in simp_all)
    let ?p = "junk\<lparr>ps_payloadlen := ?n, ps_payload := p, ps_topic := x, ps_msgId := 0, ps_version := cl_MQTTVersion cl\<rparr>"
    have v: "publish_value h3 ?p \<noteq> None" using x(4) extends_read [OF h2 x(3) p(6)] by (simp add: publish_value_def)
    have fr: "free_block x (set_mem h3 ?s) = Some (set_mem h2 ?s)" "free_block p (set_mem h2 ?s) = Some ?s"
      subgoal by (rule free_new [OF h2 x(7,3,5) _ x(2)]) (use x(6) in auto)
      subgoal by (subst free_new [OF h h2 p(5,7,8,2)]) (rule arg_cong [OF restored])
      done
    show ?thesis
      using False a p(1,2,3) x(1,2) c fr v startPublish_qos0 [of "set_mem h3 ?s" "mc_c m" cl ?p _ alloc retained]
      by (auto simp: publish_message_def free_message_def Let_def)
  qed
  then show ?thesis using m c same by (simp add: MQTTClient_publish5_def)
qed

theorem publish5_qos0_fails_witness:
  "MQTTClient_publish5 next_room (demo_publish_struct 0) 60 400 2 500 0 0 True demo_library = Some (-1, None, demo_library)"
proof -
  have ok: "store_ok {#} {#400#} (pr demo_library)" using demo_store_ok by (simp add: demo_library_def)
  have m: "handle_at demo_library 60 = Some (the (handle_at demo_library 60))" by (simp add: demo_library_def)
  have rest: "answers (pr demo_library) = []" "client_at (pr demo_library) (mc_c (the (handle_at demo_library 60))) = Some demo_client"
    "cl_MQTTVersion demo_client < 5" "read_cstr (mem_of (pr demo_library)) 400 = Some [98]"
    "read_buf (mem_of (pr demo_library)) 500 (length [1, 2 :: byte]) = Some [1, 2]"
    by (simp_all add: demo_library_def demo_client_def demo_store_def store_mem_def read_buf_def read_cstr_def upt_conv_Cons)
  show ?thesis
    using publish5_qos0_fails [OF next_room_allocator ok rest(1) m rest(2-5), of "demo_publish_struct 0" 0 True] by (simp add: codes)
qed

section \<open>Subscriptions\<close>

text \<open>C32: Subscribing tells the caller nothing.  With all memory available \<open>MQTTClient_subscribe\<close> returns success
  (or 128, when that is the quality of service asked for) whatever becomes of the request: either the SUBSCRIBE
  packet for that topic has joined the stream of the connection, always with message id 0, or the send failed and
  nothing has.  The invariant of the message store is kept.\<close>

theorem subscribe_blind:
  assumes al: "buf_allocator alloc" and ok: "store_ok R L (pr s)" and a: "answers (pr s) = []"
    and m: "handle_at s handle = Some m" and c: "client_at (pr s) (mc_c m) = Some cl" and k: "0 \<le> cl_socket cl" "cl_socket cl < FD_SETSIZE"
    and t: "read_cstr (mem_of (pr s)) topic = Some t"
  shows "\<exists>p'. MQTTClient_subscribe alloc handle topic qos s = Some (if qos = 0x80 then 0x80 else 0, s\<lparr>pr := p'\<rparr>) \<and> store_ok R L p' \<and>
    (outgoing (nw p') (cl_socket cl) @ todo (nw p') (cl_socket cl) =
       outgoing (nw (pr s)) (cl_socket cl) @ packet_bytes 0x82 ([0, 0] @ utf_field t @ [word_of_int qos]) \<or>
     outgoing (nw p') = outgoing (nw (pr s)) \<and> todo (nw p') = todo (nw (pr s)) \<and>
       (todo (nw (pr s)) (cl_socket cl) \<noteq> [] \<or> refused (nw (pr s)) (cl_socket cl)))"
proof -
  let ?s = "pr s" let ?k = "cl_socket cl" let ?b = "subscribe_body 0 [t] [qos]"
  have body: "?b = [0, 0] @ utf_field t @ [word_of_int qos]" by (simp add: subscribe_body_def be16_def)
  obtain rc n where put: "net_put alloc [] ?k (0x82 # vbi (length ?b)) \<lparr>pb_buffers = [?b], pb_frees = replicate (length [?b]) True\<rparr> (nw ?s) = Some (rc, n)"
    "handed_over (nw ?s) ?k ((0x82 # vbi (length ?b)) @ concat [?b]) rc n" "store_ok R L (?s\<lparr>nw := n\<rparr>)"
    by (rule store_send [OF al ok k, of "0x82 # vbi (length ?b)" "[?b]"]) simp_all
  have same: "?s\<lparr>answers := [], nw := n\<rparr> = ?s\<lparr>nw := n\<rparr>" using a by (cases ?s) simp
  have "MQTTProtocol_subscribe alloc (mc_c m) [t] [qos] 0 ?s = Some (rc, ?s\<lparr>nw := n\<rparr>)"
    using put(1) c a same subscribe_bytes [of "[t]" "[qos]" 0 0 "net_put alloc [] ?k" "nw ?s"]
    by (simp add: MQTTProtocol_subscribe_def on_net_def)
  then have "MQTTClient_subscribe alloc handle topic qos s = Some (if qos = 0x80 then 0x80 else 0, s\<lparr>pr := ?s\<lparr>nw := n\<rparr>\<rparr>)"
    using m a t
    by (simp add: MQTTClient_subscribe_def MQTTClient_subscribe5_def MQTTClient_subscribeMany5_def Let_def append_item_nil
        a_append_def empty_alist_def codes)
  then show ?thesis
    using put(2,3) by (intro exI [of _ "?s\<lparr>nw := n\<rparr>"]) (auto simp: handed_over_def packet_bytes_def body)
qed

theorem subscribe_blind_witness:
  "\<exists>p'. MQTTClient_subscribe next_room 60 400 1 demo_library = Some (0, demo_library\<lparr>pr := p'\<rparr>) \<and> store_ok {#} {#400#} p'"
proof -
  have ok: "store_ok {#} {#400#} (pr demo_library)" using demo_store_ok by (simp add: demo_library_def)
  have m: "handle_at demo_library 60 = Some (the (handle_at demo_library 60))" by (simp add: demo_library_def)
  have rest: "answers (pr demo_library) = []" "client_at (pr demo_library) (mc_c (the (handle_at demo_library 60))) = Some demo_client"
    "0 \<le> cl_socket demo_client" "cl_socket demo_client < FD_SETSIZE" "read_cstr (mem_of (pr demo_library)) 400 = Some [98]"
    by (simp_all add: demo_library_def demo_client_def demo_store_def store_mem_def read_cstr_def upt_conv_Cons FD_SETSIZE_def)
  show ?thesis using subscribe_blind [OF next_room_allocator ok rest(1) m rest(2-5), of 1] by auto
qed

end
