(* ===== verification/Handles.thy ===== *)
theory Handles
  imports Client
begin

text \<open>
  The life of a handle: creating a client, its callbacks, and giving it up again.  When a client goes, its messages
  drop their publications, which are freed with the last reference, and the client and its handle leave the tables.
\<close>

section \<open>Creating a client\<close>

definition NOT_IN_PROGRESS :: int where [codes]: "NOT_IN_PROGRESS = 0"
definition TCP_IN_PROGRESS :: int where [codes]: "TCP_IN_PROGRESS = 1"
definition WAIT_FOR_CONNACK :: int where [codes]: "WAIT_FOR_CONNACK = 4"
definition MQTTVERSION_3_1_1 :: int where [codes]: "MQTTVERSION_3_1_1 = 4"

definition URI_TCP :: "byte list" where
  "URI_TCP = [116, 99, 112, 58, 47, 47]"

text \<open>What \<open>MQTTStrdup\<close> leaves in a field that is only ever read as a string.\<close>

definition dup_string :: "byte list \<Rightarrow> proto \<Rightarrow> byte list option \<times> proto" where
  "dup_string t s = (let (ok, s) = malloc_ok s in (if ok then Some t else None, s))"

text \<open>A client after \<open>memset\<close> and the assignments that follow: its socket is 0.\<close>

definition new_client :: "byte list option \<Rightarrow> Clients" where
  "new_client clientID = \<lparr>cl_clientID = clientID, cl_username = None, cl_password = None, cl_passwordlen = 0, cl_good = False,
     cl_connect_state = NOT_IN_PROGRESS, cl_socket = 0, cl_msgID = 0, cl_keepAliveInterval = 0, cl_inboundMsgs = empty_alist,
     cl_outboundMsgs = empty_alist, cl_messageQueue = empty_alist, cl_outboundQueue = empty_alist, cl_MQTTVersion = MQTTVERSION_3_1_1\<rparr>"

text \<open>\<open>pm\<close> and \<open>pc\<close> are the addresses \<open>malloc\<close> answers with for the handle and the client, or null.  The code
  goes on after a failure and clears the block at the null pointer, as \<open>ListInitialize\<close> does.  \<open>sem\<close> is the code the
  last semaphore was created with.  The results are the code, \<open>*handle\<close> and the state.\<close>

definition MQTTClient_createWithOptions ::
  "ptr \<Rightarrow> ptr \<Rightarrow> int \<Rightarrow> byte list \<Rightarrow> byte list \<Rightarrow> library \<Rightarrow> (int \<times> ptr \<times> library) option" where
  "MQTTClient_createWithOptions pm pc sem serverURI clientId s = do {
     s \<leftarrow> (if library_initialized s then Some s
          else
            let (ok1, p) = malloc_ok (pr s); (ok2, p) = malloc_ok p in
            if \<not> (ok1 \<and> ok2) then None
            else Some (s\<lparr>pr := p\<lparr>clients := empty_alist, nw := Socket_outInitialize (nw p)\<rparr>,
                         handles := empty_alist, library_initialized := True\<rparr>));
     let serverURI = (if take (length URI_TCP) serverURI = URI_TCP then drop (length URI_TCP) serverURI else serverURI);
     if pm = NULL \<or> pc = NULL then None
     else
       let (uri, p) = dup_string serverURI (pr s);
           m = \<lparr>mc_serverURI = uri, mc_c = pc, mc_ma = False, mc_dc = False, mc_context = NULL, mc_commandTimeout = 10000\<rparr>;
           (_, hs, p) = append_item pm (handles s) p;
           (ok1, p) = malloc_ok p; (ok2, p) = malloc_ok p; (ok3, p) = malloc_ok p; (ok4, p) = malloc_ok p
       in
       if \<not> (ok1 \<and> ok2 \<and> ok3 \<and> ok4) then None
       else
         let (clientID, p) = dup_string clientId p;
             (_, cs, p) = append_item pc (clients p) p
         in Some (sem, pm, s\<lparr>pr := p\<lparr>clients := cs, client_at := (client_at p)(pc \<mapsto> new_client clientID)\<rparr>,
                             handles := hs, handle_at := (handle_at s)(pm \<mapsto> m)\<rparr>)
   }"

definition MQTTClient_create ::
  "ptr \<Rightarrow> ptr \<Rightarrow> int \<Rightarrow> byte list \<Rightarrow> byte list \<Rightarrow> library \<Rightarrow> (int \<times> ptr \<times> library) option" where
  "MQTTClient_create pm pc sem serverURI clientId s = MQTTClient_createWithOptions pm pc sem serverURI clientId s"

text \<open>Of the callbacks only the one for messages is required; \<open>cl\<close>, for lost connections, is not even stored.\<close>

definition MQTTClient_setCallbacks :: "ptr \<Rightarrow> ptr \<Rightarrow> bool \<Rightarrow> bool \<Rightarrow> bool \<Rightarrow> library \<Rightarrow> (int \<times> library) option" where
  "MQTTClient_setCallbacks handle context cl ma dc s =
     (if handle = NULL \<or> \<not> ma then Some (MQTTCLIENT_FAILURE, s)
      else do {
        m \<leftarrow> handle_at s handle;
        client \<leftarrow> client_at (pr s) (mc_c m);
        if cl_connect_state client \<noteq> NOT_IN_PROGRESS then Some (MQTTCLIENT_FAILURE, s)
        else Some (MQTTCLIENT_SUCCESS, s\<lparr>handle_at := (handle_at s)(handle \<mapsto> m\<lparr>mc_context := context, mc_ma := ma, mc_dc := dc\<rparr>)\<rparr>)
      })"

section \<open>Giving it up\<close>

text \<open>The module of the sockets.  The lists that are freed are set up again before they are used.\<close>

definition Socket_outTerminate :: "net \<Rightarrow> net option" where
  "Socket_outTerminate s = do {
     b \<leftarrow> SocketBuffer_terminate (sbuf s);
     Some (set_sbuf b (upd_mod (\<lambda>m. m\<lparr>connect_pending := empty_alist, write_pending := empty_alist, clientsds := empty_alist\<rparr>) s))
   }"

text \<open>\<open>WebSocket_terminate\<close> has no frames to free here; \<open>Log_terminate\<close> does not touch this state.\<close>

definition MQTTClient_terminate :: "library \<Rightarrow> library option" where
  "MQTTClient_terminate s =
     (if library_initialized s then do {
        n \<leftarrow> Socket_outTerminate (nw (pr s));
        Some (s\<lparr>pr := (pr s)\<lparr>nw := n, clients := empty_alist, client_at := (\<lambda>c. if c \<in> set (items (clients (pr s))) then None else client_at (pr s) c)\<rparr>,
                handles := empty_alist, handle_at := (\<lambda>h. if h \<in> set (items (handles s)) then None else handle_at s h),
                library_initialized := False\<rparr>)
      }
      else Some s)"

definition MQTTClient_destroy :: "ptr \<Rightarrow> library \<Rightarrow> library option" where
  "MQTTClient_destroy handle s =
     (if handle = NULL then Some s
      else do {
        m \<leftarrow> handle_at s handle;
        p \<leftarrow> (if mc_c m \<noteq> NULL then do {
               p \<leftarrow> MQTTProtocol_freeClient (mc_c m) (pr s);
               let (found, l) = a_unlink (\<lambda>x. x = mc_c m) (clients p);
               Some (p\<lparr>clients := l, client_at := (if found = None then client_at p else (client_at p)(mc_c m := None))\<rparr>)
             }
             else Some (pr s));
        let (found, hs) = a_unlink (\<lambda>x. x = handle) (handles s);
        let s = s\<lparr>pr := p, handles := hs, handle_at := (if found = None then handle_at s else (handle_at s)(handle := None))\<rparr>;
        if items (clients p) = [] then MQTTClient_terminate s else Some s
      })"

section \<open>Dropping the messages of a list\<close>

lemma unread_without: "unread n x \<Longrightarrow> unread (n\<lparr>bufs := without ps (bufs n)\<rparr>) x"
  by (auto simp: unread_def block_def)

lemma unread_dropped: "unread n x \<Longrightarrow> unread (n\<lparr>bufs := drop_publication p pub (bufs n)\<rparr>) x"
  unfolding drop_publication_def
  using unread_without [of "n\<lparr>bufs := without [pu_topic pub] (without [pu_payload pub] (bufs n))\<rparr>" x "[p]"]
    unread_without [of "n\<lparr>bufs := without [pu_payload pub] (bufs n)\<rparr>" x "[pu_topic pub]"] unread_without [of n x "[pu_payload pub]"]
  by simp

text \<open>No unfinished write reads from a publication that one of the messages refers to.\<close>

definition writes_done :: "Messages list \<Rightarrow> proto \<Rightarrow> bool" where
  "writes_done ms s \<longleftrightarrow> (\<forall>m\<in>set ms. \<forall>pub. pubs s (ms_publish m) = Some pub \<longrightarrow> (\<forall>x\<in>#pub_blocks (ms_publish m) pub. unread (nw s) x))"

lemma diff_trans: "(C :: 'a multiset) \<subseteq># B \<Longrightarrow> B \<subseteq># A \<Longrightarrow> A - C = (A - B) + (B - C)"
  by (metis add.commute subset_mset.add_diff_assoc2 subset_mset.diff_add_assoc subset_mset.le_imp_diff_is_add subset_mset.dual_order.trans)

lemma remove_publications_ok:
  assumes "store_ok (R + mset (map ms_publish ms)) L s" "writes_done ms s"
  obtains s' where "remove_publications ms s = Some s'" "store_ok R L s'" "client_at s' = client_at s" "clients s' = clients s"
    "refs s' = refs s" "holds s' \<subseteq># holds s" "dom (extent (mem_of s')) = dom (extent (mem_of s)) - set_mset (holds s - holds s')"
    "outgoing (nw s') = outgoing (nw s)" "answers s' = answers s"
proof -
  have "\<exists>s'. remove_publications ms s = Some s' \<and> store_ok R L s' \<and> client_at s' = client_at s \<and> clients s' = clients s \<and>
    refs s' = refs s \<and> holds s' \<subseteq># holds s \<and> dom (extent (mem_of s')) = dom (extent (mem_of s)) - set_mset (holds s - holds s') \<and>
    outgoing (nw s') = outgoing (nw s) \<and> answers s' = answers s"
    using assms
  proof (induction ms arbitrary: s)
    case (Cons m ms)
    let ?p = "ms_publish m" let ?R = "R + mset (map ms_publish ms)"
    have ok: "store_ok (add_mset ?p ?R) L s" using Cons.prems(1) by simp
    have "?p \<in># refs s + add_mset ?p ?R" by simp
    then obtain pub where pub: "pubs s ?p = Some pub"
      using ok tablesD(2) [of "add_mset ?p ?R" s ?p] unfolding store_ok_def by auto
    have u: "\<forall>x\<in>#pub_blocks ?p pub. unread (nw s) x" using Cons.prems(2) pub by (simp add: writes_done_def)
    obtain s1 where s1: "MQTTProtocol_removePublication ?p s = Some s1" "store_ok ?R L s1"
      "client_at s1 = client_at s" "clients s1 = clients s" "answers s1 = answers s"
      "pubs s1 = (if ?p \<in># refs s + ?R then (pubs s)(?p \<mapsto> pub\<lparr>pu_refcount := pu_refcount pub - 1\<rparr>) else (pubs s)(?p := None))"
      "nw s1 = (if ?p \<in># refs s + ?R then nw s else (nw s)\<lparr>bufs := drop_publication ?p pub (mem_of s)\<rparr>)"
      "refs s1 = refs s" "holds s = holds s1 + (if ?p \<in># refs s + ?R then {#} else pub_blocks ?p pub)"
      "dom (extent (mem_of s1)) = dom (extent (mem_of s)) - set_mset (holds s - holds s1)"
      by (rule removePublication_ok [OF ok pub u])
    have un: "unread (nw s1) x" if "unread (nw s) x" for x using that unread_dropped [of "nw s" x] s1(7) by simp
    have og: "outgoing (nw s1) = outgoing (nw s)" using s1(7) by simp
    have sub: "holds s1 \<subseteq># holds s" using s1(9) by simp
    have "writes_done ms s1"
      unfolding writes_done_def
    proof (intro ballI allI impI)
      fix m' pub' x
      assume m': "m' \<in> set ms" "pubs s1 (ms_publish m') = Some pub'" "x \<in># pub_blocks (ms_publish m') pub'"
      obtain pb where pb: "pubs s (ms_publish m') = Some pb" "pub_blocks (ms_publish m') pub' = pub_blocks (ms_publish m') pb"
        using m'(2) s1(6) pub by (auto simp: pub_blocks_def split: if_splits)
      then have "unread (nw s) x" using Cons.prems(2) m'(1,3) by (simp add: writes_done_def)
      then show "unread (nw s1) x" by (rule un)
    qed
    from Cons.IH [OF s1(2) this] obtain s2 where s2: "remove_publications ms s1 = Some s2" "store_ok R L s2" "client_at s2 = client_at s1"
      "clients s2 = clients s1" "refs s2 = refs s1" "holds s2 \<subseteq># holds s1"
      "dom (extent (mem_of s2)) = dom (extent (mem_of s1)) - set_mset (holds s1 - holds s2)" "outgoing (nw s2) = outgoing (nw s1)"
      "answers s2 = answers s1" by blast
    have "set_mset (holds s - holds s2) = set_mset (holds s - holds s1) \<union> set_mset (holds s1 - holds s2)"
      using diff_trans [OF s2(6) sub] by simp
    moreover have "holds s2 \<subseteq># holds s" using s2(6) sub by (rule subset_mset.order_trans)
    ultimately show ?case using s1 s2 og by auto
  qed simp
  then show thesis using that by blast
qed

lemma remove_publications_upd_client:
  "remove_publications ms (upd_client c f s) = map_option (upd_client c f) (remove_publications ms s)"
  by (induction ms arbitrary: s) (auto simp: removePublication_upd_client split: option.splits Option.bind_splits)

lemma remove_publications_append: "remove_publications (xs @ ys) s = remove_publications xs s \<bind> remove_publications ys"
  by (induction xs arbitrary: s) (auto split: Option.bind_splits)

section \<open>What goes with a client\<close>

lemma client_gone:
  assumes ok: "store_ok {#} L s" and c: "c \<in> set (items (clients s))" "client_at s c = Some cl"
    and w: "writes_done (items (cl_outboundMsgs cl) @ items (cl_inboundMsgs cl)) s"
    and f: "\<And>x. cl_outboundMsgs (f x) = empty_alist \<and> cl_inboundMsgs (f x) = empty_alist \<and> cl_messageQueue (f x) = empty_alist \<and>
      cl_outboundQueue (f x) = empty_alist \<and> cl_socket (f x) = cl_socket x"
  obtains t u where "remove_publications (items (cl_outboundMsgs cl)) s = Some t" "remove_publications (items (cl_inboundMsgs cl)) t = Some u"
    "store_ok {#} L (upd_client c f u)" "client_at u = client_at s" "clients u = clients s" "refs s = refs (upd_client c f u) + client_refs cl"
    "client_holds cl + holds (upd_client c f u) \<subseteq># holds s" "outgoing (nw u) = outgoing (nw s)"
    "dom (extent (mem_of u)) = dom (extent (mem_of s)) - set_mset (holds s - holds (upd_client c f u) - client_holds cl)"
proof -
  note outcome = that
  let ?ms = "items (cl_outboundMsgs cl) @ items (cl_inboundMsgs cl)" let ?s = "upd_client c f s"
  have t: "tables_ok {#} s" and h: "held (nw s) (holds s + L)" using ok by (simp_all add: store_ok_def)
  have fe: "client_ok (f cl)" "client_refs (f cl) = {#}" "client_holds (f cl) = {#}"
    using f [of cl] by (simp_all add: client_ok_def client_refs_def client_holds_def table_ok_def alist_ok_def empty_alist_def)
  have cr: "client_refs cl = mset (map ms_publish ?ms)" by (simp add: client_refs_def)
  have t0: "tables_ok (client_refs cl) ?s"
    by (rule tables_upd_client [OF t c]) (use fe f [of cl] in simp_all)
  have hs: "holds ?s + client_holds cl = holds s" "refs ?s + client_refs cl = refs s"
    using upd_client_sums [OF c, of f] fe by simp_all
  have ok0: "store_ok ({#} + mset (map ms_publish ?ms)) (L + client_holds cl) ?s"
    using t0 h unfolding cr [symmetric] by (simp add: store_ok_def hs(1) [symmetric] ac_simps)
  have w0: "writes_done ?ms ?s" using w by (simp add: writes_done_def)
  obtain v where v: "remove_publications ?ms ?s = Some v" "store_ok {#} (L + client_holds cl) v" "client_at v = client_at ?s" "clients v = clients ?s"
    "refs v = refs ?s" "holds v \<subseteq># holds ?s" "dom (extent (mem_of v)) = dom (extent (mem_of ?s)) - set_mset (holds ?s - holds v)"
    "outgoing (nw v) = outgoing (nw ?s)"
    by (rule remove_publications_ok [OF ok0 w0])
  then obtain u where u: "remove_publications ?ms s = Some u" "v = upd_client c f u"
    by (auto simp: remove_publications_upd_client)
  obtain t where t: "remove_publications (items (cl_outboundMsgs cl)) s = Some t" "remove_publications (items (cl_inboundMsgs cl)) t = Some u"
    using u(1) by (auto simp: remove_publications_append split: Option.bind_splits)
  have "held (nw v) (holds v + L)" using v(2) held_subset [of "nw v" "holds v + (L + client_holds cl)" "holds v + L"] by (simp add: store_ok_def)
  then have "store_ok {#} L v" using v(2) by (simp add: store_ok_def)
  moreover have "client_at u = client_at s" "clients u = clients s"
  proof -
    have fr: "client_at b = client_at a \<and> clients b = clients a" if "MQTTProtocol_removePublication p a = Some b" for p a b
      using that by (auto simp: MQTTProtocol_removePublication_def free_block_def set_mem_def Let_def split: if_splits option.splits prod.splits Option.bind_splits)
    have "client_at b = client_at a \<and> clients b = clients a" if "remove_publications ms a = Some b" for ms a b
      using that by (induction ms arbitrary: a) (auto split: Option.bind_splits dest!: fr)
    then show "client_at u = client_at s" "clients u = clients s" using u(1) by blast+
  qed
  moreover have "holds s - holds v - client_holds cl = holds ?s - holds v" unfolding hs(1) [symmetric] by (simp add: add.commute)
  moreover have "client_holds cl + holds v \<subseteq># holds s" unfolding hs(1) [symmetric] using v(6) by (simp add: add.commute [of "client_holds cl"])
  ultimately show thesis
    using u(2) v t hs by (intro outcome [OF t]) (simp_all add: add.commute)
qed

text \<open>C33: Freeing a client.  When no unfinished write reads from its messages, \<open>MQTTProtocol_freeClient\<close> drops exactly
  the references of the client's messages; afterwards a publication is there just when a message or a write of another
  client refers to it, and the blocks of the publications that went are free again, each once.  The other blocks
  of the client, the topics and payloads of messages it had received and not delivered, stay allocated
  although nobody holds them any more.\<close>

theorem freeClient_releases:
  assumes ok: "store_ok {#} L s" and c: "c \<in> set (items (clients s))" "client_at s c = Some cl"
    and w: "writes_done (items (cl_outboundMsgs cl) @ items (cl_inboundMsgs cl)) s"
  shows "\<exists>s'. MQTTProtocol_freeClient c s = Some s' \<and> store_ok {#} L s' \<and> refs s = refs s' + client_refs cl \<and>
    clients s' = clients s \<and> client_at s' = (client_at s)(c \<mapsto> cl\<lparr>cl_outboundMsgs := empty_alist, cl_inboundMsgs := empty_alist,
       cl_messageQueue := empty_alist, cl_outboundQueue := empty_alist, cl_clientID := None\<rparr>) \<and>
    (\<forall>p. pubs s' p \<noteq> None \<longleftrightarrow> p \<in># refs s') \<and> client_holds cl \<subseteq># holds s - holds s' \<and>
    dom (extent (mem_of s')) = dom (extent (mem_of s)) - set_mset (holds s - holds s' - client_holds cl)"
proof -
  let ?f = "\<lambda>client. client\<lparr>cl_outboundMsgs := empty_alist, cl_inboundMsgs := empty_alist, cl_messageQueue := empty_alist,
        cl_outboundQueue := empty_alist, cl_clientID := None\<rparr>"
  obtain t u where u: "remove_publications (items (cl_outboundMsgs cl)) s = Some t" "remove_publications (items (cl_inboundMsgs cl)) t = Some u"
    "store_ok {#} L (upd_client c ?f u)" "client_at u = client_at s" "clients u = clients s" "refs s = refs (upd_client c ?f u) + client_refs cl" "client_holds cl + holds (upd_client c ?f u) \<subseteq># holds s"
    "dom (extent (mem_of u)) = dom (extent (mem_of s)) - set_mset (holds s - holds (upd_client c ?f u) - client_holds cl)"
    by (rule client_gone [OF ok c w, of ?f]) simp_all
  have "MQTTProtocol_freeClient c s = Some (upd_client c ?f u)"
    using c(2) u(1,2) by (simp add: MQTTProtocol_freeClient_def MQTTProtocol_emptyMessageList_def)
  moreover have "\<forall>p. pubs (upd_client c ?f u) p \<noteq> None \<longleftrightarrow> p \<in># refs (upd_client c ?f u)"
    using tablesD(2) [of "{#}" "upd_client c ?f u"] u(3) by (simp add: store_ok_def)
  moreover have "client_holds cl \<subseteq># holds s - holds (upd_client c ?f u)"
    using u(7) unfolding subseteq_mset_def by (auto intro: add_le_imp_le_diff)
  ultimately show ?thesis using u c(2) by (intro exI [of _ "upd_client c ?f u"]) simp
qed

theorem freeClient_releases_witness:
  "\<exists>s'. MQTTProtocol_freeClient 50 demo_store = Some s' \<and> refs s' = {#} \<and> (\<forall>p. pubs s' p = None) \<and>
     dom (extent (mem_of s')) = dom (extent (mem_of demo_store)) - {300, 100, 200}"
proof -
  have c: "(50 :: ptr) \<in> set (items (clients demo_store))" "client_at demo_store 50 = Some demo_client"
    by (simp_all add: demo_store_def)
  have w: "writes_done (items (cl_outboundMsgs demo_client) @ items (cl_inboundMsgs demo_client)) demo_store"
    by (simp add: writes_done_def demo_unread)
  have q: "client_refs demo_client = {#300#}" "client_holds demo_client = {#}"
    by (simp_all add: client_refs_def client_holds_def demo_client_def empty_alist_def)
  obtain s' where s': "MQTTProtocol_freeClient 50 demo_store = Some s'" "store_ok {#} {#400#} s'" "refs demo_store = refs s' + {#300#}"
    "clients s' = clients demo_store" "client_at s' = (client_at demo_store)(50 \<mapsto> demo_client\<lparr>cl_outboundMsgs := empty_alist, cl_inboundMsgs := empty_alist,
       cl_messageQueue := empty_alist, cl_outboundQueue := empty_alist, cl_clientID := None\<rparr>)"
    "\<forall>p. pubs s' p \<noteq> None \<longleftrightarrow> p \<in># refs s'" "dom (extent (mem_of s')) = dom (extent (mem_of demo_store)) - set_mset (holds demo_store - holds s')"
    using freeClient_releases [OF demo_store_ok c w] unfolding q by auto
  have r: "refs s' = {#}" using s'(3) by (simp add: demo_holds)
  then have none: "pubs s' = (\<lambda>_. None)" using s'(6) by (auto simp: fun_eq_iff)
  have "holds s' = {#}" using s'(4,5) none by (auto simp: holds_def demo_store_def client_holds_def empty_alist_def)
  then show ?thesis using s' r none by (auto simp: demo_holds)
qed

section \<open>There and gone\<close>

lemma append_unlink:
  assumes l: "table_ok (\<lambda>x. x) l" and x: "x \<notin> set (items l)"
  shows "fst (a_unlink (\<lambda>y. y = x) (a_append x l)) = Some x" "items (snd (a_unlink (\<lambda>y. y = x) (a_append x l))) = items l"
proof -
  have k: "key_lookup (\<lambda>x. x) l x = None" using x by (auto simp: key_lookup_def find_None_iff)
  have t: "table_ok (\<lambda>x. x) (a_append x l)" using l k by (intro table_ok_append) simp_all
  have i: "items (a_append x l) = items l @ [x]" by (simp add: a_append_def)
  have "find (\<lambda>y. y = x) (ys @ [x]) = Some x" if "x \<notin> set ys" for ys using that by (induction ys) auto
  then have "key_lookup (\<lambda>x. x) (a_append x l) x = Some x" using x by (simp add: key_lookup_def i)
  then show "fst (a_unlink (\<lambda>y. y = x) (a_append x l)) = Some x" using a_unlink_key(1) [OF t, of x] by simp
  have "filter (\<lambda>y. y \<noteq> x) (items l) = items l" using x by (simp add: filter_id_conv) blast
  then show "items (snd (a_unlink (\<lambda>y. y = x) (a_append x l))) = items l" using a_unlink_key(2) [OF t, of x] i by simp
qed

text \<open>C34: Creating a client and giving it up.  On a library that is in use, with all memory available and the two
  blocks where none were, \<open>MQTTClient_create\<close> makes a handle at the end of the table of handles, whose address is that
  of the server without \<open>tcp://\<close>, whose callbacks are not set and whose timeout is 10000 ms, and a client at the end of
  the table of clients: every field of both is written out, the socket of the new client being 0, its protocol
  level 4, its connection not in progress (0) and its lists empty.  Nothing else changes.
  \<open>MQTTClient_destroy\<close> then leaves the tables of handles and clients, the messages, the sockets and the blocks of
  buffer memory as they were.  The handle, the client and their strings are entries of the tables here and not
  blocks of that memory, so that the statement says nothing of the calls of \<open>free\<close> for them.\<close>

theorem create_destroy:
  assumes lib: "library_initialized s" and a: "answers (pr s) = []" and pm: "pm \<noteq> NULL" "handle_at s pm = None" "pm \<notin> set (items (handles s))"
    and pc: "pc \<noteq> NULL" "client_at (pr s) pc = None" "pc \<notin> set (items (clients (pr s)))"
    and tab: "table_ok (\<lambda>x. x) (handles s)" "table_ok (\<lambda>x. x) (clients (pr s))" and ne: "items (clients (pr s)) \<noteq> []"
  shows "\<exists>s1 s2. MQTTClient_create pm pc sem uri name s = Some (sem, pm, s1) \<and>
    items (handles s1) = items (handles s) @ [pm] \<and> items (clients (pr s1)) = items (clients (pr s)) @ [pc] \<and>
    handle_at s1 = (handle_at s)(pm \<mapsto>
      \<lparr>mc_serverURI = Some (if \<exists>rest. uri = [116, 99, 112, 58, 47, 47] @ rest then drop 6 uri else uri), mc_c = pc,
       mc_ma = False, mc_dc = False, mc_context = NULL, mc_commandTimeout = 10000\<rparr>) \<and>
    client_at (pr s1) = (client_at (pr s))(pc \<mapsto>
      \<lparr>cl_clientID = Some name, cl_username = None, cl_password = None, cl_passwordlen = 0, cl_good = False, cl_connect_state = 0,
       cl_socket = 0, cl_msgID = 0, cl_keepAliveInterval = 0, cl_inboundMsgs = \<lparr>items = [], cursor = None\<rparr>,
       cl_outboundMsgs = \<lparr>items = [], cursor = None\<rparr>, cl_messageQueue = \<lparr>items = [], cursor = None\<rparr>,
       cl_outboundQueue = \<lparr>items = [], cursor = None\<rparr>, cl_MQTTVersion = 4\<rparr>) \<and>
    pubs (pr s1) = pubs (pr s) \<and> publications (pr s1) = publications (pr s) \<and> nw (pr s1) = nw (pr s) \<and>
    MQTTClient_destroy pm s1 = Some s2 \<and> items (clients (pr s2)) = items (clients (pr s)) \<and> client_at (pr s2) = client_at (pr s) \<and>
    items (handles s2) = items (handles s) \<and> handle_at s2 = handle_at s \<and> pubs (pr s2) = pubs (pr s) \<and>
    publications (pr s2) = publications (pr s) \<and> nw (pr s2) = nw (pr s) \<and> library_initialized s2"
proof -
  let ?uri = "if take (length URI_TCP) uri = URI_TCP then drop (length URI_TCP) uri else uri"
  let ?m = "\<lparr>mc_serverURI = Some ?uri, mc_c = pc, mc_ma = False, mc_dc = False, mc_context = NULL, mc_commandTimeout = 10000\<rparr>"
  let ?s1 = "s\<lparr>pr := (pr s)\<lparr>clients := a_append pc (clients (pr s)), client_at := (client_at (pr s))(pc \<mapsto> new_client (Some name))\<rparr>,
    handles := a_append pm (handles s), handle_at := (handle_at s)(pm \<mapsto> ?m)\<rparr>"
  have create: "MQTTClient_create pm pc sem uri name s = Some (sem, pm, ?s1)"
    using lib a pm(1) pc(1)
    by (simp add: MQTTClient_create_def MQTTClient_createWithOptions_def dup_string_def append_item_nil malloc_ok_nil Let_def)
  have "take (length URI_TCP) uri = URI_TCP \<longleftrightarrow> (\<exists>rest. uri = URI_TCP @ rest)"
    by (metis append_eq_conv_conj append_take_drop_id)
  then have u: "take (length URI_TCP) uri = URI_TCP \<longleftrightarrow> (\<exists>rest. uri = 116 # 99 # 112 # 58 # 47 # 47 # rest)"
    unfolding URI_TCP_def by simp
  have l: "length URI_TCP = 6" by (simp add: URI_TCP_def)
  let ?e = "\<lambda>client. client\<lparr>cl_outboundMsgs := empty_alist, cl_inboundMsgs := empty_alist, cl_messageQueue := empty_alist,
        cl_outboundQueue := empty_alist, cl_clientID := None\<rparr>"
  have free: "MQTTProtocol_freeClient pc (pr ?s1) = Some (upd_client pc ?e (pr ?s1))"
    by (simp add: MQTTProtocol_freeClient_def MQTTProtocol_emptyMessageList_def new_client_def empty_alist_def)
  note cs = append_unlink [OF tab(2) pc(3)] and hs = append_unlink [OF tab(1) pm(3)]
  obtain cl where c: "a_unlink (\<lambda>x. x = pc) (a_append pc (clients (pr s))) = (Some pc, cl)" "items cl = items (clients (pr s))"
    using cs by (metis prod.collapse)
  obtain hl where h: "a_unlink (\<lambda>x. x = pm) (a_append pm (handles s)) = (Some pm, hl)" "items hl = items (handles s)"
    using hs by (metis prod.collapse)
  let ?s2 = "s\<lparr>pr := (pr s)\<lparr>clients := cl, client_at := (client_at (pr s))(pc := None)\<rparr>, handles := hl, handle_at := (handle_at s)(pm := None)\<rparr>"
  have destroy: "MQTTClient_destroy pm ?s1 = Some ?s2"
    using pm(1) pc(1) free c h ne by (simp add: MQTTClient_destroy_def upd_client_def)
  have e: "(client_at (pr s))(pc := None) = client_at (pr s)" "(handle_at s)(pm := None) = handle_at s"
    using pc(2) pm(2) by (auto simp: fun_eq_iff)
  show ?thesis
    by (rule exI [of _ ?s1], rule exI [of _ ?s2])
      (use create destroy c(2) h(2) e lib u l in \<open>simp add: a_append_def new_client_def empty_alist_def codes\<close>)
qed

theorem create_destroy_witness:
  "\<exists>s1 s2. MQTTClient_create 70 80 0 (URI_TCP @ [104, 58, 49]) [99] demo_library = Some (0, 70, s1) \<and>
     map_option cl_socket (client_at (pr s1) 80) = Some 0 \<and>
     MQTTClient_destroy 70 s1 = Some s2 \<and> items (clients (pr s2)) = [50] \<and> handle_at s2 = handle_at demo_library"
proof -
  have "library_initialized demo_library" "answers (pr demo_library) = []" "(70 :: ptr) \<noteq> NULL" "handle_at demo_library 70 = None"
    "70 \<notin> set (items (handles demo_library))" "(80 :: ptr) \<noteq> NULL" "client_at (pr demo_library) 80 = None"
    "80 \<notin> set (items (clients (pr demo_library)))" "table_ok (\<lambda>x. x) (handles demo_library)"
    "table_ok (\<lambda>x. x) (clients (pr demo_library))" "items (clients (pr demo_library)) \<noteq> []" "items (clients (pr demo_library)) = [50]"
    by (simp_all add: demo_library_def demo_store_def table_ok_def alist_ok_def)
  with create_destroy [of demo_library 70 80 0 "URI_TCP @ [104, 58, 49]" "[99]"] show ?thesis by auto
qed

end
