(* ===== verification/Sha1.thy ===== *)
theory Sha1
  imports Prelude
begin

unbundle bit_operations_syntax

text \<open>
  The digest of \<^verbatim>\<open>src/src/utils/SHA1.c\<close>, with its message schedule in place and its input in pieces, and the
  digest that the standard defines on the whole message.
\<close>

section \<open>The digest in pieces\<close>

type_synonym uint32 = "32 word"

text \<open>The union of 16 words and 64 bytes is kept as its bytes.  Words are read and written through \<open>be32toh\<close> and
  \<open>htobe32\<close>, which makes them big endian on any machine; \<open>host_bytes\<close> are the bytes of a word that is stored
  without them (little endian), which nothing reads before they are written again.\<close>

record SHA_CTX =
  sh_h :: "uint32 list"
  sh_buffer :: "byte list"
  sh_size :: nat
  sh_total :: uint32

definition be_word :: "byte list \<Rightarrow> uint32" where
  "be_word bs = foldl (\<lambda>v b. push_bit 8 v OR ucast b) 0 bs"

definition be_bytes :: "uint32 \<Rightarrow> byte list" where
  "be_bytes x = [ucast (drop_bit 24 x), ucast (drop_bit 16 x), ucast (drop_bit 8 x), ucast x]"

definition host_bytes :: "uint32 \<Rightarrow> byte list" where
  "host_bytes x = rev (be_bytes x)"

text \<open>\<open>htobe32\<close> there: the word whose stored bytes are the big endian ones.\<close>

definition htobe32 :: "uint32 \<Rightarrow> uint32" where
  "htobe32 x = be_word (rev (be_bytes x))"

definition initial_hash :: "uint32 list" where
  "initial_hash = [0x67452301, 0xEFCDAB89, 0x98BADCFE, 0x10325476, 0xC3D2E1F0]"

definition SHA1_Init :: "SHA_CTX \<Rightarrow> SHA_CTX" where
  "SHA1_Init ctx = ctx\<lparr>sh_h := initial_hash, sh_size := 0, sh_total := 0\<rparr>"

definition ROTATE_LEFT32 :: "uint32 \<Rightarrow> nat \<Rightarrow> uint32" where
  "ROTATE_LEFT32 a n = push_bit n a OR drop_bit (32 - n) a"

text \<open>The words of the block at the positions \<open>0\<close> to \<open>15\<close>.\<close>

definition block_words :: "byte list \<Rightarrow> uint32 list" where
  "block_words bs = map (\<lambda>i. be_word (take 4 (drop (4 * i) bs))) [0..<16]"

text \<open>One turn of the loop: the schedule \<open>w\<close> is overwritten in place.\<close>

definition sha_turn :: "nat \<Rightarrow> uint32 list \<times> uint32 list \<Rightarrow> uint32 list \<times> uint32 list" where
  "sha_turn i s = (case s of (w, blks) \<Rightarrow>
     let w = (if i \<ge> 16
              then w[i AND 15 := ROTATE_LEFT32 (w ! ((i + 13) AND 15) XOR w ! ((i + 8) AND 15) XOR w ! ((i + 2) AND 15) XOR w ! (i AND 15)) 1]
              else w);
         b0 = blks ! 0; b1 = blks ! 1; b2 = blks ! 2; b3 = blks ! 3; b4 = blks ! 4;
         tmp = (if i < 20 then ROTATE_LEFT32 b0 5 + ((b1 AND b2) OR (NOT b1 AND b3)) + b4 + w ! (i AND 15) + 0x5A827999
                else if i < 40 then ROTATE_LEFT32 b0 5 + (b1 XOR b2 XOR b3) + b4 + w ! (i AND 15) + 0x6ED9EBA1
                else if i < 60 then ROTATE_LEFT32 b0 5 + ((b1 AND b2) OR (b1 AND b3) OR (b2 AND b3)) + b4 + w ! (i AND 15) + 0x8F1BBCDC
                else ROTATE_LEFT32 b0 5 + (b1 XOR b2 XOR b3) + b4 + w ! (i AND 15) + 0xCA62C1D6)
     in (w, [tmp, b0, ROTATE_LEFT32 b1 30, b2, b3]))"

definition SHA1_ProcessBlock :: "SHA_CTX \<Rightarrow> SHA_CTX" where
  "SHA1_ProcessBlock ctx =
     (let (w, blks) = fold sha_turn [0..<80] (block_words (sh_buffer ctx), sh_h ctx)
      in ctx\<lparr>sh_h := map2 (+) (sh_h ctx) blks, sh_buffer := concat (map host_bytes w)\<rparr>)"

text \<open>\<open>memcpy\<close> to position \<open>i\<close> of the buffer.\<close>

definition put_at :: "nat \<Rightarrow> byte list \<Rightarrow> byte list \<Rightarrow> byte list" where
  "put_at i xs bs = take i bs @ xs @ drop (i + length xs) bs"

text \<open>The loop does not end when the buffer is full at the start (\<open>n\<close> is 0), and copies outside the context when
  \<open>size\<close> is more than 64.\<close>

partial_function (option) SHA1_Update :: "SHA_CTX \<Rightarrow> byte list \<Rightarrow> SHA_CTX option" where
  "SHA1_Update ctx data =
     (if data = [] then Some ctx
      else if sh_size ctx > 64 then None
      else
        let n = min (64 - sh_size ctx) (length data);
            ctx = ctx\<lparr>sh_buffer := put_at (sh_size ctx) (take n data) (sh_buffer ctx),
                      sh_size := sh_size ctx + n, sh_total := sh_total ctx + of_nat n\<rparr>;
            ctx = (if sh_size ctx = 64 then (SHA1_ProcessBlock ctx)\<lparr>sh_size := 0\<rparr> else ctx)
        in SHA1_Update ctx (drop n data))"

definition pad :: "byte list" where
  "pad = 0x80 # replicate 63 0"

text \<open>The number of bits is computed in 32 bits, and only then stored in 64.  The results are the code, the bytes
  written to \<open>md\<close>, and the context, whose five words are left as \<open>htobe32\<close> gives them; \<open>md\<close> tells whether the
  pointer is not null.\<close>

definition SHA1_Final :: "bool \<Rightarrow> SHA_CTX \<Rightarrow> (int \<times> byte list option \<times> SHA_CTX) option" where
  "SHA1_Final md ctx =
     (let total = sh_total ctx * 8;
          pad_amount = (if sh_size ctx < 56 then 56 - sh_size ctx else 64 + 56 - sh_size ctx)
      in do {
        ctx \<leftarrow> SHA1_Update ctx (take pad_amount pad);
        let ctx = ctx\<lparr>sh_buffer := put_at 56 (be_bytes 0) (sh_buffer ctx)\<rparr>;
        let ctx = ctx\<lparr>sh_buffer := put_at 60 (be_bytes total) (sh_buffer ctx)\<rparr>;
        let ctx = SHA1_ProcessBlock ctx;
        let ctx = ctx\<lparr>sh_h := map htobe32 (sh_h ctx)\<rparr>;
        Some (if md then (1, Some (concat (map host_bytes (sh_h ctx))), ctx) else (0, None, ctx))
      })"

section \<open>The standard\<close>

text \<open>Numbers are written and read with the most significant byte first: \<open>octets k n\<close> are the \<open>k\<close> bytes of \<open>n\<close>.\<close>

definition octets :: "nat \<Rightarrow> nat \<Rightarrow> byte list" where
  "octets k n = map (\<lambda>j. of_nat (n div 256 ^ (k - 1 - j))) [0..<k]"

definition big_endian :: "byte list \<Rightarrow> uint32" where
  "big_endian bs = of_nat (foldl (\<lambda>n b. 256 * n + unat b) 0 bs)"

definition standard_words :: "byte list \<Rightarrow> uint32 list" where
  "standard_words blk = map (\<lambda>i. big_endian (take 4 (drop (4 * i) blk))) [0..<16]"

fun schedule :: "uint32 list \<Rightarrow> nat \<Rightarrow> uint32" where
  "schedule M t = (if t < 16 then M ! t
     else word_rotl 1 (schedule M (t - 3) XOR schedule M (t - 8) XOR schedule M (t - 14) XOR schedule M (t - 16)))"

declare schedule.simps [simp del]

definition sha_f :: "nat \<Rightarrow> uint32 \<Rightarrow> uint32 \<Rightarrow> uint32 \<Rightarrow> uint32" where
  "sha_f t x y z = (if t < 20 then (x AND y) XOR (NOT x AND z) else if 40 \<le> t \<and> t < 60 then (x AND y) XOR (x AND z) XOR (y AND z)
     else x XOR y XOR z)"

definition sha_K :: "nat \<Rightarrow> uint32" where
  "sha_K t = (if t < 20 then 0x5A827999 else if t < 40 then 0x6ED9EBA1 else if t < 60 then 0x8F1BBCDC else 0xCA62C1D6)"

type_synonym sha_state = "uint32 \<times> uint32 \<times> uint32 \<times> uint32 \<times> uint32"

definition sha_round :: "uint32 list \<Rightarrow> nat \<Rightarrow> sha_state \<Rightarrow> sha_state" where
  "sha_round M t s = (case s of (a, b, c, d, e) \<Rightarrow>
     (word_rotl 5 a + sha_f t b c d + e + sha_K t + schedule M t, a, word_rotl 30 b, c, d))"

definition compress :: "sha_state \<Rightarrow> byte list \<Rightarrow> sha_state" where
  "compress s blk = (case s of (a, b, c, d, e) \<Rightarrow> case fold (sha_round (standard_words blk)) [0..<80] s of (a', b', c', d', e') \<Rightarrow>
     (a + a', b + b', c + c', d + d', e + e'))"

text \<open>Padding to a multiple of 64 bytes; \<open>f\<close> gives the last eight bytes for the length of the message.\<close>

definition padded :: "(nat \<Rightarrow> byte list) \<Rightarrow> byte list \<Rightarrow> byte list" where
  "padded f msg = msg @ 0x80 # replicate ((119 - length msg mod 64) mod 64) 0 @ f (length msg)"

fun blocks64 :: "byte list \<Rightarrow> byte list list" where
  "blocks64 xs = (if xs = [] then [] else take 64 xs # blocks64 (drop 64 xs))"

declare blocks64.simps [simp del]

definition H0 :: sha_state where
  "H0 = (0x67452301, 0xEFCDAB89, 0x98BADCFE, 0x10325476, 0xC3D2E1F0)"

definition state_bytes :: "sha_state \<Rightarrow> byte list" where
  "state_bytes s = (case s of (a, b, c, d, e) \<Rightarrow> concat (map (\<lambda>x. octets 4 (unat x)) [a, b, c, d, e]))"

definition sha1 :: "(nat \<Rightarrow> byte list) \<Rightarrow> byte list \<Rightarrow> byte list" where
  "sha1 f msg = state_bytes (foldl compress H0 (blocks64 (padded f msg)))"

text \<open>The length in bits as a 64-bit number.\<close>

definition bits64 :: "nat \<Rightarrow> byte list" where
  "bits64 n = octets 8 (8 * n)"

section \<open>The order of the bytes\<close>

lemma shift_in: "push_bit 8 v OR ucast b = 256 * v + ucast (b :: byte)" for v :: "uint32"
proof -
  have "push_bit 8 v AND ucast b = 0"
    by (rule bit_word_eqI) (auto simp: bit_simps dest: bit_imp_le_length)
  then have "push_bit 8 v OR ucast b = push_bit 8 v + ucast b" by (simp add: disjunctive_add_eq_or)
  then show ?thesis by (simp add: push_bit_eq_mult)
qed

lemma be_word: "be_word bs = big_endian bs"
proof -
  have "foldl (\<lambda>v b. push_bit 8 v OR ucast b) (of_nat n) bs = (of_nat (foldl (\<lambda>n b. 256 * n + unat b) n bs) :: uint32)" for n
  proof (induction bs arbitrary: n)
    case (Cons b bs)
    have "push_bit 8 (of_nat n) OR ucast b = (of_nat (256 * n + unat b) :: uint32)"
      unfolding shift_in by simp
    then show ?case using Cons [of "256 * n + unat b"] by (simp del: of_nat_add of_nat_mult)
  qed simp
  from this [of 0] show ?thesis by (simp add: be_word_def big_endian_def)
qed

lemma ucast_drop: "ucast (drop_bit m x) = (of_nat (unat x div 2 ^ m) :: byte)" for x :: uint32
proof -
  have "unat (drop_bit m x) = unat x div 2 ^ m" by (simp only: unat_drop_bit_eq) (simp add: drop_bit_eq_div)
  moreover have "ucast y = (of_nat (unat y) :: byte)" for y :: uint32 by simp
  ultimately show ?thesis by metis
qed

lemma be_octets: "be_bytes x = octets 4 (unat x)"
  using ucast_drop [of 24 x] ucast_drop [of 16 x] ucast_drop [of 8 x] ucast_drop [of 0 x]
  by (simp add: be_bytes_def octets_def upt_conv_Cons)

lemma octets_split: "octets 8 n = octets 4 (n div 2 ^ 32) @ octets 4 n"
  by (simp add: octets_def upt_conv_Cons div_mult2_eq [symmetric])

lemma be_bytes_word: "be_bytes (be_word [a, b, c, d]) = [a, b, c, d]"
  unfolding be_bytes_def be_word_def by (simp; intro conjI; rule bit_word_eqI; auto simp: bit_simps dest: bit_imp_le_length)
lemma host_htobe32: "host_bytes (htobe32 x) = be_bytes x"
proof -
  obtain a b c d where b: "be_bytes x = [a, b, c, d]" by (simp add: be_bytes_def)
  show ?thesis by (simp add: host_bytes_def htobe32_def b be_bytes_word)
qed
lemma block_words: "block_words blk = standard_words blk"
  by (simp add: block_words_def standard_words_def be_word)

lemma low_length: "be_bytes 0 @ be_bytes (of_nat n * 8) = octets 8 (8 * n mod 2 ^ 32)"
proof -
  have e: "of_nat n * 8 = (of_nat (8 * n) :: uint32)" by simp
  have "unat (of_nat (8 * n) :: uint32) = 8 * n mod 2 ^ 32" by (simp only: unat_of_nat) simp
  then show ?thesis unfolding octets_split be_octets e by simp
qed

section \<open>One block\<close>

lemma and15: "(n :: nat) AND 15 = n mod 16"
proof -
  have "mask 4 = (15 :: nat)" by (simp add: mask_eq_exp_minus_1)
  then have "n AND 15 = take_bit 4 n" by (simp add: take_bit_eq_mask)
  then show ?thesis by (simp add: take_bit_eq_mod)
qed

lemma rotate: "0 < n \<Longrightarrow> n < 32 \<Longrightarrow> ROTATE_LEFT32 a n = word_rotl n a"
proof (rule bit_word_eqI)
  fix k
  assume n: "0 < n" "n < 32" and k: "k < LENGTH(32)"
  show "bit (ROTATE_LEFT32 a n) k = bit (word_rotl n a) k"
  proof (cases "k < n")
    case True
    then have "(k + (32 - n)) mod 32 = 32 - n + k" using n by simp
    then show ?thesis using True n k by (simp add: ROTATE_LEFT32_def bit_simps bit_word_rotl_iff)
  next
    case False
    then have e: "k + (32 - n) = (k - n) + 32" using n by simp
    have "k - n < 32" using k by simp
    then have "(k + (32 - n)) mod 32 = k - n" unfolding e by simp
    moreover have "\<not> bit a (32 - n + k)" using False n by (intro notI) (auto dest: bit_imp_le_length)
    ultimately show ?thesis using False n k by (simp add: ROTATE_LEFT32_def bit_simps bit_word_rotl_iff)
  qed
qed

lemma choose: "(x AND y) OR (NOT x AND z) = (x AND y) XOR (NOT x AND z)" for x y z :: uint32
  by (rule bit_word_eqI) (auto simp: bit_simps)

lemma majority: "(x AND y) OR (x AND z) OR (y AND z) = (x AND y) XOR (x AND z) XOR (y AND z)" for x y z :: uint32
  by (rule bit_word_eqI) (auto simp: bit_simps)

definition state_list :: "sha_state \<Rightarrow> uint32 list" where
  "state_list s = (case s of (a, b, c, d, e) \<Rightarrow> [a, b, c, d, e])"

text \<open>The array of 16 words always holds the last 16 words of the schedule that were needed.\<close>

definition in_place :: "uint32 list \<Rightarrow> nat \<Rightarrow> uint32 list \<Rightarrow> bool" where
  "in_place M t w \<longleftrightarrow> length w = 16 \<and> (\<forall>j. (j < t \<or> j < 16) \<and> t \<le> j + 16 \<longrightarrow> w ! (j mod 16) = schedule M j)"

lemma sha_turn_round:
  assumes "in_place M t w"
  shows "\<exists>w'. sha_turn t (w, state_list s) = (w', state_list (sha_round M t s)) \<and> in_place M (Suc t) w'"
proof -
  obtain a b c d e where s: "s = (a, b, c, d, e)" by (cases s)
  let ?w = "if t \<ge> 16 then w[t mod 16 := ROTATE_LEFT32 (w ! ((t + 13) mod 16) XOR w ! ((t + 8) mod 16) XOR w ! ((t + 2) mod 16) XOR w ! (t mod 16)) 1] else w"
  have len: "length w = 16" and pl: "\<And>j. (j < t \<or> j < 16) \<Longrightarrow> t \<le> j + 16 \<Longrightarrow> w ! (j mod 16) = schedule M j"
    using assms by (simp_all add: in_place_def)
  have new: "?w ! (t mod 16) = schedule M t"
  proof (cases "t \<ge> 16")
    case True
    have m: "(t + 13) mod 16 = (t - 3) mod 16" "(t + 8) mod 16 = (t - 8) mod 16" "(t + 2) mod 16 = (t - 14) mod 16" "t mod 16 = (t - 16) mod 16"
    proof -
      have "t + 13 = (t - 3) + 16" "t + 8 = (t - 8) + 16" "t + 2 = (t - 14) + 16" "t = (t - 16) + 16" using True by simp_all
      then show "(t + 13) mod 16 = (t - 3) mod 16" "(t + 8) mod 16 = (t - 8) mod 16" "(t + 2) mod 16 = (t - 14) mod 16" "t mod 16 = (t - 16) mod 16"
        by (metis mod_add_self2)+
    qed
    have "w ! ((t - 3) mod 16) = schedule M (t - 3)" "w ! ((t - 8) mod 16) = schedule M (t - 8)"
      "w ! ((t - 14) mod 16) = schedule M (t - 14)" "w ! ((t - 16) mod 16) = schedule M (t - 16)"
      by (rule pl; use True in simp)+
    then show ?thesis using True len unfolding m(1-3) by (simp add: m(4) [symmetric] rotate schedule.simps [of M t])
  next
    case False
    then show ?thesis using pl [of t] by simp
  qed
  have keep: "?w ! (j mod 16) = w ! (j mod 16)" if "j mod 16 \<noteq> t mod 16" for j using that by simp
  have "in_place M (Suc t) ?w"
    unfolding in_place_def
  proof (intro conjI allI impI)
    show "length ?w = 16" using len by simp
    fix j
    assume j: "(j < Suc t \<or> j < 16) \<and> Suc t \<le> j + 16"
    show "?w ! (j mod 16) = schedule M j"
    proof (cases "j = t")
      case True
      then show ?thesis using new by simp
    next
      case False
      have old: "w ! (j mod 16) = schedule M j" using j False by (intro pl) auto
      show ?thesis
      proof (cases "j mod 16 = t mod 16")
        case True
        have "t < 16"
        proof (rule ccontr)
          assume "\<not> t < 16"
          then have "j < t" "t - j < 16" "0 < t - j" using j False by auto
          moreover have "16 dvd t - j" using True \<open>j < t\<close> by (metis mod_eq_dvd_iff_nat less_imp_le)
          ultimately show False by (simp add: nat_dvd_not_less)
        qed
        then show ?thesis using old by simp
      qed (use keep old in simp)
    qed
  qed
  moreover have "sha_turn t (w, state_list s) = (?w, state_list (sha_round M t s))"
  proof -
    define w' where "w' = ?w"
    have v: "w' ! (t mod 16) = schedule M t" unfolding w'_def by (rule new)
    have "sha_turn t (w, state_list s) = (w', state_list (ROTATE_LEFT32 a 5 + sha_f t b c d + e + w' ! (t mod 16) + sha_K t, a, ROTATE_LEFT32 b 30, c, d))"
      unfolding sha_turn_def and15 Let_def prod.case w'_def [symmetric] s state_list_def
      by (simp add: sha_f_def sha_K_def choose majority)
    then show ?thesis unfolding w'_def [symmetric] v by (simp add: sha_round_def s rotate ac_simps)
  qed
  ultimately show ?thesis by blast
qed

lemma sha_turns:
  assumes "length M = 16"
  shows "\<exists>w. fold sha_turn [0..<n] (M, state_list s) = (w, state_list (fold (sha_round M) [0..<n] s)) \<and> in_place M n w"
proof (induction n)
  case 0
  then show ?case using assms by (simp add: in_place_def schedule.simps)
next
  case (Suc n)
  then show ?case using sha_turn_round by fastforce
qed

lemma process_block:
  assumes "sh_h ctx = state_list s"
  shows "sh_h (SHA1_ProcessBlock ctx) = state_list (compress s (sh_buffer ctx))" "length (sh_buffer (SHA1_ProcessBlock ctx)) = 64"
    "sh_size (SHA1_ProcessBlock ctx) = sh_size ctx" "sh_total (SHA1_ProcessBlock ctx) = sh_total ctx"
proof -
  have "length (block_words (sh_buffer ctx)) = 16" by (simp add: block_words_def)
  from sha_turns [OF this, of 80 s] obtain w where
    w: "fold sha_turn [0..<80] (block_words (sh_buffer ctx), state_list s) = (w, state_list (fold (sha_round (block_words (sh_buffer ctx))) [0..<80] s))"
      "in_place (block_words (sh_buffer ctx)) 80 w" by blast
  obtain a b c d e where s: "s = (a, b, c, d, e)" by (cases s)
  obtain a' b' c' d' e' where s': "fold (sha_round (block_words (sh_buffer ctx))) [0..<80] s = (a', b', c', d', e')" 
    by (cases "fold (sha_round (block_words (sh_buffer ctx))) [0..<80] s")
  show "sh_h (SHA1_ProcessBlock ctx) = state_list (compress s (sh_buffer ctx))"
    unfolding SHA1_ProcessBlock_def Let_def assms w(1) by (simp add: compress_def s' s [symmetric] flip: block_words) (simp add: s state_list_def)
  have "length (concat (map host_bytes xs)) = 4 * length xs" for xs by (induction xs) (simp_all add: host_bytes_def be_bytes_def)
  then show "length (sh_buffer (SHA1_ProcessBlock ctx)) = 64"
    using w(2) unfolding SHA1_ProcessBlock_def Let_def assms w(1) by (simp add: in_place_def)
  show "sh_size (SHA1_ProcessBlock ctx) = sh_size ctx" "sh_total (SHA1_ProcessBlock ctx) = sh_total ctx"
    unfolding SHA1_ProcessBlock_def Let_def assms w(1) by simp_all
qed

section \<open>Updating and finishing\<close>

text \<open>The context has digested \<open>msg\<close>: its full blocks are in the hash, the rest is in the buffer.\<close>

definition digested :: "SHA_CTX \<Rightarrow> byte list \<Rightarrow> bool" where
  "digested ctx msg \<longleftrightarrow> (\<exists>bs rest. msg = concat bs @ rest \<and> (\<forall>b\<in>set bs. length b = 64) \<and> length rest < 64 \<and>
     sh_h ctx = state_list (foldl compress H0 bs) \<and> sh_size ctx = length rest \<and> take (length rest) (sh_buffer ctx) = rest \<and>
     length (sh_buffer ctx) = 64 \<and> sh_total ctx = of_nat (length msg))"

lemma put_at_length: "i + length xs \<le> length bs \<Longrightarrow> length (put_at i xs bs) = length bs"
  by (simp add: put_at_def)

lemma put_at_take: "i \<le> length bs \<Longrightarrow> take (i + length xs) (put_at i xs bs) = take i bs @ xs"
  by (simp add: put_at_def)

lemma update_step:
  assumes d: "digested ctx msg" and ne: "data \<noteq> []"
  obtains n ctx' where "0 < n" "n \<le> length data" "digested ctx' (msg @ take n data)" "SHA1_Update ctx data = SHA1_Update ctx' (drop n data)"
proof -
  obtain bs rest where r: "msg = concat bs @ rest" "\<forall>b\<in>set bs. length b = 64" "length rest < 64"
     "sh_h ctx = state_list (foldl compress H0 bs)" "sh_size ctx = length rest" "take (length rest) (sh_buffer ctx) = rest"
     "length (sh_buffer ctx) = 64" "sh_total ctx = of_nat (length msg)" using d unfolding digested_def by blast
  define n where "n = min (64 - length rest) (length data)"
  let ?x = "take n data"
  let ?c = "ctx\<lparr>sh_buffer := put_at (length rest) ?x (sh_buffer ctx), sh_size := length rest + n, sh_total := sh_total ctx + of_nat n\<rparr>"
  let ?c' = "if length rest + n = 64 then (SHA1_ProcessBlock ?c)\<lparr>sh_size := 0\<rparr> else ?c"
  have n: "0 < n" "n \<le> length data" "length ?x = n" "length rest + n \<le> 64" using r(3) ne by (auto simp: n_def)
  have tk: "take (length rest + n) (put_at (length rest) ?x (sh_buffer ctx)) = rest @ ?x"
    using put_at_take [of "length rest" "sh_buffer ctx" ?x] r(3,6,7) n(3) by simp
  have ln: "length (put_at (length rest) ?x (sh_buffer ctx)) = 64" using put_at_length [of "length rest" ?x "sh_buffer ctx"] r(7) n by simp
  have tot: "sh_total ctx + of_nat n = of_nat (length (msg @ ?x))" using r(8) n(3) by simp
  have "digested ?c' (msg @ ?x)"
  proof (cases "length rest + n = 64")
    case True
    have full: "put_at (length rest) ?x (sh_buffer ctx) = rest @ ?x" using tk ln True by simp
    note pb = process_block [of ?c "foldl compress H0 bs"]
    show ?thesis
      unfolding digested_def
    proof (intro exI [of _ "bs @ [rest @ ?x]"] exI [of _ "[]"] conjI)
      show "\<forall>b\<in>set (bs @ [rest @ ?x]). length b = 64" using r(2) n True by simp
      show "sh_h ?c' = state_list (foldl compress H0 (bs @ [rest @ ?x]))" using pb(1) r(4) True full by simp
      show "length (sh_buffer ?c') = 64" using pb(2) r(4) True by simp
      show "sh_total ?c' = of_nat (length (msg @ ?x))" using pb(4) r(4) True tot by simp
    qed (use True r(1) in simp_all)
  next
    case False
    then have lt: "length (rest @ ?x) < 64" using n by simp
    show ?thesis
      unfolding digested_def
      by (rule exI [of _ bs], rule exI [of _ "rest @ ?x"]) (use lt False r n tk ln tot in simp)
  qed
  moreover have "SHA1_Update ctx data = SHA1_Update ?c' (drop n data)"
    by (subst SHA1_Update.simps) (use ne r(3,5) in \<open>simp add: Let_def n_def\<close>)
  ultimately show thesis using n by (intro that [of n ?c'])
qed

lemma update_digests:
  "digested ctx msg \<Longrightarrow> \<exists>ctx'. SHA1_Update ctx data = Some ctx' \<and> digested ctx' (msg @ data)"
proof (induction "length data" arbitrary: ctx msg data rule: less_induct)
  case less
  show ?case
  proof (cases "data = []")
    case True
    then show ?thesis using less.prems by (simp add: SHA1_Update.simps)
  next
    case False
    obtain n ctx' where n: "0 < n" "n \<le> length data" "digested ctx' (msg @ take n data)" "SHA1_Update ctx data = SHA1_Update ctx' (drop n data)"
      by (rule update_step [OF less.prems False])
    have "length (drop n data) < length data" using n False by simp
    from less.hyps [OF this n(3)] show ?thesis using n(4) by simp
  qed
qed

lemma blocks64_concat:
  assumes "\<forall>b\<in>set bs. length b = 64"
  shows "blocks64 (concat bs) = bs"
  using assms
proof (induction bs)
  case Nil
  then show ?case by (simp add: blocks64.simps)
next
  case (Cons b bs)
  then have "b \<noteq> []" by auto
  then show ?case using Cons by (simp add: blocks64.simps [of "b @ concat bs"])
qed

text \<open>The padding that \<open>SHA1_Final\<close> chooses, for \<open>m\<close> bytes in the buffer.\<close>

definition pad_length :: "nat \<Rightarrow> nat" where
  "pad_length m = (if m < 56 then 56 - m else 64 + 56 - m)"

lemma pad_length:
  assumes "m < 64"
  shows "0 < pad_length m" "pad_length m \<le> 64" "pad_length m - 1 = (119 - m) mod 64" "(m + pad_length m) mod 64 = 56"
proof -
  have "\<forall>m\<in>set [0..<64]. 0 < pad_length m \<and> pad_length m \<le> 64 \<and> pad_length m - 1 = (119 - m) mod 64 \<and> (m + pad_length m) mod 64 = 56"
    by code_simp
  then show "0 < pad_length m" "pad_length m \<le> 64" "pad_length m - 1 = (119 - m) mod 64" "(m + pad_length m) mod 64 = 56"
    using assms by simp_all
qed

lemma take_pad: "0 < k \<Longrightarrow> k \<le> 64 \<Longrightarrow> take k pad = 0x80 # replicate (k - 1) 0"
  by (cases k) (simp_all add: pad_def take_replicate min_def)

lemma length_pad [simp]: "length pad = 64"
  by (simp add: pad_def)

lemma length_be_bytes [simp]: "length (be_bytes x) = 4"
  by (simp add: be_bytes_def)

lemma length_blocks: "\<forall>b\<in>set bs. length b = 64 \<Longrightarrow> length (concat bs) = 64 * length bs"
  by (induction bs) simp_all

lemma digested_size:
  assumes "digested ctx msg"
  shows "sh_size ctx = length msg mod 64" "sh_total ctx = of_nat (length msg)"
proof -
  obtain bs rest where r: "msg = concat bs @ rest" "\<forall>b\<in>set bs. length b = 64" "length rest < 64" "sh_size ctx = length rest"
    "sh_total ctx = of_nat (length msg)" using assms unfolding digested_def by blast
  have "length msg = 64 * length bs + length rest" unfolding r(1) using length_blocks [OF r(2)] by simp
  then show "sh_size ctx = length msg mod 64" "sh_total ctx = of_nat (length msg)" using r(3-5) by simp_all
qed

text \<open>A length field at the end of the last block.\<close>

lemma put_length:
  assumes "length b = 64" "take 56 b = rest" "length x = 4" "length y = 4"
  shows "put_at 60 y (put_at 56 x b) = rest @ x @ y"
proof -
  have "put_at 56 x b = rest @ x @ drop 60 b" using assms by (simp add: put_at_def)
  moreover have "length rest = 56" using assms(1,2) by auto
  ultimately show ?thesis using assms by (simp add: put_at_def)
qed

lemma final_digest:
  assumes d: "digested ctx msg"
  shows "\<exists>ctx'. \<forall>md. SHA1_Final md ctx = Some (if md then (1, Some (sha1 (\<lambda>n. octets 8 (8 * n mod 2 ^ 32)) msg), ctx') else (0, None, ctx'))"
proof -
  let ?len = "be_bytes 0 @ be_bytes (of_nat (length msg) * 8)"
  note sz = digested_size [OF d]
  define k where "k = pad_length (length msg mod 64)"
  have k: "0 < k" "k \<le> 64" "k - 1 = (119 - length msg mod 64) mod 64" "(length msg mod 64 + k) mod 64 = 56"
    unfolding k_def by (rule pad_length; simp)+
  note pd = take_pad [OF k(1,2)]
  obtain c1 where c1: "SHA1_Update ctx (take k pad) = Some c1" "digested c1 (msg @ take k pad)"
    using update_digests [OF d] by blast
  obtain bs rest where r: "msg @ take k pad = concat bs @ rest" "\<forall>b\<in>set bs. length b = 64"
     "sh_h c1 = state_list (foldl compress H0 bs)" "sh_size c1 = length rest" "take (length rest) (sh_buffer c1) = rest"
     "length (sh_buffer c1) = 64" using c1(2) unfolding digested_def by blast
  have "length (msg @ take k pad) = length msg + k" using k(2) by simp
  then have "length rest = 56" using digested_size(1) [OF c1(2)] r(4) k(4) by (simp add: mod_simps)
  then have lr: "length rest = 56" "take 56 (sh_buffer c1) = rest" using r(5) by simp_all
  let ?b = "put_at 60 (be_bytes (sh_total ctx * 8)) (put_at 56 (be_bytes 0) (sh_buffer c1))"
  have b: "?b = rest @ ?len" using put_length [OF r(6) lr(2)] by (simp add: sz(2))
  have pm: "padded (\<lambda>n. be_bytes 0 @ be_bytes (of_nat n * 8)) msg = concat (bs @ [rest @ ?len])"
    using r(1) by (simp add: padded_def pd k(3) [symmetric])
  have bl: "blocks64 (concat (bs @ [rest @ ?len])) = bs @ [rest @ ?len]"
    by (rule blocks64_concat) (use r(2) lr(1) in simp)
  let ?c = "c1\<lparr>sh_buffer := ?b\<rparr>"
  have h: "sh_h (SHA1_ProcessBlock ?c) = state_list (compress (foldl compress H0 bs) (rest @ ?len))"
    using process_block(1) [of ?c "foldl compress H0 bs"] r(3) unfolding b by simp
  have sb: "concat (map (\<lambda>x. host_bytes (htobe32 x)) (state_list s)) = state_bytes s" for s
    by (cases s) (simp add: state_list_def state_bytes_def host_htobe32 be_octets)
  let ?f = "SHA1_ProcessBlock ?c" let ?g = "?f\<lparr>sh_h := map htobe32 (sh_h ?f)\<rparr>"
  have "SHA1_Final md ctx = Some (if md then (1, Some (concat (map (\<lambda>x. host_bytes (htobe32 x)) (sh_h ?f))), ?g) else (0, None, ?g))" for md
    unfolding SHA1_Final_def Let_def sz(1) pad_length_def [symmetric] k_def [symmetric] c1(1) by (simp add: comp_def)
  moreover have "concat (map (\<lambda>x. host_bytes (htobe32 x)) (sh_h ?f)) = sha1 (\<lambda>n. octets 8 (8 * n mod 2 ^ 32)) msg"
    unfolding h sb sha1_def pm [unfolded low_length] bl [unfolded low_length] by (simp add: low_length)
  ultimately show ?thesis by (intro exI [of _ ?g] allI) metis
qed

text \<open>Feeding the pieces of a message one after the other.\<close>

fun update_all :: "SHA_CTX \<Rightarrow> byte list list \<Rightarrow> SHA_CTX option" where
  "update_all ctx [] = Some ctx"
| "update_all ctx (d # ds) = SHA1_Update ctx d \<bind> (\<lambda>ctx. update_all ctx ds)"

lemma update_all_digests:
  "digested ctx msg \<Longrightarrow> \<exists>ctx'. update_all ctx ds = Some ctx' \<and> digested ctx' (msg @ concat ds)"
proof (induction ds arbitrary: ctx msg)
  case (Cons d ds)
  obtain c1 where "SHA1_Update ctx d = Some c1" "digested c1 (msg @ d)" using update_digests [OF Cons.prems] by blast
  with Cons.IH [of c1 "msg @ d"] show ?case by simp
qed simp

lemma init_digested: "length (sh_buffer ctx) = 64 \<Longrightarrow> digested (SHA1_Init ctx) []"
  unfolding digested_def
  by (intro exI [of _ "[]"]) (simp add: SHA1_Init_def initial_hash_def state_list_def H0_def)

lemma short_length: "n < 2 ^ 29 \<Longrightarrow> bits64 n = octets 8 (8 * n mod 2 ^ 32)"
  by (simp add: bits64_def)

text \<open>C35: The digest.  However a message is cut into the pieces that \<open>SHA1_Update\<close> is called with, every call ends,
  and for a message of less than 2 to the 29 bytes \<open>SHA1_Final\<close> gives the SHA-1 digest that the standard defines
  for the whole message, whatever the buffer held before \<open>SHA1_Init\<close>.  A longer message gets the digest
  that goes with the low 32 bits of its length in bits.  Called with a null pointer, \<open>SHA1_Final\<close> writes no digest,
  leaves the context the same, and says so with the code 0.\<close>

theorem SHA1_standard:
  assumes "length (sh_buffer ctx) = 64"
  shows "\<exists>ctx' ctx'' md. update_all (SHA1_Init ctx) ds = Some ctx' \<and> SHA1_Final True ctx' = Some (1, Some md, ctx'') \<and>
    SHA1_Final False ctx' = Some (0, None, ctx'') \<and>
    md = sha1 (\<lambda>n. octets 8 (8 * n mod 2 ^ 32)) (concat ds) \<and>
    (length (concat ds) < 2 ^ 29 \<longrightarrow> md = sha1 bits64 (concat ds))"
proof -
  let ?md = "sha1 (\<lambda>n. octets 8 (8 * n mod 2 ^ 32)) (concat ds)"
  obtain ctx' where u: "update_all (SHA1_Init ctx) ds = Some ctx'" "digested ctx' (concat ds)"
    using update_all_digests [OF init_digested [OF assms], of ds] by auto
  obtain c where c: "\<forall>md. SHA1_Final md ctx' = Some (if md then (1, Some ?md, c) else (0, None, c))"
    using final_digest [OF u(2)] by blast
  have "sha1 bits64 (concat ds) = ?md" if "length (concat ds) < 2 ^ 29"
    unfolding sha1_def padded_def short_length [OF that] ..
  then show ?thesis using u(1) c by (intro exI [of _ ctx'] exI [of _ c] exI [of _ ?md]) simp
qed

theorem SHA1_standard_witness:
  "\<exists>ctx' ctx''. update_all (SHA1_Init \<lparr>sh_h = [], sh_buffer = replicate 64 7, sh_size = 99, sh_total = 5\<rparr>) [[97], [], [98, 99]] = Some ctx' \<and>
     SHA1_Final True ctx' = Some (1, Some (sha1 bits64 [97, 98, 99]), ctx'')"
  using SHA1_standard [of "\<lparr>sh_h = [], sh_buffer = replicate 64 7, sh_size = 99, sh_total = 5\<rparr>" "[[97], [], [98, 99]]"] by auto

end
