(* ===== verification/Utf8.thy ===== *)
theory Utf8
  imports Prelude
begin

text \<open>
  The validation of UTF-8 strings in \<^verbatim>\<open>src/src/utils/utf-8.c\<close>, and that it accepts exactly the
  encodings of Unicode scalar values.
\<close>

unbundle bit_operations_syntax

section \<open>The validator\<close>

text \<open>The table \<open>valid_ranges\<close>: for each row the limits of the bytes, as many as its length says.  The bytes
  are compared as signed or unsigned characters, which gives the same order inside a row.\<close>

definition valid_ranges :: "(byte \<times> byte) list list" where
  "valid_ranges =
     [[(0x00, 0x7F)],
      [(0xC2, 0xDF), (0x80, 0xBF)],
      [(0xE0, 0xE0), (0xA0, 0xBF), (0x80, 0xBF)],
      [(0xE1, 0xEC), (0x80, 0xBF), (0x80, 0xBF)],
      [(0xED, 0xED), (0x80, 0x9F), (0x80, 0xBF)],
      [(0xEE, 0xEF), (0x80, 0xBF), (0x80, 0xBF)],
      [(0xF0, 0xF0), (0x90, 0xBF), (0x80, 0xBF), (0x80, 0xBF)],
      [(0xF1, 0xF3), (0x80, 0xBF), (0x80, 0xBF), (0x80, 0xBF)],
      [(0xF4, 0xF4), (0x80, 0x8F), (0x80, 0xBF), (0x80, 0xBF)]]"

text \<open>\<open>char\<close> is signed on the platforms the client is built for.\<close>

definition in_range :: "byte \<Rightarrow> byte \<times> byte \<Rightarrow> bool" where
  "in_range b r \<longleftrightarrow> \<not> (sint b < sint (fst r) \<or> sint b > sint (snd r))"

text \<open>The loop over the bytes of one row.\<close>

fun row_matches :: "byte list \<Rightarrow> (byte \<times> byte) list \<Rightarrow> bool" where
  "row_matches data [] = True"
| "row_matches [] (r # rs) = False"
| "row_matches (b # data) (r # rs) = (if in_range b r then row_matches data rs else False)"

definition char_length :: "byte \<Rightarrow> nat" where
  "char_length c =
     (if c AND 128 = 0 then 1 else if c AND 0xF0 = 0xF0 then 4 else if c AND 0xE0 = 0xE0 then 3 else 2)"

text \<open>\<open>data\<close> are the \<open>len\<close> bytes from the current position on; the result is what follows the character, or
  null.  A string without bytes is not given to this function.\<close>

definition UTF8_char_validate :: "byte list \<Rightarrow> byte list option" where
  "UTF8_char_validate data =
     (case data of
        [] \<Rightarrow> None
      | c # _ \<Rightarrow>
          let charlen = char_length c in
          if charlen > length data then None
          else if \<exists>row\<in>set valid_ranges. length row = charlen \<and> row_matches data row then Some (drop charlen data)
          else None)"

lemma UTF8_char_validate_less: "UTF8_char_validate data = Some rest \<Longrightarrow> length rest < length data"
  by (auto simp: UTF8_char_validate_def char_length_def Let_def split: list.splits if_splits)

text \<open>The loop of \<open>UTF8_validate\<close>, with what is left of the string or null.\<close>

function utf8_loop :: "byte list option \<Rightarrow> byte list option" where
  "utf8_loop None = None"
| "utf8_loop (Some []) = Some []"
| "utf8_loop (Some (c # cs)) = utf8_loop (UTF8_char_validate (c # cs))"
  by pat_completeness auto

termination utf8_loop
proof (relation "measure (\<lambda>x. case x of None \<Rightarrow> 0 | Some data \<Rightarrow> Suc (length data))", goal_cases)
  case (2 c cs)
  then show ?case using UTF8_char_validate_less [of "c # cs"] by (cases "UTF8_char_validate (c # cs)") auto
qed simp

definition UTF8_validate :: "byte list option \<Rightarrow> bool" where
  "UTF8_validate data =
     (case data of
        None \<Rightarrow> True
      | Some data \<Rightarrow> if data = [] then True else utf8_loop (UTF8_char_validate data) \<noteq> None)"

text \<open>The argument is the null pointer or the bytes of the string before its end.\<close>

definition UTF8_validateString :: "byte list option \<Rightarrow> bool" where
  "UTF8_validateString string = (case string of None \<Rightarrow> False | Some s \<Rightarrow> UTF8_validate (Some s))"

section \<open>The encoding of Unicode\<close>

definition scalar_value :: "nat \<Rightarrow> bool" where
  "scalar_value u \<longleftrightarrow> u < 0xD800 \<or> 0xE000 \<le> u \<and> u \<le> 0x10FFFF"

definition utf8_encode :: "nat \<Rightarrow> nat list" where
  "utf8_encode u =
     (if u < 0x80 then [u]
      else if u < 0x800 then [0xC0 + u div 64, 0x80 + u mod 64]
      else if u < 0x10000 then [0xE0 + u div 4096, 0x80 + u div 64 mod 64, 0x80 + u mod 64]
      else [0xF0 + u div 262144, 0x80 + u div 4096 mod 64, 0x80 + u div 64 mod 64, 0x80 + u mod 64])"

section \<open>One character\<close>

text \<open>The tests of the code read off the value of a byte.\<close>

lemma unat_byte: "unat (b :: byte) < 256"
  using unsigned_less [of b, where ?'a = nat] by simp

lemma sint_byte: "sint (b :: byte) = (if unat b < 128 then int (unat b) else int (unat b) - 256)"
proof -
  define u where "u = uint b"
  have u: "0 \<le> u" "u < 256" unfolding u_def using uint_lt2p [of b] by simp_all
  have s: "sint b = (u + 128) mod 256 - 128"
    by (simp add: u_def sint_uint signed_take_bit_eq_take_bit_shift take_bit_eq_mod)
  have "(u + 128) mod 256 = (if u < 128 then u + 128 else u - 128)"
  proof (cases "u < 128")
    case False
    have "(u - 128 + 256) mod 256 = (u - 128) mod 256" by (rule mod_add_self2)
    then show ?thesis using u False by (simp add: mod_pos_pos_trivial add.commute)
  qed (use u in \<open>simp add: mod_pos_pos_trivial\<close>)
  moreover have "int (unat b) = u" by (simp add: u_def)
  then have "unat b < 128 \<longleftrightarrow> u < 128" "int (unat b) = u" by linarith+
  ultimately show ?thesis unfolding s by (simp only: if_distrib) simp
qed

lemma byte_masks: "n < 256 \<Longrightarrow> n AND 240 = 16 * (n div 16)" "n < 256 \<Longrightarrow> n AND 224 = 32 * (n div 32)" "n < 256 \<Longrightarrow> n AND 128 = 128 * (n div 128)" for n :: nat
proof -
  have *: "n AND (push_bit k (mask (8 - k))) = push_bit k (drop_bit k n)" if "n < 256" "k \<le> 8" for k
  proof (rule bit_eqI)
    fix m
    have high: "\<not> bit n m" if "8 \<le> m"
    proof -
      have "n < 2 ^ m" using \<open>n < 256\<close> power_increasing [OF that, of "2::nat"] by simp
      then show ?thesis by (simp add: bit_iff_odd)
    qed
    then show "bit (n AND (push_bit k (mask (8 - k)))) m = bit (push_bit k (drop_bit k n)) m"
      using that(2) high by (cases "8 \<le> m") (auto simp: bit_simps not_le less_diff_conv2 diff_less_mono)
  qed
  show "n < 256 \<Longrightarrow> n AND 240 = 16 * (n div 16)" using *[of 4] by (simp add: mask_eq_exp_minus_1 push_bit_eq_mult drop_bit_eq_div mult.commute)
  show "n < 256 \<Longrightarrow> n AND 224 = 32 * (n div 32)" using *[of 5] by (simp add: mask_eq_exp_minus_1 push_bit_eq_mult drop_bit_eq_div mult.commute)
  show "n < 256 \<Longrightarrow> n AND 128 = 128 * (n div 128)" using *[of 7] by (simp add: mask_eq_exp_minus_1 push_bit_eq_mult drop_bit_eq_div mult.commute)
qed

lemma char_length_unat:
  "char_length c = (if unat c < 128 then 1 else if unat c < 224 then 2 else if unat c < 240 then 3 else 4)"
proof -
  have n: "unat c < 256" by (rule unat_byte)
  have "c AND 128 = 0 \<longleftrightarrow> unat c < 128" "c AND 0xF0 = 0xF0 \<longleftrightarrow> 240 \<le> unat c" "c AND 0xE0 = 0xE0 \<longleftrightarrow> 224 \<le> unat c"
    using n by (auto simp: word_unat_eq_iff unsigned_and_eq byte_masks div_eq_0_iff)
  then show ?thesis by (simp add: char_length_def)
qed

lemma signed_order:
  assumes "128 \<le> l \<or> u < 128" "l \<le> u" "u < 256" "b < 256"
  shows "(if l < 128 then int l else int l - 256) \<le> (if b < 128 then int b else int b - 256) \<and>
      (if b < 128 then int b else int b - 256) \<le> (if u < 128 then int u else int u - 256) \<longleftrightarrow> l \<le> b \<and> b \<le> (u :: nat)"
  using assms by (cases "l < 128"; cases "b < 128"; cases "u < 128") auto

lemma in_range_unat:
  "in_range b (l, u) \<longleftrightarrow> unat l \<le> unat b \<and> unat b \<le> unat u" if "unat l \<ge> 128 \<or> unat u < 128" "unat l \<le> unat u"
  unfolding in_range_def sint_byte fst_conv snd_conv de_Morgan_disj not_less by (rule signed_order [OF that unat_byte unat_byte])

text \<open>\<open>well_formed_char\<close> is the table of well-formed byte sequences of the Unicode standard, on byte
  values.\<close>

abbreviation (input) trail :: "nat \<Rightarrow> bool" where "trail b \<equiv> 0x80 \<le> b \<and> b \<le> 0xBF"

fun well_formed_char :: "nat list \<Rightarrow> bool" where
  "well_formed_char [a] = (a \<le> 0x7F)"
| "well_formed_char [a, b] = (0xC2 \<le> a \<and> a \<le> 0xDF \<and> trail b)"
| "well_formed_char [a, b, c] = (0xE0 \<le> a \<and> a \<le> 0xEF \<and> trail b \<and> trail c
      \<and> (a = 0xE0 \<longrightarrow> 0xA0 \<le> b) \<and> (a = 0xED \<longrightarrow> b \<le> 0x9F))"
| "well_formed_char [a, b, c, d] = (0xF0 \<le> a \<and> a \<le> 0xF4 \<and> trail b \<and> trail c \<and> trail d
      \<and> (a = 0xF0 \<longrightarrow> 0x90 \<le> b) \<and> (a = 0xF4 \<longrightarrow> b \<le> 0x8F))"
| "well_formed_char _ = False"

lemma row_matches_unat:
  "row_matches data ((l, u) # rs) \<longleftrightarrow>
     (\<exists>b bs. data = b # bs \<and> in_range b (l, u) \<and> row_matches bs rs)"
  by (cases data) simp_all

lemma rows_of_length:
  "(\<exists>row\<in>set valid_ranges. length row = n \<and> row_matches data row) \<longleftrightarrow> well_formed_char (map unat (take n data))"
  if "n = char_length (hd data)" "n \<le> length data"
proof -
  have "0 < n" "n \<le> 4" using that(1) by (auto simp: char_length_unat)
  then consider "n = 1" | "n = 2" | "n = 3" | "n = 4" by linarith
  then show ?thesis
  proof cases
    case 1
    with that obtain a cs where "data = a # cs" by (cases data) auto
    with 1 show ?thesis by (simp add: valid_ranges_def in_range_unat)
  next
    case 2
    with that obtain a b cs where "data = a # b # cs" by (cases data; cases "tl data") auto
    with 2 show ?thesis by (simp add: valid_ranges_def in_range_unat) arith
  next
    case 3
    with that obtain a b c cs where "data = a # b # c # cs" by (cases data; cases "tl data"; cases "tl (tl data)") auto
    with 3 show ?thesis by (simp add: valid_ranges_def in_range_unat) arith
  next
    case 4
    with that obtain a b c d cs where "data = a # b # c # d # cs"
      by (cases data; cases "tl data"; cases "tl (tl data)"; cases "tl (tl (tl data))") auto
    with 4 show ?thesis by (simp add: valid_ranges_def in_range_unat) linarith
  qed
qed

lemma well_formed_length: "well_formed_char (map unat bs) \<Longrightarrow> length bs = char_length (hd bs) \<and> bs \<noteq> []"
  by (cases "map unat bs" rule: well_formed_char.cases) (auto simp: char_length_unat)

lemma UTF8_char_validate_iff:
  "UTF8_char_validate data = Some rest \<longleftrightarrow> (\<exists>bs. data = bs @ rest \<and> well_formed_char (map unat bs))"
proof
  assume v: "UTF8_char_validate data = Some rest"
  then obtain c cs where d: "data = c # cs" by (auto simp: UTF8_char_validate_def split: list.splits)
  let ?n = "char_length c"
  from v d have "?n \<le> length data" "\<exists>row\<in>set valid_ranges. length row = ?n \<and> row_matches data row"
    "rest = drop ?n data" by (auto simp: UTF8_char_validate_def Let_def split: if_splits)
  with rows_of_length [of ?n data] d have "data = take ?n data @ rest \<and> well_formed_char (map unat (take ?n data))" by simp
  then show "\<exists>bs. data = bs @ rest \<and> well_formed_char (map unat bs)" by blast
next
  assume "\<exists>bs. data = bs @ rest \<and> well_formed_char (map unat bs)"
  then obtain bs where d: "data = bs @ rest" and w: "well_formed_char (map unat bs)" by blast
  from well_formed_length [OF w] obtain c cs where bs: "bs = c # cs" "length bs = char_length c" by (cases bs) auto
  have t: "take (char_length c) data = bs" by (simp add: d bs(2) [symmetric])
  have "\<exists>row\<in>set valid_ranges. length row = char_length c \<and> row_matches data row"
    using rows_of_length [of "char_length c" data] d w bs(1) t by (simp add: bs(2) [symmetric])
  then show "UTF8_char_validate data = Some rest"
    using d bs by (simp add: UTF8_char_validate_def bs(2) [symmetric])
qed

text \<open>A number and its digits to the base 64.\<close>

lemma digits64:
  assumes "z < 64" "y < 64" "x < 64" "u = ((h * 64 + z) * 64 + y) * 64 + (x :: nat)"
  shows "u mod 64 = x" "u div 64 = (h * 64 + z) * 64 + y" "u div 64 mod 64 = y" "u div 4096 = h * 64 + z"
    "u div 4096 mod 64 = z" "u div 262144 = h"
proof -
  have *: "(q * 64 + r) div 64 = q" "(q * 64 + r) mod 64 = r" if "r < 64" for q r :: nat using that by simp_all
  show d: "u mod 64 = x" "u div 64 = (h * 64 + z) * 64 + y" unfolding assms(4) by (rule * [OF assms(3)])+
  then show "u div 64 mod 64 = y" by (simp only: * [OF assms(2)])
  have "u div 4096 = u div 64 div 64" by (simp add: div_mult2_eq [symmetric])
  then show e: "u div 4096 = h * 64 + z" by (simp only: d * [OF assms(2)])
  then show "u div 4096 mod 64 = z" using assms(1) by simp
  have "u div 262144 = u div 4096 div 64" by (simp add: div_mult2_eq [symmetric])
  then show "u div 262144 = h" using e assms(1) by simp
qed

lemma ex_digits64:
  obtains h z y x where "z < 64" "y < 64" "x < 64" "u = ((h * 64 + z) * 64 + y) * 64 + (x :: nat)"
proof
  show "u = ((u div 64 div 64 div 64 * 64 + u div 64 div 64 mod 64) * 64 + u div 64 mod 64) * 64 + u mod 64"
    by (simp only: div_mult_mod_eq)
qed simp_all

lemma less_digit: "b < 64 \<Longrightarrow> c \<le> 64 \<Longrightarrow> a * 64 + b < c \<longleftrightarrow> a = 0 \<and> b < c" for a b c :: nat
  by (cases a) auto

text \<open>The encoding of a value given by its digits.\<close>

lemma utf8_encode_digits:
  assumes "z < 64" "y < 64" "x < 64" "u = ((h * 64 + z) * 64 + y) * 64 + (x :: nat)"
  shows "utf8_encode u =
     (if h = 0 \<and> z = 0 \<and> y < 2 then [y * 64 + x]
      else if h = 0 \<and> z = 0 \<and> y < 32 then [0xC0 + y, 0x80 + x]
      else if h = 0 \<and> z < 16 then [0xE0 + z, 0x80 + y, 0x80 + x]
      else [0xF0 + h, 0x80 + z, 0x80 + y, 0x80 + x])"
proof -
  have "u < 0x80 \<longleftrightarrow> u div 64 < 2" "u < 0x800 \<longleftrightarrow> u div 64 < 32" "u < 0x10000 \<longleftrightarrow> u div 4096 < 16"
    by (simp_all add: div_less_iff_less_mult)
  then have "u < 0x80 \<longleftrightarrow> h = 0 \<and> z = 0 \<and> y < 2" "u < 0x800 \<longleftrightarrow> h = 0 \<and> z = 0 \<and> y < 32"
    "u < 0x10000 \<longleftrightarrow> h = 0 \<and> z < 16" unfolding digits64 [OF assms] using assms by (auto simp: less_digit)
  moreover have "h = 0 \<Longrightarrow> z = 0 \<Longrightarrow> u = y * 64 + x" "h = 0 \<Longrightarrow> z = 0 \<Longrightarrow> u div 64 = y" "h = 0 \<Longrightarrow> u div 4096 = z"
    using digits64(2,4) [OF assms] assms(4) by simp_all
  ultimately show ?thesis unfolding utf8_encode_def using digits64(1,3,5,6) [OF assms]
    by (simp only: split: if_split) simp
qed

lemma scalar_value_digits:
  assumes "z < 64" "y < 64" "x < 64" "u = ((h * 64 + z) * 64 + y) * 64 + (x :: nat)"
  shows "scalar_value u \<longleftrightarrow> \<not> (h = 0 \<and> z = 13 \<and> 32 \<le> y) \<and> (h \<le> 3 \<or> h = 4 \<and> z < 16)"
proof -
  have "u < 0xD800 \<longleftrightarrow> u div 64 < 864" "0xE000 \<le> u \<longleftrightarrow> \<not> u div 4096 < 14" "u \<le> 0x10FFFF \<longleftrightarrow> u div 4096 < 272"
    by (simp_all add: div_less_iff_less_mult not_less le_less_Suc_eq flip: less_Suc_eq_le)
  moreover have "(h * 64 + z) * 64 + y < 864 \<longleftrightarrow> h = 0 \<and> (z < 13 \<or> z = 13 \<and> y < 32)"
    using less_digit [of y 864 "h * 64 + z"] assms by (cases h) (auto, linarith?)
  moreover have "h * 64 + z < 272 \<longleftrightarrow> h < 4 \<or> h = 4 \<and> z < 16" using assms(1) by (cases h "4::nat" rule: linorder_cases) auto
  ultimately have "u < 0xD800 \<longleftrightarrow> h = 0 \<and> (z < 13 \<or> z = 13 \<and> y < 32)" "0xE000 \<le> u \<longleftrightarrow> \<not> (h = 0 \<and> z < 14)"
    "u \<le> 0x10FFFF \<longleftrightarrow> h < 4 \<or> h = 4 \<and> z < 16"
    unfolding digits64 [OF assms] using assms by (auto simp: less_digit)
  then show ?thesis unfolding scalar_value_def by (cases "h = 0") auto
qed

lemma encode_well_formed:
  assumes "scalar_value u"
  shows "well_formed_char (utf8_encode u)"
proof (rule ex_digits64 [of u])
  fix h z y x assume d: "z < 64" "y < 64" "x < 64" "u = ((h * 64 + z) * 64 + y) * 64 + x"
  show ?thesis using assms d(1-3) unfolding scalar_value_digits [OF d] utf8_encode_digits [OF d] by auto
qed

lemma well_formed_encodes:
  assumes "well_formed_char ns"
  shows "\<exists>u. scalar_value u \<and> ns = utf8_encode u"
proof -
  have *: ?thesis if d: "z < 64" "y < 64" "x < 64" and "\<not> (h = 0 \<and> z = 13 \<and> 32 \<le> y) \<and> (h \<le> 3 \<or> h = 4 \<and> z < 16)"
    and "ns = (if h = 0 \<and> z = 0 \<and> y < 2 then [y * 64 + x]
      else if h = 0 \<and> z = 0 \<and> y < 32 then [0xC0 + y, 0x80 + x]
      else if h = 0 \<and> z < 16 then [0xE0 + z, 0x80 + y, 0x80 + x]
      else [0xF0 + h, 0x80 + z, 0x80 + y, 0x80 + x])" for h z y x
  proof (intro exI conjI)
    show "scalar_value (((h * 64 + z) * 64 + y) * 64 + x)" using that(4) unfolding scalar_value_digits [OF d refl] .
    show "ns = utf8_encode (((h * 64 + z) * 64 + y) * 64 + x)" using that(5) unfolding utf8_encode_digits [OF d refl] .
  qed
  show ?thesis using assms
  proof (cases ns rule: well_formed_char.cases)
    case (1 a)
    with assms show ?thesis by (intro exI [of _ a]) (simp add: scalar_value_def utf8_encode_def)
  next
    case (2 a b)
    show ?thesis by (rule * [of 0 "a - 0xC0" "b - 0x80" 0]) (use assms 2 in auto)
  next
    case (3 a b c)
    define z y x where "z = a - 0xE0" and "y = b - 0x80" and "x = c - 0x80"
    from assms 3 have e: "ns = [0xE0 + z, 0x80 + y, 0x80 + x]" "z < 16" "y < 64" "x < 64"
      "z = 0 \<longrightarrow> 32 \<le> y" "z = 13 \<longrightarrow> y < 32" by (auto simp: z_def y_def x_def)
    from e(2-6) show ?thesis by (intro * [of z y x 0, OF _ _ _ _ trans [OF e(1)]]) auto
  next
    case (4 a b c d)
    define h z y x where "h = a - 0xF0" and "z = b - 0x80" and "y = c - 0x80" and "x = d - 0x80"
    from assms 4 have e: "ns = [0xF0 + h, 0x80 + z, 0x80 + y, 0x80 + x]" "h < 5" "z < 64" "y < 64" "x < 64"
      "h = 0 \<longrightarrow> 16 \<le> z" "h = 4 \<longrightarrow> z < 16" by (auto simp: h_def z_def y_def x_def)
    from e(2-7) show ?thesis by (intro * [of z y x h, OF _ _ _ _ trans [OF e(1)]]) auto
  qed simp_all
qed

section \<open>The whole string\<close>

lemma utf8_loop_iff:
  "utf8_loop x \<noteq> None \<longleftrightarrow> (\<exists>data us. x = Some data \<and> (\<forall>u\<in>set us. scalar_value u)
     \<and> map unat data = concat (map utf8_encode us))"
proof (induction x rule: utf8_loop.induct)
  case 1 show ?case by simp
next
  case 2 show ?case by (auto intro: exI [of _ "[]"])
next
  case (3 c cs)
  let ?v = "UTF8_char_validate (c # cs)"
  show ?case
  proof
    assume "utf8_loop (Some (c # cs)) \<noteq> None"
    with 3 obtain rest us where v: "?v = Some rest" and us: "\<forall>u\<in>set us. scalar_value u"
      "map unat rest = concat (map utf8_encode us)" by auto
    from v obtain bs where b: "c # cs = bs @ rest" "well_formed_char (map unat bs)" by (auto simp: UTF8_char_validate_iff)
    from well_formed_encodes [OF b(2)] obtain u where "scalar_value u" "map unat bs = utf8_encode u" by blast
    with us b(1) show "\<exists>data us. Some (c # cs) = Some data \<and> (\<forall>u\<in>set us. scalar_value u)
        \<and> map unat data = concat (map utf8_encode us)"
      by (intro exI [of _ "c # cs"] exI [of _ "u # us"]) simp
  next
    assume "\<exists>data us. Some (c # cs) = Some data \<and> (\<forall>u\<in>set us. scalar_value u)
        \<and> map unat data = concat (map utf8_encode us)"
    then obtain us where us: "\<forall>u\<in>set us. scalar_value u" "map unat (c # cs) = concat (map utf8_encode us)" by auto
    then obtain u vs where u: "us = u # vs" by (cases us) auto
    let ?n = "length (utf8_encode u)"
    have s: "map unat (take ?n (c # cs)) = utf8_encode u" "map unat (drop ?n (c # cs)) = concat (map utf8_encode vs)"
      using us(2) u by (simp_all only: take_map [symmetric] drop_map [symmetric]) simp_all
    then have "?v = Some (drop ?n (c # cs))"
      using us(1) u by (auto simp: UTF8_char_validate_iff encode_well_formed intro!: exI [of _ "take ?n (c # cs)"] simp del: take_Cons' drop_Cons')
    with 3 us(1) u s(2) show "utf8_loop (Some (c # cs)) \<noteq> None" by auto
  qed
qed

text \<open>C26: \<open>UTF8_validate\<close> accepts a string exactly when it is the encoding of a sequence of Unicode scalar
  values as the standard defines it: no overlong forms, no surrogates, nothing above U+10FFFF and no truncated
  character.  It always ends.\<close>

theorem UTF8_validate_iff_encoding:
  "UTF8_validate (Some data) \<longleftrightarrow>
     (\<exists>us. list_all scalar_value us \<and> map unat data = concat (map utf8_encode us))"
proof (cases data)
  case Nil
  then show ?thesis by (auto simp: UTF8_validate_def intro: exI [of _ "[]"])
next
  case (Cons c cs)
  then have "UTF8_validate (Some data) \<longleftrightarrow> utf8_loop (Some data) \<noteq> None" by (simp add: UTF8_validate_def)
  then show ?thesis unfolding utf8_loop_iff by (simp add: list_all_iff)
qed

end
