(* ===== verification/Spec2Isabelle.thy ===== *)
theory Spec2Isabelle
  imports Base64 Handles Sha1 Utf8
begin

text \<open>
  A verification development for the MQTT client in \<^verbatim>\<open>src/\<close>, a C library that publishes to and
  subscribes at an MQTT broker over non-blocking sockets.

  \<^bold>\<open>The program.\<close>  An application creates a handle (\<^verbatim>\<open>src/src/MQTTClient.c\<close>), connects it, and publishes or
  subscribes.  \<^verbatim>\<open>src/src/MQTTProtocol.c\<close> assigns message ids, keeps every message of quality of service 1 and 2
  until it is acknowledged (publications are shared and counted by reference) and answers incoming packets.
  \<^verbatim>\<open>src/src/MQTTPacket.c\<close> and \<^verbatim>\<open>src/src/MQTTProperties.c\<close> turn packets into buffers and bytes into packets.
  \<^verbatim>\<open>src/src/utils/Socket.c\<close> reads and writes the sockets; what a read or a write leaves unfinished is parked in
  \<^verbatim>\<open>src/src/utils/SocketBuffer.c\<close> and continued in a later round of \<open>select\<close>.  All of them keep their tables in
  the linked lists of \<^verbatim>\<open>src/src/utils/LinkedList.c\<close>.  Outgoing data flows from \<open>MQTTClient_publish5\<close> through
  \<open>MQTTProtocol_startPublish\<close>, \<open>MQTTPacket_send_publish\<close> and \<open>Socket_putdatas\<close> to \<open>writev\<close>; incoming data from
  \<open>recv\<close> through \<open>Socket_getch\<close> and \<open>Socket_getdata\<close>, \<open>MQTTPacket_Factory\<close> and \<open>MQTTProtocol_handlePublishes\<close> into
  the queue of the client.

  \<^bold>\<open>Conventions.\<close>  Described in \<open>Prelude\<close>: pointers are natural numbers, a C function is a HOL function on
  an explicit state, and the result \<open>None\<close> means that the C code has no defined behaviour or does not return (a
  dangling pointer, an access outside a buffer, an endless loop).  A theorem that gives \<open>Some\<close> is therefore a
  theorem of memory safety and termination.  What is not under \<^verbatim>\<open>src/\<close> is an argument or a script in the state:
  \<open>malloc\<close>'s address (\<open>alloc\<close>, with the hypothesis \<open>buf_allocator alloc\<close>: a fresh block) and whether it succeeds
  (\<open>mallocs\<close>, \<open>answers\<close>: a list of answers, with the empty list for "memory is available"), what \<open>recv\<close>, \<open>writev\<close>,
  \<open>select\<close> and \<open>fcntl\<close> answer (\<open>wire\<close> and the scripts of \<open>SocketWrite\<close>).

  \<^bold>\<open>The theories\<close>, from the bottom up.
  \<^item> \<open>Prelude\<close>: types, completion codes, collections of simplification rules, generic lemmas.
  \<^item> \<open>LinkedList\<close>: every operation of \<^verbatim>\<open>LinkedList.c\<close> on a heap of elements with pointers in both directions; a
    refinement to lists with a cursor (any sequence of calls, failing \<open>malloc\<close> included), and that emptying frees
    everything once.  The theories above use the abstract lists (\<open>alist\<close>) that it justifies.  \<open>KeyedTable\<close> is the
    interface (a locale) of a list used as a table with a comparison callback.
  \<^item> \<open>SocketBuffer\<close>: \<^verbatim>\<open>SocketBuffer.c\<close>, all functions; the parked reads and writes of the sockets do not
    disturb each other.
  \<^item> \<open>SocketRead\<close>: \<open>Socket_getch\<close> and \<open>Socket_getdata\<close>; the locale \<open>packet_source\<close> with what a packet
    reader needs of its source, and the interpretation \<open>plain\<close> on these functions.
  \<^item> \<open>Wire\<close>, \<open>Properties\<close>, \<open>Packet\<close>: the integers, strings, property lists, builders and parsers of
    \<^verbatim>\<open>MQTTPacket.c\<close> and \<^verbatim>\<open>MQTTProperties.c\<close>.  \<open>PacketReader\<close>: the factory reads one packet, however it is
    chunked.  \<open>PacketCodec\<close>: round trips, exact packets, safety of the parsers, the headers that break the factory.
  \<^item> \<open>SocketWrite\<close>: \<open>Socket_putdatas\<close>, \<open>Socket_continueWrite(s)\<close>, \<open>Socket_addSocket\<close>, \<open>Socket_close\<close>,
    \<open>Socket_getReadySocket\<close> and what they use, over memory with blocks.  \<open>SocketStream\<close>: the bytes on the wire and
    the pending ones are the packets handed over; pending writes drain; broken ones are dropped.  \<open>SocketSet\<close>:
    the sets of sockets, closing.  \<open>SocketReady\<close>: a round serves each ready socket once.
  \<^item> \<open>Memory\<close>, \<open>Strings\<close>: blocks and C strings; \<open>MQTTStrncpy\<close>, \<open>MQTTStrdup\<close>, \<open>MQTTProtocol_addressPort\<close>.
  \<^item> \<open>Sending\<close>: a builder, the hand-over of its blocks and the socket together.
  \<^item> \<open>MessageStore\<close>: publications, messages and clients of \<^verbatim>\<open>MQTTProtocol.c\<close> and the handlers of incoming
    packets.  \<open>MessageIds\<close>: the search for a free message id.  \<open>Ownership\<close> and \<open>MessageInvariant\<close>: who owns
    which block, exact reference counts, PUBACK and PUBLISH.  \<open>Publishing\<close>: an outgoing publication.
  \<^item> \<open>Client\<close>, \<open>Handles\<close>: the functions of \<^verbatim>\<open>MQTTClient.c\<close> for publishing, subscribing, creating and
    destroying.
  \<^item> \<open>Base64\<close>, \<open>Utf8\<close>, \<open>Sha1\<close>: the codecs, each against the definition of its standard.

  \<^bold>\<open>Bounds and fuel.\<close>  There is no fuel: loops are recursive functions with a termination proof, and those that
  may run for ever (the unlinking loop of a broken list, the search for a message id, reading a remaining length) are
  partial functions in \<open>option\<close> whose results are proved.  Machine integers wrap where the code can reach the limit
  (message ids, lengths of packets, the digest, the header byte); elsewhere the theorem states the bound.

  \<^bold>\<open>Concurrency.\<close>  A function is one step of the state.  The functions of \<^verbatim>\<open>MQTTClient.c\<close> modelled
  in \<open>Client\<close>, with \<open>MQTTClient_setCallbacks\<close> and \<open>MQTTClient_destroy\<close>, hold \<open>mqttclient_mutex\<close> from beginning to
  end; \<open>MQTTClient_create\<close> takes no mutex.  \<open>Socket_getReadySocket\<close> does release \<open>socket_mutex\<close>, around its
  first \<open>select\<close> and around the callback of \<open>Socket_continueWrites\<close>: what another thread changes in these two windows
  is not in the model, and the theorems of \<open>SocketReady\<close> are of calls without such interference.  The socket
  functions the client calls take no mutex themselves.

  \<^bold>\<open>Not modelled.\<close>
  \<^item> \<^verbatim>\<open>src/src/utils/WebSocket.c\<close>: framing, masking, the upgrade request and \<open>WebSocket_terminate\<close>.  Only the
    branch of \<open>WebSocket_putdatas\<close> for a connection that is no web socket is (\<open>net_put\<close>); the client never
    upgrades one.
  \<^item> In \<^verbatim>\<open>Socket.c\<close>: \<open>Socket_new\<close> (name resolution and \<open>connect\<close>, system calls), \<open>Socket_getaddrname\<close>,
    \<open>Socket_getpeer\<close> and the error text of \<open>Socket_error\<close>; the \<open>poll\<close> configuration, which the build leaves out.
  \<^item> In \<^verbatim>\<open>MQTTClient.c\<close>: connecting and the receiving thread (\<open>MQTTClient_connect\<close> and what it calls,
    \<open>MQTTClient_cycle\<close>, \<open>MQTTClient_waitfor\<close>, \<open>MQTTClient_run\<close>), which wait on semaphores and the clock;
    \<open>MQTTProtocol_connect\<close> in \<^verbatim>\<open>MQTTProtocol.c\<close>.
  \<^item> The log (\<^verbatim>\<open>Log.c\<close>, \<^verbatim>\<open>Messages.c\<close>), threads and semaphores (\<^verbatim>\<open>Thread.c\<close>), the clock
    (\<^verbatim>\<open>MQTTTime.c\<close>), and the programs in \<^verbatim>\<open>src/sample/\<close>.
  \<^item> The blocks of handles, clients and their strings: they are entries of the tables, and no theorem counts their
    calls of \<open>malloc\<close> and \<open>free\<close>.
\<close>

end
